(* ===== verification/Prelude.thy ===== *)
theory Prelude
  imports Main "HOL-Library.Word" "HOL-Library.List_Lexorder" "HOL-Library.Char_ord"
    "HOL-Library.Product_Lexorder"
begin

text \<open>
  Shared vocabulary of the development: the machine types of the Go code, the way its error
  returns and panics are represented, three-way comparison with its contract, and the generic
  lemmas on lists that several components use.
\<close>

section \<open>Machine types\<close>

text \<open>
  A Go \<open>byte\<close> is an 8-bit word, \<open>uint64\<close> and \<open>int64\<close> are 64-bit words (\<open>int64\<close> values are
  read with \<open>sint\<close>), \<open>int32\<close> is a 32-bit word. A Go \<open>string\<close> is a sequence of bytes, which is
  HOL's \<open>string\<close>: a list of 8-bit characters. Lengths and indices into slices are \<open>nat\<close>.
\<close>

type_synonym byte = "8 word"
type_synonym u64 = "64 word"
type_synonym i64 = "64 word"
type_synonym i32 = "32 word"

named_theorems order_simps
  "the comparison functions of the code, read as comparisons of what they rank by"

section \<open>Errors and panics\<close>

text \<open>
  One constructor for every \<open>fmt.Errorf\<close>, every \<open>errors.New\<close> and every run-time panic of the
  modelled code; the formatted text of a message is not modelled. A function returning
  \<open>(T, error)\<close> is a function into \<open>T result\<close>: \<open>Inl (Error e)\<close> is an error return, \<open>Inl (Panic e)\<close>
  a panic that unwinds the goroutine, \<open>Inr x\<close> the value.
\<close>

datatype go_error =
    LowNotBelowHigh
  | EntriesEmpty
  | FirstNotAtMin
  | InfinityBeforeLast
  | GapBetweenEntries
  | OverlapBetweenEntries
  | LastNotAtInfinity
  | KeyNotInSliceMap
  | SlicesDoNotIntersect
  | IncarnationTooLarge
  | ResourcesEmpty
  | SliceIncarnationDiffers
  | SliceGenerationTooNew
  | GenerationEmpty
  | AnnotationForeignResource
  | AnnotationListEmpty
  | AnnotationTooNew
  | AnnotationsNotOrdered
  | TransferToSelf
  | AnnotationsOutsideSlice
  | LoadNotFinite
  | SliceMapNil
  | SliceProtoNil
  | SquidProtoNil
  | AssignmentProtoNil
  | ResourceIndexOutOfBounds
  | AnnotationResourceOutOfBounds
  | TransferResourceOutOfBounds
  | IndexOutOfRange
  | NilDereference
  | NoAssignmentAvailable
  | NoResourcesAssigned
  | AllReplicasExhausted

datatype failure = Panic go_error | Error go_error

type_synonym 'a result = "failure + 'a"

text \<open>
  \<open>and_then\<close> is the \<open>if err != nil { return ..., err }\<close> idiom, and at the same time the
  propagation of a panic; \<open>must\<close> is the \<open>MustNew...\<close> idiom, which panics with the error.
\<close>

fun and_then :: "'a result \<Rightarrow> ('a \<Rightarrow> 'b result) \<Rightarrow> 'b result" where
  "and_then (Inl f) k = Inl f"
| "and_then (Inr x) k = k x"

fun must :: "'a result \<Rightarrow> 'a result" where
  "must (Inl (Error e)) = Inl (Panic e)"
| "must (Inl (Panic e)) = Inl (Panic e)"
| "must (Inr x) = Inr x"

fun map_result :: "('a \<Rightarrow> 'b result) \<Rightarrow> 'a list \<Rightarrow> 'b list result" where
  "map_result f [] = Inr []"
| "map_result f (x # xs) = and_then (f x) (\<lambda>y. and_then (map_result f xs) (\<lambda>ys. Inr (y # ys)))"

definition succeeds :: "'a result \<Rightarrow> bool" where
  "succeeds r \<longleftrightarrow> (case r of Inl _ \<Rightarrow> False | Inr _ \<Rightarrow> True)"

definition panics :: "'a result \<Rightarrow> bool" where
  "panics r \<longleftrightarrow> (case r of Inl (Panic _) \<Rightarrow> True | _ \<Rightarrow> False)"

lemma and_then_cong [fundef_cong]:
  "m = m' \<Longrightarrow> (\<And>x. m' = Inr x \<Longrightarrow> k x = k' x) \<Longrightarrow> and_then m k = and_then m' k'"
  by (cases m') auto

lemma and_then_Inr_iff: "and_then m k = Inr y \<longleftrightarrow> (\<exists>x. m = Inr x \<and> k x = Inr y)"
  by (cases m) auto

lemma and_then_InrE:
  assumes "and_then m k = Inr y"
  obtains x where "m = Inr x" and "k x = Inr y"
  using assms by (cases m) auto

lemma and_then_Inl_iff:
  "and_then m k = Inl f \<longleftrightarrow> m = Inl f \<or> (\<exists>x. m = Inr x \<and> k x = Inl f)"
  by (cases m) auto

lemma must_Inr_iff [simp]: "must m = Inr x \<longleftrightarrow> m = Inr x"
  by (cases m rule: must.cases) auto

lemma must_Inl_iff: "must m = Inl f \<longleftrightarrow> (\<exists>e. f = Panic e \<and> (m = Inl (Error e) \<or> m = Inl (Panic e)))"
  by (cases m rule: must.cases) auto

lemma succeeds_simps [simp]:
  "succeeds (Inr x)" "\<not> succeeds (Inl f)"
  by (simp_all add: succeeds_def)

lemma panics_simps [simp]:
  "panics (Inl (Panic e))" "\<not> panics (Inl (Error e))" "\<not> panics (Inr x)"
  by (simp_all add: panics_def)

lemma panics_and_then:
  "panics (and_then m k) \<longleftrightarrow> panics m \<or> (\<exists>x. m = Inr x \<and> panics (k x))"
  by (cases m) (auto simp: panics_def)

lemma map_result_Inr_iff:
  "map_result f xs = Inr ys \<longleftrightarrow> list_all2 (\<lambda>x y. f x = Inr y) xs ys"
proof (induction xs arbitrary: ys)
  case Nil
  then show ?case by auto
next
  case (Cons x xs)
  then show ?case by (cases ys) (auto simp: and_then_Inr_iff)
qed

lemma map_result_map:
  "(\<And>x. x \<in> set xs \<Longrightarrow> f (g x) = Inr (h x)) \<Longrightarrow> map_result f (map g xs) = Inr (map h xs)"
  by (induction xs) auto

section \<open>Threading a state through a list\<close>

text \<open>A loop that calls an operation with an effect on some state for every element of a list.\<close>

fun map_state :: "('s \<Rightarrow> 'a \<Rightarrow> 'b \<times> 's) \<Rightarrow> 's \<Rightarrow> 'a list \<Rightarrow> 'b list \<times> 's" where
  "map_state f s [] = ([], s)"
| "map_state f s (x # xs) =
     (let (y, s1) = f s x; (ys, s2) = map_state f s1 xs in (y # ys, s2))"

text \<open>
  The contract under which such a loop is reasoned about: the state only grows (\<open>ext\<close>), the
  invariant holds as long as the state stays \<open>small\<close>, and smallness of a state passes to the states it
  extends.
\<close>

locale growing_state =
  fixes inv :: "'s \<Rightarrow> bool" and ext :: "'s \<Rightarrow> 's \<Rightarrow> bool" and small :: "'s \<Rightarrow> bool"
  assumes ext_refl: "ext s s"
    and ext_trans: "ext s t \<Longrightarrow> ext t u \<Longrightarrow> ext s u"
    and small_ext: "ext s t \<Longrightarrow> small t \<Longrightarrow> small s"
begin

definition emits :: "('s \<Rightarrow> 'a \<Rightarrow> 'b \<times> 's) \<Rightarrow> ('s \<Rightarrow> 'a \<Rightarrow> 'b \<Rightarrow> bool) \<Rightarrow> 'a \<Rightarrow> bool" where
  "emits f R x \<longleftrightarrow>
     (\<forall>s y s'. inv s \<longrightarrow> f s x = (y, s') \<longrightarrow> ext s s' \<and> (small s' \<longrightarrow> inv s' \<and> R s' x y))"

lemma map_state_emits:
  assumes "\<forall>x \<in> set xs. emits f R x"
    and mono: "\<And>s t x y. R s x y \<Longrightarrow> ext s t \<Longrightarrow> R t x y"
    and ext_always: "\<And>s x. ext s (snd (f s x))"
    and "inv s" and "map_state f s xs = (ys, s')"
  shows "ext s s' \<and> (small s' \<longrightarrow> inv s' \<and> list_all2 (R s') xs ys)"
  using assms(1,4,5)
proof (induction xs arbitrary: s ys)
  case Nil
  then show ?case by (auto intro: ext_refl)
next
  case (Cons x xs)
  obtain y s1 where one: "f s x = (y, s1)" by fastforce
  obtain ys2 s2 where two: "map_state f s1 xs = (ys2, s2)" by fastforce
  have eqs: "ys = y # ys2" "s' = s2"
    using Cons.prems(3) by (simp_all add: one two)
  have step: "ext s s1" "small s1 \<longrightarrow> inv s1 \<and> R s1 x y"
    using Cons.prems(1,2) one by (auto simp: emits_def)
  have exts: "ext t (snd (map_state f t zs))" for t zs
    by (induction zs arbitrary: t) (auto simp: split_beta intro: ext_refl ext_trans ext_always)
  have ext12: "ext s1 s2"
    using exts [of s1 xs] two by simp
  have "inv s2 \<and> list_all2 (R s2) (x # xs) (y # ys2)" if "small s2"
  proof -
    have s1: "inv s1" "R s1 x y"
      using step small_ext [OF ext12 that] by auto
    then show ?thesis
      using Cons.IH [OF _ s1(1) two [folded eqs(2)]] Cons.prems(1) that mono [OF s1(2) ext12]
      by (auto simp: eqs)
  qed
  then show ?case
    using ext_trans [OF step(1) ext12] by (simp add: eqs)
qed

end

section \<open>Three-way comparison\<close>

text \<open>
  Every \<open>Compare\<close> of the code answers -1, 0 or 1. The contract of such a function is stated once:
  on well-formed arguments it is the comparison of their ranks in a linear order.
\<close>

definition cmp3 :: "'a::linorder \<Rightarrow> 'a \<Rightarrow> int" where
  "cmp3 x y = (if x < y then -1 else if y < x then 1 else 0)"

lemma cmp3_simps [simp]:
  "cmp3 x y < 0 \<longleftrightarrow> x < y"
  "0 < cmp3 x y \<longleftrightarrow> y < x"
  "cmp3 x y \<le> 0 \<longleftrightarrow> x \<le> y"
  "0 \<le> cmp3 x y \<longleftrightarrow> y \<le> x"
  "cmp3 x y = 0 \<longleftrightarrow> x = y"
  "cmp3 x y = -1 \<longleftrightarrow> x < y"
  "cmp3 x y = 1 \<longleftrightarrow> y < x"
  by (auto simp: cmp3_def)

lemma cmp3_refl [simp]: "cmp3 x x = 0"
  by (simp add: cmp3_def)

lemma eq_min_iff: "(x :: 'a::linorder) = min x y \<longleftrightarrow> x \<le> y" "(y :: 'a::linorder) = min x y \<longleftrightarrow> y \<le> x"
  by (auto simp: min_def)

locale three_way =
  fixes compare :: "'a \<Rightarrow> 'a \<Rightarrow> int"
    and wf :: "'a \<Rightarrow> bool"
    and rank :: "'a \<Rightarrow> 'r::linorder"
  assumes compare_spec: "wf a \<Longrightarrow> wf b \<Longrightarrow> compare a b = cmp3 (rank a) (rank b)"
begin

lemma compare_range: "wf a \<Longrightarrow> wf b \<Longrightarrow> compare a b \<in> {-1, 0, 1}"
  by (simp add: compare_spec cmp3_def)

lemma compare_refl: "wf a \<Longrightarrow> compare a a = 0"
  by (simp add: compare_spec)

lemma compare_antisym: "wf a \<Longrightarrow> wf b \<Longrightarrow> compare b a = - compare a b"
  by (auto simp: compare_spec cmp3_def)

lemma compare_trans:
  "wf a \<Longrightarrow> wf b \<Longrightarrow> wf c \<Longrightarrow> compare a b \<le> 0 \<Longrightarrow> compare b c \<le> 0 \<Longrightarrow> compare a c \<le> 0"
  by (auto simp: compare_spec)

lemma compare_less_trans:
  "wf a \<Longrightarrow> wf b \<Longrightarrow> wf c \<Longrightarrow> compare a b < 0 \<Longrightarrow> compare b c < 0 \<Longrightarrow> compare a c < 0"
  by (auto simp: compare_spec)

lemma compare_total: "wf a \<Longrightarrow> wf b \<Longrightarrow> compare a b < 0 \<or> compare a b = 0 \<or> compare b a < 0"
  by (auto simp: compare_spec)

lemma compare_eq_iff: "wf a \<Longrightarrow> wf b \<Longrightarrow> compare a b = 0 \<longleftrightarrow> rank a = rank b"
  by (simp add: compare_spec)

lemma compare_order:
  assumes "wf a" and "wf b" and "wf c"
  shows "compare a b \<in> {-1, 0, 1} \<and> compare b a = - compare a b
    \<and> (compare a b = 0 \<longleftrightarrow> rank a = rank b)
    \<and> (compare a b \<le> 0 \<longrightarrow> compare b c \<le> 0 \<longrightarrow> compare a c \<le> 0)"
  using assms compare_range [of a b] compare_antisym [of a b] compare_eq_iff [of a b]
    compare_trans [of a b c] by blast

end

section \<open>Points of the key line with an end\<close>

text \<open>
  The upper bound of a slice is a key or infinity: a linear order with a top element added.
\<close>

datatype 'a bound = Fin 'a | PInf

instantiation bound :: (linorder) linorder
begin

fun less_eq_bound :: "'a bound \<Rightarrow> 'a bound \<Rightarrow> bool" where
  "less_eq_bound b PInf \<longleftrightarrow> True"
| "less_eq_bound PInf (Fin y) \<longleftrightarrow> False"
| "less_eq_bound (Fin x) (Fin y) \<longleftrightarrow> x \<le> y"

definition less_bound :: "'a bound \<Rightarrow> 'a bound \<Rightarrow> bool" where
  "less_bound a b \<longleftrightarrow> a \<le> b \<and> \<not> b \<le> a"

instance
proof
  fix x y z :: "'a bound"
  show "x < y \<longleftrightarrow> x \<le> y \<and> \<not> y \<le> x"
    by (rule less_bound_def)
  show "x \<le> x"
    by (cases x) auto
  show "x \<le> y \<Longrightarrow> y \<le> z \<Longrightarrow> x \<le> z"
    by (cases x; cases y; cases z) auto
  show "x \<le> y \<Longrightarrow> y \<le> x \<Longrightarrow> x = y"
    by (cases x; cases y) auto
  show "x \<le> y \<or> y \<le> x"
    by (cases x; cases y) auto
qed

end

lemma bound_less_simps [simp]:
  "Fin x < Fin y \<longleftrightarrow> x < y"
  "Fin x < PInf"
  "\<not> PInf < b"
  by (auto simp: less_bound_def)

lemma bound_le_PInf_iff [simp]: "PInf \<le> b \<longleftrightarrow> b = PInf"
  by (cases b) auto

section \<open>Runs of labelled steps\<close>

text \<open>The runs of a step relation, with the labels in their order; the last step is taken last.\<close>

inductive run_of :: "('s \<Rightarrow> 'l \<Rightarrow> 's \<Rightarrow> bool) \<Rightarrow> 's \<Rightarrow> 'l list \<Rightarrow> 's \<Rightarrow> bool"
  for step :: "'s \<Rightarrow> 'l \<Rightarrow> 's \<Rightarrow> bool" and s :: 's where
  run_nil: "run_of step s [] s"
| run_snoc: "run_of step s ls s' \<Longrightarrow> step s' l s'' \<Longrightarrow> run_of step s (ls @ [l]) s''"

inductive_cases run_of_snocE: "run_of step s (ls @ [l]) s'"

lemma run_Nil [simp]: "run_of step s [] s' \<longleftrightarrow> s' = s"
  by (auto intro: run_of.intros elim: run_of.cases)

lemma run_reflexive [simp]: "\<exists>ls. run_of step s ls s"
  by (rule exI [of _ "[]"]) simp

lemma run_snoc_iff: "run_of step s (ls @ [l]) s' \<longleftrightarrow> (\<exists>s1. run_of step s ls s1 \<and> step s1 l s')"
  by (auto intro: run_of.intros elim: run_of_snocE)

lemma run_append_iff:
  "run_of step s (ls @ ms) s' \<longleftrightarrow> (\<exists>s1. run_of step s ls s1 \<and> run_of step s1 ms s')"
proof (induction ms arbitrary: s' rule: rev_induct)
  case (snoc m ms)
  have "run_of step s (ls @ ms @ [m]) s' \<longleftrightarrow> (\<exists>s2. run_of step s (ls @ ms) s2 \<and> step s2 m s')"
    using run_snoc_iff [of step s "ls @ ms" m s'] by simp
  then show ?case using snoc by (auto simp: run_snoc_iff)
qed simp

lemma run_appendD: "run_of step s ls s' \<Longrightarrow> ls = xs @ ys \<Longrightarrow> \<exists>s1. run_of step s xs s1 \<and> run_of step s1 ys s'"
  by (simp add: run_append_iff)

lemma run_trans: "run_of step s' ms s'' \<Longrightarrow> run_of step s ls s' \<Longrightarrow> run_of step s (ls @ ms) s''"
  by (auto simp: run_append_iff)

lemma run_Cons: "run_of step s (l # ls) s' \<longleftrightarrow> (\<exists>s1. step s l s1 \<and> run_of step s1 ls s')"
  using run_append_iff [of step s "[l]" ls s'] run_snoc_iff [of step s "[]" l] by simp

lemma run_step: "step s l s' \<Longrightarrow> run_of step s' ls s'' \<Longrightarrow> run_of step s (l # ls) s''"
  by (auto simp: run_Cons)

lemma run_invariant:
  assumes "run_of step s ls s'" and "P s" and "\<And>s l s'. step s l s' \<Longrightarrow> P s \<Longrightarrow> P s'"
  shows "P s'"
  using assms(1) by (induction rule: run_of.induct) (use assms(2,3) in auto)

end
