(* ===== verification/SliceKeys.thy ===== *)
theory SliceKeys
  imports Prelude
begin

text \<open>
  \<open>SliceKey\<close> and \<open>HighSliceKey\<close> of \<open>pkg/friend/slice.go\<close>: routing keys with their cached
  eight-byte prefix, the prefix-accelerated comparison, and upper bounds. The main result is that
  the accelerated comparison is the lexicographic comparison of the raw bytes.
\<close>

unbundle bit_operations_syntax

section \<open>The standard library's byte-wise comparison\<close>

text \<open>\<open>bytes.Compare\<close> on byte slices and \<open>strings.Compare\<close> on strings: lexicographic, bytewise.\<close>

fun bytes_Compare :: "'a::linorder list \<Rightarrow> 'a list \<Rightarrow> int" where
  "bytes_Compare [] [] = 0"
| "bytes_Compare [] (y # ys) = -1"
| "bytes_Compare (x # xs) [] = 1"
| "bytes_Compare (x # xs) (y # ys) =
     (if x < y then -1 else if y < x then 1 else bytes_Compare xs ys)"

lemma bytes_Compare_eq [order_simps]: "bytes_Compare xs ys = cmp3 xs ys"
  by (induction xs ys rule: bytes_Compare.induct) (auto simp: cmp3_def)

section \<open>Keys\<close>

record slice_key =
  k_data :: "byte list"
  k_bytesPrefix :: u64

text \<open>\<open>SliceKey{}\<close>, Go's zero value.\<close>

definition zero_SliceKey :: slice_key where
  "zero_SliceKey = \<lparr>k_data = [], k_bytesPrefix = 0\<rparr>"

text \<open>The loop body of \<open>NewSliceKey\<close> for index \<open>i\<close>: the byte, or 0 past the end, shifted in place.\<close>

definition prefix_step :: "byte list \<Rightarrow> nat \<Rightarrow> u64 \<Rightarrow> u64" where
  "prefix_step cp i prefix =
     (let byteVal = (if i < length cp then ucast (cp ! i) else 0)
      in prefix OR push_bit (8 * (7 - i)) byteVal)"

definition bytes_prefix :: "byte list \<Rightarrow> u64" where
  "bytes_prefix cp = fold (prefix_step cp) [0..<8] 0"

definition NewSliceKey :: "byte list \<Rightarrow> slice_key" where
  "NewSliceKey b = \<lparr>k_data = b, k_bytesPrefix = bytes_prefix b\<rparr>"

definition MinSliceKey :: slice_key where
  "MinSliceKey = NewSliceKey []"

text \<open>The conversion \<open>[]byte(s)\<close>: a Go string's bytes.\<close>

definition string_bytes :: "string \<Rightarrow> byte list" where
  "string_bytes s = map of_char s"

definition NewSliceKeyFromString :: "string \<Rightarrow> slice_key" where
  "NewSliceKeyFromString s = NewSliceKey (string_bytes s)"

definition key_Bytes :: "slice_key \<Rightarrow> byte list" where
  "key_Bytes k = k_data k"

definition key_Compare :: "slice_key \<Rightarrow> slice_key \<Rightarrow> int" where
  "key_Compare k other =
     (if k_bytesPrefix k < k_bytesPrefix other then -1
      else if k_bytesPrefix k > k_bytesPrefix other then 1
      else if length (k_data k) \<le> 8 \<or> length (k_data other) \<le> 8 then
        (if length (k_data k) < length (k_data other) then -1
         else if length (k_data k) > length (k_data other) then 1
         else 0)
      else bytes_Compare (k_data k) (k_data other))"

definition key_Less :: "slice_key \<Rightarrow> slice_key \<Rightarrow> bool" where
  "key_Less k other \<longleftrightarrow> key_Compare k other < 0"

definition key_Equal :: "slice_key \<Rightarrow> slice_key \<Rightarrow> bool" where
  "key_Equal k other \<longleftrightarrow>
     k_bytesPrefix k = k_bytesPrefix other \<and> k_data k = k_data other"

text \<open>\<open>binary.BigEndian.PutUint64\<close> writes the most significant byte first.\<close>

definition Uint64Key :: "u64 \<Rightarrow> slice_key" where
  "Uint64Key v = NewSliceKey (map (\<lambda>i. ucast (drop_bit (8 * (7 - i)) v)) [0..<8])"

text \<open>
  Both fields are unexported, so outside the package a key is made by \<open>NewSliceKey\<close> or is the zero
  value; either way the cached prefix belongs to the bytes.
\<close>

definition wf_key :: "slice_key \<Rightarrow> bool" where
  "wf_key k \<longleftrightarrow> k_bytesPrefix k = bytes_prefix (k_data k)"

lemma NewSliceKey_simps [simp]:
  "k_data (NewSliceKey b) = b" "wf_key (NewSliceKey b)"
  by (simp_all add: NewSliceKey_def wf_key_def)

lemma NewSliceKeyFromString_simps [simp]:
  "k_data (NewSliceKeyFromString s) = string_bytes s" "wf_key (NewSliceKeyFromString s)"
  by (simp_all add: NewSliceKeyFromString_def)

lemma MinSliceKey_simps [simp]:
  "k_data MinSliceKey = []" "wf_key MinSliceKey"
  by (simp_all add: MinSliceKey_def)

lemma wf_key_eqI: "wf_key a \<Longrightarrow> wf_key b \<Longrightarrow> k_data a = k_data b \<Longrightarrow> a = b"
  by (cases a; cases b) (simp add: wf_key_def)

lemma wf_key_NewSliceKey: "wf_key k \<Longrightarrow> NewSliceKey (k_data k) = k"
  by (rule wf_key_eqI) simp_all

section \<open>The prefix as a number\<close>

text \<open>The first eight bytes of a key, filled up with zeros, and their big-endian value.\<close>

fun pad :: "nat \<Rightarrow> byte list \<Rightarrow> byte list" where
  "pad 0 b = []"
| "pad (Suc n) [] = 0 # pad n []"
| "pad (Suc n) (x # xs) = x # pad n xs"

lemma length_pad [simp]: "length (pad n b) = n"
  by (induction n b rule: pad.induct) auto

lemma pad_nth: "i < n \<Longrightarrow> pad n b ! i = (if i < length b then b ! i else 0)"
proof (induction n b arbitrary: i rule: pad.induct)
  case (2 n)
  then show ?case by (cases i) auto
next
  case (3 n x xs)
  then show ?case by (cases i) auto
qed simp

fun be_value :: "byte list \<Rightarrow> nat" where
  "be_value [] = 0"
| "be_value (x # xs) = unat x * 256 ^ length xs + be_value xs"

lemma byte_bound: "unat (x :: byte) < 256"
proof -
  have "unat x < 2 ^ LENGTH(8)"
    by (rule unsigned_less)
  then show ?thesis by simp
qed

lemma be_value_bound: "be_value xs < 256 ^ length xs"
proof (induction xs)
  case (Cons x xs)
  have "unat x * 256 ^ length xs + be_value xs < (unat x + 1) * 256 ^ length xs"
    using Cons.IH by simp
  also have "\<dots> \<le> 256 * 256 ^ length xs"
    using byte_bound [of x] by (intro mult_right_mono) auto
  finally show ?case by simp
qed simp

lemma be_value_less_iff:
  "length xs = length ys \<Longrightarrow> be_value xs < be_value ys \<longleftrightarrow> xs < ys"
proof (induction xs ys rule: list_induct2)
  case Nil
  then show ?case by simp
next
  case (Cons x xs y ys)
  let ?m = "256 ^ length ys :: nat"
  have bounds: "be_value xs < ?m" "be_value ys < ?m"
    using be_value_bound [of xs] be_value_bound [of ys] Cons.hyps by simp_all
  consider "x < y" | "x = y" | "y < x" by fastforce
  then show ?case
  proof cases
    case 1
    then have "(unat x + 1) * ?m \<le> unat y * ?m"
      by (intro mult_right_mono) (auto simp: word_less_nat_alt)
    with 1 bounds Cons.hyps show ?thesis by simp
  next
    case 2
    with Cons show ?thesis by simp
  next
    case 3
    then have "(unat y + 1) * ?m \<le> unat x * ?m"
      by (intro mult_right_mono) (auto simp: word_less_nat_alt)
    with 3 bounds Cons.hyps show ?thesis by auto
  qed
qed

lemma be_value_snoc: "be_value (xs @ [x]) = 256 * be_value xs + unat x"
  by (induction xs) (simp_all add: algebra_simps)

lemma pad_Suc: "pad (Suc n) b = pad n b @ [if n < length b then b ! n else 0]"
  by (rule nth_equalityI) (auto simp: pad_nth nth_append less_Suc_eq)

lemma append_byte_word:
  "push_bit 8 (v :: u64) OR ucast (b :: byte) = 256 * v + ucast b"
proof -
  have "push_bit 8 v AND ucast b = 0"
    by (rule bit_eqI) (auto simp: bit_simps dest: bit_imp_le_length)
  then have "push_bit 8 v OR ucast b = push_bit 8 v + ucast b"
    by (simp add: disjunctive_add_eq_or)
  then show ?thesis
    by (simp add: push_bit_eq_mult)
qed

lemma fold_prefix_step:
  "n \<le> 8 \<Longrightarrow>
     fold (prefix_step cp) [0..<n] 0 = push_bit (8 * (8 - n)) (of_nat (be_value (pad n cp)))"
proof (induction n)
  case 0
  then show ?case by simp
next
  case (Suc n)
  define b :: byte where "b = (if n < length cp then cp ! n else 0)"
  define v :: u64 where "v = of_nat (be_value (pad n cp))"
  have shift: "push_bit (8 * (8 - n)) v = push_bit (8 * (7 - n)) (push_bit 8 v)"
  proof -
    have "8 * (8 - n) = 8 * (7 - n) + 8"
      using Suc.prems by simp
    then show ?thesis
      by (simp only: push_bit_push_bit)
  qed
  have "fold (prefix_step cp) [0..<Suc n] 0 = prefix_step cp n (push_bit (8 * (8 - n)) v)"
    using Suc by (simp add: v_def)
  also have "\<dots> = push_bit (8 * (7 - n)) (push_bit 8 v) OR push_bit (8 * (7 - n)) (ucast b)"
    by (simp add: prefix_step_def b_def shift)
  also have "\<dots> = push_bit (8 * (7 - n)) (256 * v + ucast b)"
    by (simp only: append_byte_word flip: push_bit_or)
  also have "256 * v + ucast b = of_nat (be_value (pad (Suc n) cp))"
    by (simp add: v_def b_def pad_Suc be_value_snoc)
  finally show ?case by simp
qed

lemma unat_bytes_prefix: "unat (bytes_prefix cp) = be_value (pad 8 cp)"
proof -
  have "be_value (pad 8 cp) < 256 ^ 8"
    using be_value_bound [of "pad 8 cp"] by simp
  then show ?thesis
    using fold_prefix_step [of 8 cp] by (simp add: bytes_prefix_def unat_of_nat)
qed

lemma bytes_prefix_less_iff: "bytes_prefix a < bytes_prefix b \<longleftrightarrow> pad 8 a < pad 8 b"
  by (simp add: word_less_nat_alt unat_bytes_prefix be_value_less_iff)

text \<open>Padding with the smallest byte keeps the order, and loses only the length of short keys.\<close>

lemma pad_less_imp: "pad n a < pad n b \<Longrightarrow> a < b"
proof (induction n arbitrary: a b)
  case (Suc n)
  show ?case
    using Suc.prems by (cases a; cases b) (auto dest: Suc.IH)
qed simp

lemma cmp3_Cons_same: "cmp3 (x # xs) (x # ys) = cmp3 xs ys"
  by (simp add: cmp3_def)

lemma pad_eq_cmp_length:
  "pad n a = pad n b \<Longrightarrow> length a \<le> n \<or> length b \<le> n \<Longrightarrow> cmp3 a b = cmp3 (length a) (length b)"
proof (induction n arbitrary: a b)
  case 0
  then show ?case by (cases a; cases b) (auto simp: cmp3_def)
next
  case (Suc n)
  show ?case
  proof (cases a; cases b)
    fix x xs y ys
    assume ab: "a = x # xs" "b = y # ys"
    then have "cmp3 xs ys = cmp3 (length xs) (length ys)"
      using Suc.prems by (intro Suc.IH) auto
    moreover have "cmp3 (length a) (length b) = cmp3 (length xs) (length ys)"
      by (simp add: ab cmp3_def)
    ultimately show ?thesis
      using ab Suc.prems by (simp add: cmp3_Cons_same)
  qed (auto simp: cmp3_def)
qed

lemma key_Compare_eq [order_simps]:
  assumes "wf_key k" and "wf_key other"
  shows "key_Compare k other = cmp3 (k_data k) (k_data other)"
proof -
  let ?a = "k_data k" and ?b = "k_data other"
  have px: "k_bytesPrefix k = bytes_prefix ?a" "k_bytesPrefix other = bytes_prefix ?b"
    using assms by (simp_all add: wf_key_def)
  have unfolded: "key_Compare k other =
     (if bytes_prefix ?a < bytes_prefix ?b then -1
      else if bytes_prefix ?b < bytes_prefix ?a then 1
      else if length ?a \<le> 8 \<or> length ?b \<le> 8 then cmp3 (length ?a) (length ?b)
      else cmp3 ?a ?b)"
    by (simp add: key_Compare_def px bytes_Compare_eq cmp3_def)
  consider "pad 8 ?a < pad 8 ?b" | "pad 8 ?b < pad 8 ?a" | "pad 8 ?a = pad 8 ?b"
    by (metis linorder_cases)
  then show ?thesis
  proof cases
    case 1
    then show ?thesis
      using pad_less_imp [OF 1] by (simp add: unfolded bytes_prefix_less_iff cmp3_def)
  next
    case 2
    then have "k_data other < k_data k"
      by (rule pad_less_imp)
    with 2 show ?thesis
      by (simp add: unfolded bytes_prefix_less_iff cmp3_def less_not_sym)
  next
    case 3
    then show ?thesis
      using pad_eq_cmp_length [OF 3] by (simp add: unfolded bytes_prefix_less_iff)
  qed
qed

interpretation key_order: three_way key_Compare wf_key k_data
  by unfold_locales (rule key_Compare_eq)

lemma key_Less_eq [order_simps]: "wf_key a \<Longrightarrow> wf_key b \<Longrightarrow> key_Less a b \<longleftrightarrow> k_data a < k_data b"
  by (simp add: key_Less_def order_simps)

lemma key_Equal_eq [order_simps]: "wf_key a \<Longrightarrow> wf_key b \<Longrightarrow> key_Equal a b \<longleftrightarrow> k_data a = k_data b"
  by (auto simp: key_Equal_def wf_key_def)

section \<open>Upper bounds\<close>

record high_slice_key =
  h_key :: slice_key
  h_isInfinity :: bool

definition InfinityKey :: high_slice_key where
  "InfinityKey = \<lparr>h_key = zero_SliceKey, h_isInfinity = True\<rparr>"

definition NewHighSliceKey :: "slice_key \<Rightarrow> high_slice_key" where
  "NewHighSliceKey key = \<lparr>h_key = key, h_isInfinity = False\<rparr>"

definition high_IsInfinity :: "high_slice_key \<Rightarrow> bool" where
  "high_IsInfinity h = h_isInfinity h"

text \<open>\<open>Key()\<close>: the finite key, or \<open>None\<close> for the pair \<open>(SliceKey{}, false)\<close>.\<close>

definition high_Key :: "high_slice_key \<Rightarrow> slice_key option" where
  "high_Key h = (if h_isInfinity h then None else Some (h_key h))"

definition high_CompareWithKey :: "high_slice_key \<Rightarrow> slice_key \<Rightarrow> int" where
  "high_CompareWithKey h key = (if h_isInfinity h then 1 else key_Compare (h_key h) key)"

definition high_CompareWithHigh :: "high_slice_key \<Rightarrow> high_slice_key \<Rightarrow> int" where
  "high_CompareWithHigh h other =
     (if h_isInfinity h \<and> h_isInfinity other then 0
      else if h_isInfinity h then 1
      else if h_isInfinity other then -1
      else key_Compare (h_key h) (h_key other))"

text \<open>
  These fields are unexported too: a bound is \<open>InfinityKey\<close>, or made by \<open>NewHighSliceKey\<close>, or zero.
\<close>

definition wf_high :: "high_slice_key \<Rightarrow> bool" where
  "wf_high h \<longleftrightarrow> (if h_isInfinity h then h_key h = zero_SliceKey else wf_key (h_key h))"

definition high_point :: "high_slice_key \<Rightarrow> byte list bound" where
  "high_point h = (if h_isInfinity h then PInf else Fin (k_data (h_key h)))"

lemma high_simps [simp]:
  "wf_high InfinityKey" "high_point InfinityKey = PInf" "h_isInfinity InfinityKey"
  "wf_high (NewHighSliceKey k) \<longleftrightarrow> wf_key k" "high_point (NewHighSliceKey k) = Fin (k_data k)"
  "\<not> h_isInfinity (NewHighSliceKey k)" "h_key (NewHighSliceKey k) = k"
  by (simp_all add: InfinityKey_def NewHighSliceKey_def wf_high_def high_point_def)

lemma high_Key_simps [simp]:
  "high_Key InfinityKey = None" "high_Key (NewHighSliceKey k) = Some k"
  by (simp_all add: high_Key_def)

lemma wf_high_infinite: "wf_high h \<Longrightarrow> high_point h = PInf \<Longrightarrow> h = InfinityKey"
  by (cases h) (auto simp: wf_high_def high_point_def InfinityKey_def split: if_splits)

lemma wf_high_finite: "wf_high h \<Longrightarrow> high_Key h = Some k \<Longrightarrow> h = NewHighSliceKey k"
  by (cases h) (auto simp: high_Key_def NewHighSliceKey_def split: if_splits)

lemma high_point_PInf_iff: "high_point h = PInf \<longleftrightarrow> h_isInfinity h"
  by (simp add: high_point_def)

lemma high_Key_None_iff [simp]: "high_Key h = None \<longleftrightarrow> high_point h = PInf"
  by (simp add: high_Key_def high_point_def)

lemma high_Key_SomeD:
  "high_Key h = Some k \<Longrightarrow> wf_high h \<Longrightarrow> wf_key k \<and> high_point h = Fin (k_data k)"
  by (auto simp: high_Key_def high_point_def wf_high_def split: if_splits)

lemma high_IsInfinity_iff [simp]: "high_IsInfinity h \<longleftrightarrow> high_point h = PInf"
  by (simp add: high_IsInfinity_def high_point_def)

lemma high_CompareWithKey_eq [order_simps]:
  "wf_high h \<Longrightarrow> wf_key k \<Longrightarrow> high_CompareWithKey h k = cmp3 (high_point h) (Fin (k_data k))"
  by (auto simp: high_CompareWithKey_def wf_high_def high_point_def key_Compare_eq cmp3_def
      split: if_splits)

lemma high_CompareWithHigh_eq [order_simps]:
  "wf_high h \<Longrightarrow> wf_high g \<Longrightarrow> high_CompareWithHigh h g = cmp3 (high_point h) (high_point g)"
  by (auto simp: high_CompareWithHigh_def wf_high_def high_point_def key_Compare_eq cmp3_def
      split: if_splits)

interpretation high_order: three_way high_CompareWithHigh wf_high high_point
  by unfold_locales (rule high_CompareWithHigh_eq)

section \<open>Properties\<close>

text \<open>
  C11: The prefix-accelerated \<open>SliceKey.Compare\<close> is the lexicographic comparison of the full byte
  strings, for keys of every length, and \<open>Less\<close> and \<open>Equal\<close> agree with it. Every key of the
  program is made by \<open>NewSliceKey\<close>, so there is no hypothesis.
\<close>

theorem key_Compare_lexicographic:
  "key_Compare (NewSliceKey a) (NewSliceKey b) = (if a < b then -1 else if a = b then 0 else 1)
   \<and> (key_Less (NewSliceKey a) (NewSliceKey b) \<longleftrightarrow> a < b)
   \<and> (key_Equal (NewSliceKey a) (NewSliceKey b) \<longleftrightarrow> a = b)"
  by (auto simp: order_simps cmp3_def)

lemma be_value_digits:
  "be_value (map (\<lambda>i. ucast (drop_bit (8 * i) (v :: u64)) :: byte) (rev [0..<n])) = unat v mod 256 ^ n"
proof (induction n)
  case 0
  then show ?case by simp
next
  case (Suc n)
  have bound: "unat v < 18446744073709551616"
    using unsigned_less [of v] by simp
  have "unat (ucast (drop_bit (8 * n) v) :: byte) = unat v div 256 ^ n mod 256"
    using bound
    by (simp add: unsigned_ucast_eq unsigned_drop_bit_eq take_bit_eq_mod drop_bit_eq_div [where ?'a = nat]
        power_mult)
  moreover have "unat v mod 256 ^ Suc n = 256 ^ n * (unat v div 256 ^ n mod 256) + unat v mod 256 ^ n"
    using mod_mult2_eq [of "unat v" "256 ^ n" 256] by (simp only: power_Suc2)
  ultimately show ?case
    using Suc by simp
qed

lemma be_value_word:
  "be_value (map (\<lambda>i. ucast (drop_bit (8 * (7 - i)) (v :: u64)) :: byte) [0..<8]) = unat v"
proof -
  have "unat v < 18446744073709551616"
    using unsigned_less [where 'a = nat, of v] by simp
  then show ?thesis
    using be_value_digits [of v 8] by (simp add: upt_rec)
qed

text \<open>
  \<open>Uint64Key\<close> preserves the order of the integers it encodes, so integer shards are routed in
  numeric order.
\<close>

lemma Uint64Key_order: "key_Compare (Uint64Key v) (Uint64Key w) = cmp3 v w"
  using be_value_less_iff [of "k_data (Uint64Key v)" "k_data (Uint64Key w)"]
    be_value_less_iff [of "k_data (Uint64Key w)" "k_data (Uint64Key v)"]
  by (simp add: Uint64Key_def order_simps be_value_word word_less_nat_alt cmp3_def)

text \<open>
  The comparison of upper bounds is a total order in which infinity is the greatest element: it
  answers -1, 0 or 1, is antisymmetric and transitive, and answers 0 only for equal bounds.
\<close>

lemma high_CompareWithHigh_order:
  assumes "wf_high a" and "wf_high b" and "wf_high c"
  shows "high_CompareWithHigh a b \<in> {-1, 0, 1}
    \<and> high_CompareWithHigh b a = - high_CompareWithHigh a b
    \<and> (high_CompareWithHigh a b = 0 \<longleftrightarrow> a = b)
    \<and> (high_CompareWithHigh a b \<le> 0 \<longrightarrow> high_CompareWithHigh b c \<le> 0 \<longrightarrow> high_CompareWithHigh a c \<le> 0)
    \<and> high_CompareWithHigh a InfinityKey \<le> 0"
proof -
  have "a = b" if "high_point a = high_point b"
    using that assms(1,2)
    by (cases a; cases b) (auto simp: high_point_def wf_high_def intro: wf_key_eqI split: if_splits)
  then show ?thesis
    using high_order.compare_order [OF assms] assms(1) by (auto simp: order_simps)
qed

end
