(* ===== verification/Slices.thy ===== *)
theory Slices
  imports SliceKeys
begin

text \<open>
  \<open>Slice\<close> of \<open>pkg/friend/slice.go\<close>: half-open key ranges, their constructor, and the geometric
  operations, each related to the set of keys a slice stands for.
\<close>

section \<open>Model\<close>

record slice =
  LowInclusive :: slice_key
  HighExclusive :: high_slice_key

definition NewSlice :: "slice_key \<Rightarrow> high_slice_key \<Rightarrow> slice result" where
  "NewSlice low high =
     (if high_CompareWithKey high low \<le> 0 then Inl (Error LowNotBelowHigh)
      else Inr \<lparr>LowInclusive = low, HighExclusive = high\<rparr>)"

definition MustNewSlice :: "slice_key \<Rightarrow> high_slice_key \<Rightarrow> slice result" where
  "MustNewSlice low high = must (NewSlice low high)"

definition FullSlice :: "slice result" where
  "FullSlice = MustNewSlice MinSliceKey InfinityKey"

definition slice_Contains :: "slice \<Rightarrow> slice_key \<Rightarrow> bool" where
  "slice_Contains s key =
     (if key_Compare key (LowInclusive s) < 0 then False
      else high_CompareWithKey (HighExclusive s) key > 0)"

definition slice_ContainsSlice :: "slice \<Rightarrow> slice \<Rightarrow> bool" where
  "slice_ContainsSlice s other =
     (if key_Compare (LowInclusive other) (LowInclusive s) < 0 then False
      else high_CompareWithHigh (HighExclusive s) (HighExclusive other) \<ge> 0)"

text \<open>\<open>Intersection\<close> returns \<open>(Slice, bool)\<close>; the pair \<open>(Slice{}, false)\<close> is \<open>None\<close>.\<close>

definition slice_Intersection :: "slice \<Rightarrow> slice \<Rightarrow> slice option result" where
  "slice_Intersection s other =
     (let low = (if key_Compare (LowInclusive other) (LowInclusive s) > 0
                 then LowInclusive other else LowInclusive s);
          high = (if high_CompareWithHigh (HighExclusive other) (HighExclusive s) < 0
                  then HighExclusive other else HighExclusive s)
      in if high_CompareWithKey high low \<le> 0 then Inr None
         else and_then (MustNewSlice low high) (\<lambda>r. Inr (Some r)))"

definition slice_Equal :: "slice \<Rightarrow> slice \<Rightarrow> bool" where
  "slice_Equal s other \<longleftrightarrow>
     key_Equal (LowInclusive s) (LowInclusive other)
     \<and> high_CompareWithHigh (HighExclusive s) (HighExclusive other) = 0"

section \<open>What a slice stands for\<close>

abbreviation low_bytes :: "slice \<Rightarrow> byte list" where
  "low_bytes s \<equiv> k_data (LowInclusive s)"

abbreviation high_end :: "slice \<Rightarrow> byte list bound" where
  "high_end s \<equiv> high_point (HighExclusive s)"

definition slice_keys :: "slice \<Rightarrow> byte list set" where
  "slice_keys s = {b. low_bytes s \<le> b \<and> Fin b < high_end s}"

text \<open>
  The fields of \<open>Slice\<close> are exported; \<open>wf_slice\<close> says what every slice made by \<open>NewSlice\<close> satisfies.
\<close>

definition wf_slice :: "slice \<Rightarrow> bool" where
  "wf_slice s \<longleftrightarrow> wf_key (LowInclusive s) \<and> wf_high (HighExclusive s) \<and> Fin (low_bytes s) < high_end s"

lemma wf_sliceD [simp]:
  assumes "wf_slice s"
  shows "wf_key (LowInclusive s)" "wf_high (HighExclusive s)" "Fin (low_bytes s) < high_end s"
  using assms by (simp_all add: wf_slice_def)

lemma wf_slice_make [simp]:
  "wf_slice \<lparr>LowInclusive = l, HighExclusive = h\<rparr> \<longleftrightarrow>
     wf_key l \<and> wf_high h \<and> Fin (k_data l) < high_point h"
  by (simp add: wf_slice_def)

lemma low_in_slice: "wf_slice s \<Longrightarrow> low_bytes s \<in> slice_keys s"
  by (auto simp: slice_keys_def)

lemma slice_keys_nonempty: "wf_slice s \<Longrightarrow> slice_keys s \<noteq> {}"
  using low_in_slice by blast

lemma NewSlice_Inr_iff:
  assumes "wf_key low" and "wf_high high"
  shows "NewSlice low high = Inr s \<longleftrightarrow>
    Fin (k_data low) < high_point high \<and> s = \<lparr>LowInclusive = low, HighExclusive = high\<rparr>"
  using assms by (auto simp: NewSlice_def order_simps)

lemma NewSlice_Inr:
  "wf_key low \<Longrightarrow> wf_high high \<Longrightarrow> Fin (k_data low) < high_point high \<Longrightarrow>
     NewSlice low high = Inr \<lparr>LowInclusive = low, HighExclusive = high\<rparr>"
  by (simp add: NewSlice_Inr_iff)

lemma NewSlice_InrD: "NewSlice low high = Inr s \<Longrightarrow> s = \<lparr>LowInclusive = low, HighExclusive = high\<rparr>"
  by (simp add: NewSlice_def split: if_splits)

lemma wf_slice_NewSlice:
  "NewSlice low high = Inr s \<Longrightarrow> wf_key low \<Longrightarrow> wf_high high \<Longrightarrow> wf_slice s"
  by (auto simp: NewSlice_Inr_iff)

lemma NewSlice_wf_id: "wf_slice s \<Longrightarrow> NewSlice (LowInclusive s) (HighExclusive s) = Inr s"
  by (simp add: NewSlice_Inr)

lemma FullSlice_keys: "\<exists>s. FullSlice = Inr s \<and> wf_slice s \<and> slice_keys s = UNIV"
proof -
  have "FullSlice = Inr \<lparr>LowInclusive = MinSliceKey, HighExclusive = InfinityKey\<rparr>"
    by (simp add: FullSlice_def MustNewSlice_def NewSlice_Inr)
  then show ?thesis
    by (auto simp: slice_keys_def)
qed

section \<open>The operations on key sets\<close>

lemma slice_Contains_iff [order_simps]:
  "wf_slice s \<Longrightarrow> wf_key k \<Longrightarrow> slice_Contains s k \<longleftrightarrow> k_data k \<in> slice_keys s"
  by (auto simp: slice_Contains_def slice_keys_def order_simps)

lemma slice_keys_subset_iff:
  assumes "wf_slice s" and "wf_slice t"
  shows "slice_keys t \<subseteq> slice_keys s \<longleftrightarrow> low_bytes s \<le> low_bytes t \<and> high_end t \<le> high_end s"
proof
  assume sub: "slice_keys t \<subseteq> slice_keys s"
  then have low: "low_bytes s \<le> low_bytes t"
    using low_in_slice [OF assms(2)] by (auto simp: slice_keys_def)
  have "high_end t \<le> high_end s"
  proof (rule ccontr)
    assume "\<not> high_end t \<le> high_end s"
    then have less: "high_end s < high_end t" by simp
    then obtain h where h: "high_end s = Fin h"
      by (cases "high_end s") auto
    let ?b = "max (low_bytes t) h"
    have "?b \<in> slice_keys t"
      using less h assms(2) by (auto simp: slice_keys_def max_def)
    with sub have "?b \<in> slice_keys s" ..
    then have "?b < h"
      using h by (simp add: slice_keys_def)
    then show False by simp
  qed
  with low show "low_bytes s \<le> low_bytes t \<and> high_end t \<le> high_end s" ..
next
  assume "low_bytes s \<le> low_bytes t \<and> high_end t \<le> high_end s"
  then show "slice_keys t \<subseteq> slice_keys s"
    by (auto simp: slice_keys_def)
qed

lemma slice_ContainsSlice_iff:
  "wf_slice s \<Longrightarrow> wf_slice t \<Longrightarrow> slice_ContainsSlice s t \<longleftrightarrow> slice_keys t \<subseteq> slice_keys s"
  by (auto simp: slice_keys_subset_iff slice_ContainsSlice_def order_simps)

lemma slice_Equal_iff:
  assumes "wf_slice s" and "wf_slice t"
  shows "slice_Equal s t \<longleftrightarrow> slice_keys s = slice_keys t"
proof -
  have "slice_Equal s t \<longleftrightarrow> low_bytes s = low_bytes t \<and> high_end s = high_end t"
    using assms by (auto simp: slice_Equal_def order_simps)
  also have "\<dots> \<longleftrightarrow> slice_keys s = slice_keys t"
    using slice_keys_subset_iff [OF assms] slice_keys_subset_iff [OF assms(2,1)] by auto
  finally show ?thesis .
qed

definition meet_low :: "slice \<Rightarrow> slice \<Rightarrow> slice_key" where
  "meet_low s t = (if low_bytes s < low_bytes t then LowInclusive t else LowInclusive s)"

definition meet_high :: "slice \<Rightarrow> slice \<Rightarrow> high_slice_key" where
  "meet_high s t = (if high_end t < high_end s then HighExclusive t else HighExclusive s)"

lemma meet_simps:
  "k_data (meet_low s t) = max (low_bytes s) (low_bytes t)"
  "high_point (meet_high s t) = min (high_end s) (high_end t)"
  by (auto simp: meet_low_def meet_high_def max_def min_def)

lemma meet_wf:
  "wf_slice s \<Longrightarrow> wf_slice t \<Longrightarrow> wf_key (meet_low s t) \<and> wf_high (meet_high s t)"
  by (auto simp: meet_low_def meet_high_def)

lemma slice_Intersection_eq:
  assumes "wf_slice s" and "wf_slice t"
  shows "slice_Intersection s t =
    (if Fin (max (low_bytes s) (low_bytes t)) < min (high_end s) (high_end t)
     then Inr (Some \<lparr>LowInclusive = meet_low s t, HighExclusive = meet_high s t\<rparr>)
     else Inr None)"
proof -
  have low: "(if key_Compare (LowInclusive t) (LowInclusive s) > 0
      then LowInclusive t else LowInclusive s) = meet_low s t"
    using assms by (simp add: meet_low_def order_simps)
  have high: "(if high_CompareWithHigh (HighExclusive t) (HighExclusive s) < 0
      then HighExclusive t else HighExclusive s) = meet_high s t"
    using assms by (simp add: meet_high_def order_simps)
  show ?thesis
    using meet_wf [OF assms]
    by (simp add: slice_Intersection_def Let_def low high order_simps meet_simps MustNewSlice_def
        NewSlice_Inr not_less [symmetric] del: min_less_iff_conj)
qed

lemma slice_Intersection_keys:
  assumes "wf_slice s" and "wf_slice t"
  shows "(slice_Intersection s t = Inr None \<and> slice_keys s \<inter> slice_keys t = {})
    \<or> (\<exists>r. slice_Intersection s t = Inr (Some r) \<and> wf_slice r
         \<and> slice_keys r = slice_keys s \<inter> slice_keys t)"
proof (cases "Fin (max (low_bytes s) (low_bytes t)) < min (high_end s) (high_end t)")
  case True
  then show ?thesis
    using meet_wf [OF assms]
    by (auto simp: slice_Intersection_eq [OF assms] slice_keys_def meet_simps)
next
  case False
  have "False" if b: "b \<in> slice_keys s" "b \<in> slice_keys t" for b
  proof -
    have "max (low_bytes s) (low_bytes t) \<le> b" "Fin b < min (high_end s) (high_end t)"
      using b by (auto simp: slice_keys_def)
    then have "Fin (max (low_bytes s) (low_bytes t)) < min (high_end s) (high_end t)"
      using le_less_trans [of "Fin (max (low_bytes s) (low_bytes t))" "Fin b"] by simp
    with False show False ..
  qed
  then have "slice_keys s \<inter> slice_keys t = {}"
    by blast
  then show ?thesis
    using False by (simp only: slice_Intersection_eq [OF assms] if_False simp_thms)
qed

section \<open>Properties\<close>

text \<open>
  \<open>NewSlice\<close> accepts exactly the non-empty ranges, and the slice it returns contains exactly the
  keys from its lower bound up to, and not including, its upper bound.
\<close>

lemma NewSlice_Contains:
  "(case NewSlice (NewSliceKey l) (NewHighSliceKey (NewSliceKey h)) of
      Inr s \<Rightarrow> l < h \<and> (slice_Contains s (NewSliceKey k) \<longleftrightarrow> l \<le> k \<and> k < h)
    | Inl f \<Rightarrow> f = Error LowNotBelowHigh \<and> h \<le> l)
   \<and> (\<exists>s. NewSlice (NewSliceKey l) InfinityKey = Inr s \<and> (slice_Contains s (NewSliceKey k) \<longleftrightarrow> l \<le> k))"
  by (auto simp: NewSlice_def order_simps slice_keys_def split: sum.split)

text \<open>
  C31: The geometric operations are the set operations on the keys: \<open>ContainsSlice\<close> is inclusion,
  \<open>Equal\<close> is equality, \<open>Intersection\<close> is intersection and reports none exactly when the sets are
  disjoint, and it never panics.
\<close>

theorem slice_set_algebra:
  assumes "wf_slice s" and "wf_slice t"
  shows "(slice_ContainsSlice s t \<longleftrightarrow> slice_keys t \<subseteq> slice_keys s)
    \<and> (slice_Equal s t \<longleftrightarrow> slice_keys s = slice_keys t)
    \<and> (case slice_Intersection s t of
         Inr (Some r) \<Rightarrow> wf_slice r \<and> slice_keys r = slice_keys s \<inter> slice_keys t
       | Inr None \<Rightarrow> slice_keys s \<inter> slice_keys t = {}
       | Inl _ \<Rightarrow> False)"
  using slice_Intersection_keys [OF assms]
  by (auto simp: slice_ContainsSlice_iff slice_Equal_iff assms)

theorem slice_set_algebra_witness:
  "let s = \<lparr>LowInclusive = NewSliceKey [1], HighExclusive = NewHighSliceKey (NewSliceKey [9])\<rparr>;
       t = \<lparr>LowInclusive = NewSliceKey [9], HighExclusive = InfinityKey\<rparr>
   in slice_Intersection s t = Inr None \<and> slice_keys s \<inter> slice_keys t = {}"
proof -
  let ?s = "\<lparr>LowInclusive = NewSliceKey [1], HighExclusive = NewHighSliceKey (NewSliceKey [9])\<rparr>"
  let ?t = "\<lparr>LowInclusive = NewSliceKey [9], HighExclusive = InfinityKey\<rparr>"
  have wf: "wf_slice ?s" "wf_slice ?t"
    by simp_all
  have none: "slice_Intersection ?s ?t = Inr None"
    by (simp add: slice_Intersection_eq [OF wf])
  show ?thesis
    using slice_set_algebra [OF wf] none by (simp add: Let_def)
qed

end
