(* ===== verification/SliceMaps.thy ===== *)
theory SliceMaps
  imports Slices
begin

text \<open>
  \<open>SliceMap\<close> of \<open>pkg/friend/slicemap.go\<close>: the completeness check, the binary search of the standard
  library it relies on, and the key lookup. The interface \<open>HasSlice\<close> is the parameter \<open>get\<close> of every
  generic function: \<open>get e\<close> is \<open>e.GetSlice()\<close>.
\<close>

section \<open>sort.Search\<close>

text \<open>The loop of \<open>sort.Search\<close>: \<open>i, j := 0, n; for i < j { h := (i+j)>>1; ... }\<close>.\<close>

function search_loop :: "(nat \<Rightarrow> bool) \<Rightarrow> nat \<Rightarrow> nat \<Rightarrow> nat" where
  "search_loop f i j =
     (if i < j then
        let h = (i + j) div 2
        in if \<not> f h then search_loop f (h + 1) j else search_loop f i h
      else i)"
  by pat_completeness auto
termination
  by (relation "measure (\<lambda>(f, i, j). j - i)") auto

declare search_loop.simps [simp del]

definition sort_Search :: "nat \<Rightarrow> (nat \<Rightarrow> bool) \<Rightarrow> nat" where
  "sort_Search n f = search_loop f 0 n"

lemma search_loop_correct:
  "(\<And>a b. f a \<Longrightarrow> a \<le> b \<Longrightarrow> b < n \<Longrightarrow> f b) \<Longrightarrow> i \<le> j \<Longrightarrow> j \<le> n \<Longrightarrow> (\<And>k. k < i \<Longrightarrow> \<not> f k) \<Longrightarrow> (\<And>k. j \<le> k \<Longrightarrow> k < n \<Longrightarrow> f k) \<Longrightarrow>
    search_loop f i j \<le> n \<and> (\<forall>k < search_loop f i j. \<not> f k)
    \<and> (search_loop f i j < n \<longrightarrow> f (search_loop f i j))"
proof (induction f i j rule: search_loop.induct)
  case (1 f i j)
  note simps = search_loop.simps [of f i j]
  show ?case
  proof (cases "i < j")
    case False
    then have "search_loop f i j = i" by (simp add: simps)
    with False "1.prems" show ?thesis by auto
  next
    case True
    define h where "h = (i + j) div 2"
    have h: "i \<le> h" "h < j" using True by (auto simp: h_def)
    show ?thesis
    proof (cases "f h")
      case True
      then have eq: "search_loop f i j = search_loop f i h"
        using \<open>i < j\<close> by (simp add: simps h_def)
      have "f k" if "h \<le> k" "k < n" for k
        using "1.prems"(1) True that by blast
      with "1.IH"(2) [OF \<open>i < j\<close> h_def] True h "1.prems" show ?thesis
        by (simp add: eq)
    next
      case False
      then have eq: "search_loop f i j = search_loop f (h + 1) j"
        using \<open>i < j\<close> by (simp add: simps h_def)
      have "\<not> f k" if "k < h + 1" for k
        using "1.prems"(1) [of k h] False that h "1.prems"(3) by auto
      with "1.IH"(1) [OF \<open>i < j\<close> h_def] False h "1.prems" show ?thesis
        by (simp add: eq)
    qed
  qed
qed

text \<open>
  The positions at which the loop evaluates its predicate. There are at most \<open>k\<close> of them in a range shorter
  than \<open>2 ^ k\<close>, the result is among them unless it is the end of the range, and the loop runs the same way for
  every predicate that agrees on them.
\<close>

function probed :: "(nat \<Rightarrow> bool) \<Rightarrow> nat \<Rightarrow> nat \<Rightarrow> nat set" where
  "probed f i j =
     (if i < j then
        let h = (i + j) div 2
        in insert h (if \<not> f h then probed f (h + 1) j else probed f i h)
      else {})"
  by pat_completeness auto
termination
  by (relation "measure (\<lambda>(f, i, j). j - i)") auto

declare probed.simps [simp del]

lemma probed_step:
  "i < j \<Longrightarrow> probed f i j =
     insert ((i + j) div 2)
       (if f ((i + j) div 2) then probed f i ((i + j) div 2) else probed f ((i + j) div 2 + 1) j)"
  "\<not> i < j \<Longrightarrow> probed f i j = {}"
  by (simp_all add: probed.simps [of f i j] Let_def)

lemma search_loop_step:
  "i < j \<Longrightarrow> search_loop f i j =
     (if f ((i + j) div 2) then search_loop f i ((i + j) div 2) else search_loop f ((i + j) div 2 + 1) j)"
  "\<not> i < j \<Longrightarrow> search_loop f i j = i"
  by (simp_all add: search_loop.simps [of f i j] Let_def)

lemma probed_log: "j - i < 2 ^ k \<Longrightarrow> finite (probed f i j) \<and> card (probed f i j) \<le> k"
proof (induction f i j arbitrary: k rule: probed.induct)
  case (1 f i j)
  show ?case
  proof (cases "i < j")
    case False
    then show ?thesis by (simp add: probed_step)
  next
    case True
    define h where "h = (i + j) div 2"
    define S where "S = (if f h then probed f i h else probed f (h + 1) j)"
    obtain k' where k: "k = Suc k'"
      using True "1.prems" by (cases k) auto
    have "j - (h + 1) < 2 ^ k'" "h - i < 2 ^ k'"
      using "1.prems" True by (auto simp: k h_def)
    with "1.IH" [OF True h_def] have "finite S \<and> card S \<le> k'"
      by (auto simp: S_def)
    moreover have "probed f i j = insert h S"
      using True by (simp add: probed_step S_def h_def)
    ultimately show ?thesis
      by (simp add: k card_insert_if)
  qed
qed

lemma probed_range: "probed f i j \<subseteq> {i..<j}"
proof (induction f i j rule: probed.induct)
  case (1 f i j)
  show ?case
  proof (cases "i < j")
    case True
    define h where "h = (i + j) div 2"
    have "i \<le> h" "h < j" using True by (auto simp: h_def)
    moreover have "probed f i j = insert h (if f h then probed f i h else probed f (h + 1) j)"
      using True by (simp add: probed_step h_def)
    ultimately show ?thesis
      using "1.IH" [OF True h_def] by (cases "f h") (simp, force)+
  qed (simp add: probed_step)
qed

lemma search_loop_le: "i \<le> j \<Longrightarrow> search_loop f i j \<le> j"
proof (induction f i j rule: search_loop.induct)
  case (1 f i j)
  show ?case
  proof (cases "i < j")
    case True
    define h where "h = (i + j) div 2"
    have "i \<le> h" "h < j" using True by (auto simp: h_def)
    moreover have "search_loop f i j = (if f h then search_loop f i h else search_loop f (h + 1) j)"
      using True by (simp add: search_loop_step h_def)
    ultimately show ?thesis
      using "1.IH" [OF True h_def] by (cases "f h") auto
  qed (use "1.prems" in \<open>simp add: search_loop_step\<close>)
qed

lemma search_loop_probed: "search_loop f i j < j \<Longrightarrow> search_loop f i j \<in> probed f i j"
proof (induction f i j rule: search_loop.induct)
  case (1 f i j)
  show ?case
  proof (cases "i < j")
    case True
    define h where "h = (i + j) div 2"
    have "search_loop f i h \<le> h" using True by (intro search_loop_le) (simp add: h_def)
    moreover have "search_loop f i j = (if f h then search_loop f i h else search_loop f (h + 1) j)"
        "probed f i j = insert h (if f h then probed f i h else probed f (h + 1) j)"
      using True by (simp_all add: search_loop_step probed_step h_def)
    ultimately show ?thesis
      using "1.IH" [OF True h_def] "1.prems" by (cases "f h") (auto simp: le_less)
  qed (use "1.prems" in \<open>simp add: search_loop_step\<close>)
qed

lemma search_loop_agree: "\<forall>x \<in> probed f i j. f x = g x \<Longrightarrow> search_loop g i j = search_loop f i j"
proof (induction f i j rule: search_loop.induct)
  case (1 f i j)
  show ?case
  proof (cases "i < j")
    case True
    define h where "h = (i + j) div 2"
    have eqs: "search_loop f i j = (if f h then search_loop f i h else search_loop f (h + 1) j)"
        "search_loop g i j = (if g h then search_loop g i h else search_loop g (h + 1) j)"
        "probed f i j = insert h (if f h then probed f i h else probed f (h + 1) j)"
      using True by (simp_all add: search_loop_step probed_step h_def)
    have "g h = f h" using "1.prems" eqs(3) by simp
    moreover have "search_loop g i h = search_loop f i h" if "f h"
      using "1.IH"(2) [OF True h_def] "1.prems" that unfolding eqs(3) by simp
    moreover have "search_loop g (h + 1) j = search_loop f (h + 1) j" if "\<not> f h"
      using "1.IH"(1) [OF True h_def] "1.prems" that unfolding eqs(3) by simp
    ultimately show ?thesis unfolding eqs by simp
  qed (simp add: search_loop_step)
qed

section \<open>Slice maps\<close>

text \<open>
  \<open>HasSlice\<close> has the one method \<open>GetSlice\<close>; a type with this method is represented by the method. The
  plainest such type wraps a slice.
\<close>

type_synonym 'e has_slice = "'e \<Rightarrow> slice"

record slice_entry =
  se_Slice :: slice

definition se_GetSlice :: "slice_entry has_slice" where
  "se_GetSlice e = se_Slice e"

record 'e slice_map =
  entries :: "'e list"

text \<open>The loop of \<open>ValidateCompleteSlices\<close> from index 1 on, with the final check after it.\<close>

fun validate_rest :: "'e has_slice \<Rightarrow> slice \<Rightarrow> 'e list \<Rightarrow> unit result" where
  "validate_rest get prevSlice [] =
     (if \<not> high_IsInfinity (HighExclusive prevSlice) then Inl (Error LastNotAtInfinity) else Inr ())"
| "validate_rest get prevSlice (e # es) =
     (let curSlice = get e
      in case high_Key (HighExclusive prevSlice) of
           None \<Rightarrow> Inl (Error InfinityBeforeLast)
         | Some prevHighKey \<Rightarrow>
             (let boundaryCmp = key_Compare prevHighKey (LowInclusive curSlice)
              in if boundaryCmp < 0 then Inl (Error GapBetweenEntries)
                 else if boundaryCmp > 0 then Inl (Error OverlapBetweenEntries)
                 else validate_rest get curSlice es))"

fun ValidateCompleteSlices :: "'e has_slice \<Rightarrow> 'e list \<Rightarrow> unit result" where
  "ValidateCompleteSlices get [] = Inl (Error EntriesEmpty)"
| "ValidateCompleteSlices get (e # es) =
     (let firstSlice = get e
      in if \<not> key_Equal (LowInclusive firstSlice) MinSliceKey then Inl (Error FirstNotAtMin)
         else validate_rest get firstSlice es)"

definition NewSliceMap :: "'e has_slice \<Rightarrow> 'e list \<Rightarrow> 'e slice_map result" where
  "NewSliceMap get es = and_then (ValidateCompleteSlices get es) (\<lambda>_. Inr \<lparr>entries = es\<rparr>)"

definition MustNewSliceMap :: "'e has_slice \<Rightarrow> 'e list \<Rightarrow> 'e slice_map result" where
  "MustNewSliceMap get es = must (NewSliceMap get es)"

definition sm_Entries :: "'e slice_map \<Rightarrow> 'e list" where
  "sm_Entries sm = entries sm"

definition sm_Size :: "'e slice_map \<Rightarrow> nat" where
  "sm_Size sm = length (entries sm)"

definition FindIndexInOrderedDisjointEntries :: "'e has_slice \<Rightarrow> 'e list \<Rightarrow> slice_key \<Rightarrow> int" where
  "FindIndexInOrderedDisjointEntries get es key =
     (let n = length es
      in if n = 0 then -1
         else let idx = sort_Search n
                (\<lambda>i. high_CompareWithKey (HighExclusive (get (es ! i))) key > 0)
              in if idx < n \<and> key_Compare (LowInclusive (get (es ! idx))) key \<le> 0 then int idx
                 else -1)"

definition LookUp :: "'e has_slice \<Rightarrow> 'e slice_map \<Rightarrow> slice_key \<Rightarrow> 'e result" where
  "LookUp get sm key =
     (let index = FindIndexInOrderedDisjointEntries get (entries sm) key
      in if index < 0 then Inl (Panic KeyNotInSliceMap) else Inr (entries sm ! nat index))"

section \<open>Tilings of the key line\<close>

text \<open>
  \<open>tiles p ss\<close>: the slices \<open>ss\<close> follow each other without gap or overlap from the point \<open>p\<close> to
  infinity. \<open>ascending ss\<close> only asks that each slice ends where or before every later one starts.
\<close>

fun tiles :: "byte list bound \<Rightarrow> slice list \<Rightarrow> bool" where
  "tiles p [] \<longleftrightarrow> p = PInf"
| "tiles p (s # ss) \<longleftrightarrow> p = Fin (low_bytes s) \<and> tiles (high_end s) ss"

definition ascending :: "slice list \<Rightarrow> bool" where
  "ascending ss \<longleftrightarrow> sorted_wrt (\<lambda>s t. high_end s \<le> Fin (low_bytes t)) ss"

definition valid_map :: "('e \<Rightarrow> slice) \<Rightarrow> 'e slice_map \<Rightarrow> bool" where
  "valid_map get sm \<longleftrightarrow>
     (\<forall>e \<in> set (entries sm). wf_slice (get e)) \<and> tiles (Fin []) (map get (entries sm))"

lemma validate_rest_iff:
  "wf_slice s \<Longrightarrow> \<forall>e \<in> set es. wf_slice (get e) \<Longrightarrow>
     validate_rest get s es = Inr () \<longleftrightarrow> tiles (high_end s) (map get es)"
proof (induction es arbitrary: s)
  case Nil
  then show ?case by simp
next
  case (Cons e es)
  show ?case
  proof (cases "high_Key (HighExclusive s)")
    case None
    then have "high_end s = PInf" by simp
    with None show ?thesis by (simp add: Let_def del: high_Key_None_iff)
  next
    case (Some k)
    then have "wf_key k \<and> high_end s = Fin (k_data k)"
      using Cons.prems by (intro high_Key_SomeD) auto
    with Some Cons show ?thesis
      by (auto simp: Let_def order_simps)
  qed
qed

lemma ValidateCompleteSlices_tiles:
  "\<forall>e \<in> set es. wf_slice (get e) \<Longrightarrow>
     ValidateCompleteSlices get es = Inr () \<longleftrightarrow> tiles (Fin []) (map get es)"
  by (cases es) (auto simp: Let_def order_simps validate_rest_iff)

lemma ValidateCompleteSlices_no_panic: "\<not> panics (ValidateCompleteSlices get es)"
proof -
  have "\<not> panics (validate_rest get s es)" for s es
    by (induction get s es rule: validate_rest.induct)
      (auto simp: Let_def split: option.splits)
  then show ?thesis
    by (cases es) (auto simp: Let_def)
qed

lemma NewSliceMap_Inr_iff:
  "NewSliceMap get es = Inr sm \<longleftrightarrow> ValidateCompleteSlices get es = Inr () \<and> sm = \<lparr>entries = es\<rparr>"
  by (auto simp: NewSliceMap_def and_then_Inr_iff)

lemma NewSliceMap_valid:
  "\<forall>e \<in> set es. wf_slice (get e) \<Longrightarrow> tiles (Fin []) (map get es) \<Longrightarrow>
     NewSliceMap get es = Inr \<lparr>entries = es\<rparr> \<and> valid_map get \<lparr>entries = es\<rparr>"
  by (auto simp: NewSliceMap_Inr_iff ValidateCompleteSlices_tiles valid_map_def)

lemma NewSliceMap_InrD:
  "NewSliceMap get es = Inr sm \<Longrightarrow> \<forall>e \<in> set es. wf_slice (get e) \<Longrightarrow>
     valid_map get sm \<and> entries sm = es"
  by (auto simp: NewSliceMap_Inr_iff ValidateCompleteSlices_tiles valid_map_def)

lemma MustNewSliceMap_valid:
  "\<forall>e \<in> set es. wf_slice (get e) \<Longrightarrow> tiles (Fin []) (map get es) \<Longrightarrow>
     MustNewSliceMap get es = Inr \<lparr>entries = es\<rparr> \<and> valid_map get \<lparr>entries = es\<rparr>"
  by (simp add: MustNewSliceMap_def NewSliceMap_valid)

lemma tiles_above:
  "tiles p ss \<Longrightarrow> \<forall>s \<in> set ss. wf_slice s \<Longrightarrow> s \<in> set ss \<Longrightarrow> p \<le> Fin (low_bytes s)"
proof (induction p ss rule: tiles.induct)
  case (2 p t ts)
  show ?case
  proof (cases "s \<in> set ts")
    case True
    have "p < high_end t"
      using "2.prems" by simp
    also have "high_end t \<le> Fin (low_bytes s)"
      using "2.prems" True by (intro "2.IH") auto
    finally show ?thesis by simp
  qed (use "2.prems" in auto)
qed simp

lemma tiles_ascending: "tiles p ss \<Longrightarrow> \<forall>s \<in> set ss. wf_slice s \<Longrightarrow> ascending ss"
  by (induction p ss rule: tiles.induct) (auto simp: ascending_def intro: tiles_above)

lemma tiles_cover:
  "tiles p ss \<Longrightarrow> \<forall>s \<in> set ss. wf_slice s \<Longrightarrow> p \<le> Fin b \<Longrightarrow> \<exists>s \<in> set ss. b \<in> slice_keys s"
proof (induction p ss rule: tiles.induct)
  case (2 p t ts)
  then show ?case
    by (cases "Fin b < high_end t") (auto simp: slice_keys_def not_less)
qed simp

lemma ascending_disjoint:
  assumes "ascending ss" and "i < j" and "j < length ss"
  shows "slice_keys (ss ! i) \<inter> slice_keys (ss ! j) = {}"
proof -
  have "high_end (ss ! i) \<le> Fin (low_bytes (ss ! j))"
    using assms by (simp add: ascending_def sorted_wrt_iff_nth_less)
  then show ?thesis
    by (cases "high_end (ss ! i)") (auto simp: slice_keys_def)
qed

lemma valid_mapD:
  assumes "valid_map get sm"
  shows "\<forall>e \<in> set (entries sm). wf_slice (get e)"
    and "tiles (Fin []) (map get (entries sm))"
    and "ascending (map get (entries sm))"
  using assms tiles_ascending [of "Fin []" "map get (entries sm)"] by (auto simp: valid_map_def)

section \<open>Lookup\<close>

lemma ascending_high_mono:
  assumes "ascending ss" and "\<forall>s \<in> set ss. wf_slice s" and "i \<le> j" and "j < length ss"
  shows "high_end (ss ! i) \<le> high_end (ss ! j)"
proof (cases "i = j")
  case False
  then have "high_end (ss ! i) \<le> Fin (low_bytes (ss ! j))"
    using assms by (simp add: ascending_def sorted_wrt_iff_nth_less)
  also have "\<dots> < high_end (ss ! j)"
    using assms by simp
  finally show ?thesis by simp
qed simp

text \<open>
  On ordered disjoint entries the binary search returns the index of the slice holding the key,
  and -1 when no slice does.
\<close>

lemma FindIndex_correct:
  assumes asc: "ascending (map get es)" and wf: "\<forall>e \<in> set es. wf_slice (get e)" and key: "wf_key key"
  shows "(\<exists>i < length es. FindIndexInOrderedDisjointEntries get es key = int i
            \<and> k_data key \<in> slice_keys (get (es ! i)))
    \<or> (FindIndexInOrderedDisjointEntries get es key = -1
        \<and> (\<forall>e \<in> set es. k_data key \<notin> slice_keys (get e)))"
proof -
  define f where "f i = (high_CompareWithKey (HighExclusive (get (es ! i))) key > 0)" for i
  define g where "g i = get (es ! i)" for i
  define r where "r = sort_Search (length es) f"
  let ?n = "length es" and ?b = "k_data key"
  have f_iff: "f i \<longleftrightarrow> Fin ?b < high_end (g i)" if "i < ?n" for i
    using that wf key by (simp add: f_def g_def order_simps)
  have mono: "f b" if "f a" "a \<le> b" "b < ?n" for a b
  proof -
    have "high_end (g a) \<le> high_end (g b)"
      using ascending_high_mono [OF asc, of a b] wf that by (simp add: g_def)
    with that show ?thesis by (auto simp: f_iff intro: less_le_trans)
  qed
  have r: "r \<le> ?n" "\<forall>k < r. \<not> f k" "r < ?n \<longrightarrow> f r"
    using search_loop_correct [of f ?n 0 ?n] mono by (simp_all add: r_def sort_Search_def)
  have find: "FindIndexInOrderedDisjointEntries get es key =
      (if r < ?n \<and> key_Compare (LowInclusive (g r)) key \<le> 0 then int r else -1)"
    using r by (simp add: FindIndexInOrderedDisjointEntries_def Let_def r_def f_def [abs_def] g_def)
  have before: "?b \<notin> slice_keys (g i)" if "i < r" for i
    using that r f_iff [of i] by (auto simp: slice_keys_def)
  have after: "?b \<notin> slice_keys (g i)" if "r < ?n" "\<not> low_bytes (g r) \<le> ?b" "r \<le> i" "i < ?n" for i
  proof -
    have "Fin (low_bytes (g r)) \<le> Fin (low_bytes (g i))"
    proof (cases "i = r")
      case False
      then have "high_end (g r) \<le> Fin (low_bytes (g i))"
        using asc that by (simp add: ascending_def sorted_wrt_iff_nth_less g_def)
      moreover have "Fin (low_bytes (g r)) < high_end (g r)"
        using wf that by (simp add: g_def)
      ultimately show ?thesis by (meson less_imp_le order_trans)
    qed simp
    with that show ?thesis by (auto simp: slice_keys_def)
  qed
  have cmp: "r < ?n \<Longrightarrow> key_Compare (LowInclusive (g r)) key \<le> 0 \<longleftrightarrow> low_bytes (g r) \<le> ?b"
    using wf key by (simp add: g_def order_simps)
  show ?thesis
  proof (cases "r < ?n \<and> low_bytes (g r) \<le> ?b")
    case True
    with r f_iff [of r] find cmp show ?thesis
      by (intro disjI1 exI [of _ r]) (auto simp: slice_keys_def g_def)
  next
    case False
    then have "?b \<notin> slice_keys (g i)" if "i < ?n" for i
      using before [of i] after [of i] that r(1) by (cases "i < r") auto
    with False find cmp show ?thesis
      by (auto simp: in_set_conv_nth g_def)
  qed
qed

text \<open>What the search returns depends on few of the entries, ordered or not.\<close>

lemma FindIndex_depends_on_log:
  assumes "length es < 2 ^ m"
  shows "\<exists>S \<subseteq> {..<length es}. card S \<le> m
    \<and> (\<forall>es'. length es' = length es \<and> (\<forall>i \<in> S. es' ! i = es ! i) \<longrightarrow>
        FindIndexInOrderedDisjointEntries get es' key = FindIndexInOrderedDisjointEntries get es key)"
proof -
  define f where "f es i \<longleftrightarrow> high_CompareWithKey (HighExclusive (get (es ! i))) key > 0" for es i
  define S where "S = probed (f es) 0 (length es)"
  have find: "FindIndexInOrderedDisjointEntries get es key =
      (if search_loop (f es) 0 (length es) < length es
          \<and> key_Compare (LowInclusive (get (es ! search_loop (f es) 0 (length es)))) key \<le> 0
       then int (search_loop (f es) 0 (length es)) else -1)" for es
    by (simp add: FindIndexInOrderedDisjointEntries_def Let_def sort_Search_def f_def [abs_def])
  have "FindIndexInOrderedDisjointEntries get es' key = FindIndexInOrderedDisjointEntries get es key"
    if es': "length es' = length es" "\<forall>i \<in> S. es' ! i = es ! i" for es'
  proof -
    have "search_loop (f es') 0 (length es) = search_loop (f es) 0 (length es)"
      using es'(2) by (intro search_loop_agree) (simp add: S_def f_def)
    then show ?thesis
      using es' search_loop_probed [of "f es" 0 "length es"] by (auto simp: find S_def)
  qed
  moreover have "S \<subseteq> {..<length es}" "card S \<le> m"
    using probed_range [of "f es" 0 "length es"] probed_log [of "length es" 0 m "f es"] assms
    by (auto simp: S_def lessThan_atLeast0)
  ultimately show ?thesis by blast
qed

text \<open>
  What a complete slice map promises to its clients: every key belongs to exactly one entry, and
  the lookup finds it.
\<close>

locale key_directory =
  fixes look_up :: "'m \<Rightarrow> slice_key \<Rightarrow> 'e result"
    and slice_of :: "'e \<Rightarrow> slice"
    and members :: "'m \<Rightarrow> 'e list"
    and valid :: "'m \<Rightarrow> bool"
  assumes look_up_finds: "valid m \<Longrightarrow> wf_key k \<Longrightarrow>
      \<exists>e \<in> set (members m). look_up m k = Inr e \<and> k_data k \<in> slice_keys (slice_of e)"
    and members_disjoint: "valid m \<Longrightarrow> e \<in> set (members m) \<Longrightarrow> e' \<in> set (members m) \<Longrightarrow>
      b \<in> slice_keys (slice_of e) \<Longrightarrow> b \<in> slice_keys (slice_of e') \<Longrightarrow> e = e'"
begin

lemma look_up_no_panic: "valid m \<Longrightarrow> wf_key k \<Longrightarrow> succeeds (look_up m k)"
  using look_up_finds [of m k] by auto

lemma look_up_iff:
  "valid m \<Longrightarrow> wf_key k \<Longrightarrow>
     look_up m k = Inr e \<longleftrightarrow> e \<in> set (members m) \<and> k_data k \<in> slice_keys (slice_of e)"
  using look_up_finds [of m k] members_disjoint [of m] by auto

lemma look_up_ex1:
  "valid m \<Longrightarrow> wf_key k \<Longrightarrow> \<exists>!e. e \<in> set (members m) \<and> k_data k \<in> slice_keys (slice_of e)"
  using look_up_finds [of m k] members_disjoint [of m] by blast

lemma look_up_same_slice:
  "valid m \<Longrightarrow> wf_key k \<Longrightarrow> wf_key k' \<Longrightarrow> look_up m k = Inr e \<Longrightarrow>
     k_data k' \<in> slice_keys (slice_of e) \<Longrightarrow> look_up m k' = Inr e"
  by (simp add: look_up_iff)

end

interpretation slice_map_directory: key_directory "LookUp get" get entries "valid_map get"
  for get :: "'e \<Rightarrow> slice"
proof
  fix m :: "'e slice_map" and k :: slice_key
  assume m: "valid_map get m" and k: "wf_key k"
  have "\<exists>s \<in> set (map get (entries m)). k_data k \<in> slice_keys s"
    using valid_mapD [OF m] by (intro tiles_cover [of "Fin []"]) auto
  then have "\<exists>i < length (entries m). FindIndexInOrderedDisjointEntries get (entries m) k = int i
      \<and> k_data k \<in> slice_keys (get (entries m ! i))"
    using FindIndex_correct [OF valid_mapD(3) [OF m] valid_mapD(1) [OF m] k] by auto
  then show "\<exists>e \<in> set (entries m). LookUp get m k = Inr e \<and> k_data k \<in> slice_keys (get e)"
    by (force simp: LookUp_def)
next
  fix m :: "'e slice_map" and e e' b
  assume m: "valid_map get m" and e: "e \<in> set (entries m)" "e' \<in> set (entries m)"
    and b: "b \<in> slice_keys (get e)" "b \<in> slice_keys (get e')"
  obtain i j where ij: "i < length (entries m)" "e = entries m ! i"
      "j < length (entries m)" "e' = entries m ! j"
    using e by (auto simp: in_set_conv_nth)
  show "e = e'"
    using ascending_disjoint [OF valid_mapD(3) [OF m], of i j]
      ascending_disjoint [OF valid_mapD(3) [OF m], of j i] ij b
    by (cases i j rule: linorder_cases) auto
qed

section \<open>Completeness, read as a partition\<close>

lemma cover_rest:
  assumes wf: "wf_slice s" and above: "\<forall>t \<in> set ss. \<forall>a \<in> slice_keys s. \<forall>b \<in> slice_keys t. a < b"
    and cover: "(\<Union>t \<in> set (s # ss). slice_keys t) = {b. low_bytes s \<le> b}"
  shows "(\<Union>t \<in> set ss. slice_keys t) = {b. high_end s \<le> Fin b}"
proof (intro set_eqI iffI)
  fix b
  assume b: "b \<in> (\<Union>t \<in> set ss. slice_keys t)"
  then have "b \<notin> slice_keys s" using above by auto
  moreover have "low_bytes s \<le> b" using b cover by auto
  ultimately show "b \<in> {b. high_end s \<le> Fin b}"
    by (simp add: slice_keys_def not_less)
next
  fix b
  assume "b \<in> {b. high_end s \<le> Fin b}"
  then have b: "high_end s \<le> Fin b" by simp
  then have "Fin (low_bytes s) < Fin b"
    using wf by (intro less_le_trans [OF wf_sliceD(3) b]) simp
  then have "b \<in> (\<Union>t \<in> set (s # ss). slice_keys t)"
    unfolding cover by simp
  moreover have "b \<notin> slice_keys s"
    using b by (simp add: slice_keys_def not_less)
  ultimately show "b \<in> (\<Union>t \<in> set ss. slice_keys t)" by simp
qed

lemma ascending_cover_tiles:
  assumes "\<forall>s \<in> set ss. wf_slice s"
    and "sorted_wrt (\<lambda>s t. \<forall>a \<in> slice_keys s. \<forall>b \<in> slice_keys t. a < b) ss"
    and "(\<Union>s \<in> set ss. slice_keys s) = {b. p \<le> Fin b}"
  shows "tiles p ss"
  using assms
proof (induction ss arbitrary: p)
  case Nil
  then show ?case by (cases p) auto
next
  case (Cons s ss)
  have low_s: "low_bytes s \<in> slice_keys s"
    using Cons.prems(1) by (simp add: low_in_slice)
  then have "low_bytes s \<in> (\<Union>t \<in> set (s # ss). slice_keys t)"
    by simp
  then have ple: "p \<le> Fin (low_bytes s)"
    using Cons.prems(3) by blast
  then obtain lo where lo: "p = Fin lo" by (cases p) auto
  then have "lo \<in> (\<Union>t \<in> set (s # ss). slice_keys t)"
    using Cons.prems(3) by simp
  then obtain t where "t \<in> set (s # ss)" "lo \<in> slice_keys t" by blast
  then have "lo \<in> slice_keys s"
    using Cons.prems(2) low_s ple lo by (cases "t = s") fastforce+
  then have eq: "lo = low_bytes s"
    using ple lo by (auto simp: slice_keys_def)
  have "(\<Union>t \<in> set ss. slice_keys t) = {b. high_end s \<le> Fin b}"
    using Cons.prems by (intro cover_rest) (auto simp: lo eq)
  with Cons show ?case
    by (simp add: lo eq)
qed

lemma ascending_keys_less:
  assumes "ascending ss"
  shows "sorted_wrt (\<lambda>s t. \<forall>a \<in> slice_keys s. \<forall>b \<in> slice_keys t. a < b) ss"
proof -
  have "a < b" if "high_end s \<le> Fin (low_bytes t)" "a \<in> slice_keys s" "b \<in> slice_keys t" for a b s t
    using that by (cases "high_end s") (auto simp: slice_keys_def)
  then show ?thesis
    using assms by (auto simp: ascending_def elim: sorted_wrt_mono_rel [rotated])
qed

lemma tiles_iff_partition:
  assumes "\<forall>s \<in> set ss. wf_slice s"
  shows "tiles (Fin []) ss \<longleftrightarrow>
    sorted_wrt (\<lambda>s t. \<forall>a \<in> slice_keys s. \<forall>b \<in> slice_keys t. a < b) ss
    \<and> (\<Union>s \<in> set ss. slice_keys s) = UNIV"
proof
  assume "tiles (Fin []) ss"
  then show "sorted_wrt (\<lambda>s t. \<forall>a \<in> slice_keys s. \<forall>b \<in> slice_keys t. a < b) ss
    \<and> (\<Union>s \<in> set ss. slice_keys s) = UNIV"
    using assms tiles_cover [of "Fin []" ss]
    by (auto intro!: ascending_keys_less tiles_ascending)
next
  assume "sorted_wrt (\<lambda>s t. \<forall>a \<in> slice_keys s. \<forall>b \<in> slice_keys t. a < b) ss
    \<and> (\<Union>s \<in> set ss. slice_keys s) = UNIV"
  then show "tiles (Fin []) ss"
    using assms by (intro ascending_cover_tiles) auto
qed

section \<open>Properties\<close>

text \<open>
  C9: \<open>NewSliceMap\<close> accepts a list of entries exactly when their slices, in the order given, partition
  the whole key space (ordered, disjoint, complete); it then keeps the entries as they are, and on every
  input it fails with an error, never with a panic.
\<close>

theorem NewSliceMap_accepts_partitions:
  assumes "\<forall>e \<in> set es. wf_slice (get e)"
  shows "(succeeds (NewSliceMap get es) \<longleftrightarrow>
      sorted_wrt (\<lambda>e e'. \<forall>a \<in> slice_keys (get e). \<forall>b \<in> slice_keys (get e'). a < b) es
      \<and> (\<Union>e \<in> set es. slice_keys (get e)) = UNIV)
    \<and> (\<forall>sm. NewSliceMap get es = Inr sm \<longrightarrow> sm_Entries sm = es)
    \<and> \<not> panics (NewSliceMap get es)"
proof -
  have "succeeds (NewSliceMap get es) \<longleftrightarrow> tiles (Fin []) (map get es)"
    using ValidateCompleteSlices_tiles [OF assms]
    by (cases "ValidateCompleteSlices get es") (simp_all add: NewSliceMap_def)
  moreover have "tiles (Fin []) (map get es) \<longleftrightarrow>
      sorted_wrt (\<lambda>e e'. \<forall>a \<in> slice_keys (get e). \<forall>b \<in> slice_keys (get e'). a < b) es
      \<and> (\<Union>e \<in> set es. slice_keys (get e)) = UNIV"
    using tiles_iff_partition [of "map get es"] assms by (simp add: sorted_wrt_map)
  ultimately show ?thesis
    using ValidateCompleteSlices_no_panic [of get es]
    by (auto simp: sm_Entries_def NewSliceMap_def panics_and_then and_then_Inr_iff)
qed

definition two_slices :: "slice list" where
  "two_slices =
     [\<lparr>LowInclusive = MinSliceKey, HighExclusive = NewHighSliceKey (NewSliceKey [7])\<rparr>,
      \<lparr>LowInclusive = NewSliceKey [7], HighExclusive = InfinityKey\<rparr>]"

lemma two_slices_simps [simp]:
  "\<forall>s \<in> set two_slices. wf_slice s" "tiles (Fin []) two_slices" "s \<in> set two_slices \<Longrightarrow> wf_slice s"
  by (auto simp: two_slices_def)

theorem NewSliceMap_accepts_partitions_witness:
  "(\<Union>s \<in> set two_slices. slice_keys s) = UNIV
   \<and> succeeds (NewSliceMap (\<lambda>s. s) two_slices) \<and> \<not> succeeds (NewSliceMap (\<lambda>s. s) (rev two_slices))"
proof -
  have "NewSliceMap (\<lambda>s. s) two_slices = Inr \<lparr>entries = two_slices\<rparr>"
    using NewSliceMap_valid [of two_slices "\<lambda>s. s"] by simp
  moreover have "NewSliceMap (\<lambda>s. s) (rev two_slices) = Inl (Error FirstNotAtMin)"
    by (simp add: two_slices_def NewSliceMap_def order_simps)
  ultimately show ?thesis
    using NewSliceMap_accepts_partitions [of two_slices "\<lambda>s. s"] by simp
qed

text \<open>
  C10: In every map \<open>NewSliceMap\<close> accepts, \<open>LookUp\<close> is total: for each key it returns, without
  panicking, the one entry whose slice contains the key.
\<close>

theorem LookUp_total_unique:
  assumes "NewSliceMap get es = Inr sm" and "\<forall>e \<in> set es. wf_slice (get e)"
  shows "(\<exists>!e. e \<in> set es \<and> k \<in> slice_keys (get e))
    \<and> (\<exists>e \<in> set es. LookUp get sm (NewSliceKey k) = Inr e \<and> slice_Contains (get e) (NewSliceKey k))"
proof -
  have sm: "valid_map get sm" "entries sm = es"
    using NewSliceMap_InrD [OF assms] by simp_all
  show ?thesis
    using slice_map_directory.look_up_ex1 [OF sm(1), of "NewSliceKey k"] assms(2)
      slice_map_directory.look_up_finds [OF sm(1), of "NewSliceKey k"]
    by (auto simp: sm(2) slice_Contains_iff)
qed

definition two_entries :: "slice_entry list" where
  "two_entries = map (\<lambda>s. \<lparr>se_Slice = s\<rparr>) two_slices"

lemma two_entries_slices [simp]: "map se_GetSlice two_entries = two_slices"
  by (simp add: two_entries_def comp_def se_GetSlice_def)

theorem LookUp_total_unique_witness:
  "\<exists>!e. e \<in> set two_entries \<and> [7, 0] \<in> slice_keys (se_GetSlice e)"
proof -
  have "\<forall>e \<in> set two_entries. wf_slice (se_GetSlice e)"
    by (simp add: two_entries_def se_GetSlice_def)
  moreover from this have "NewSliceMap se_GetSlice two_entries = Inr \<lparr>entries = two_entries\<rparr>"
    using NewSliceMap_valid [of two_entries se_GetSlice] by simp
  ultimately show ?thesis
    using LookUp_total_unique [of se_GetSlice two_entries "\<lparr>entries = two_entries\<rparr>" "[7, 0]"] by simp
qed

text \<open>
  C30: The binary search of \<open>FindIndexInOrderedDisjointEntries\<close> agrees with a linear scan on every list of
  ordered, disjoint slices, gaps included: it returns the position of the entry that contains the key,
  and -1 when no entry does. On fewer than \<open>2 ^ m\<close> entries its result rests on at most \<open>m\<close> of them: whatever
  stands in the other positions, it returns the same.
\<close>

theorem FindIndex_is_linear_scan:
  assumes "ascending (map get es)" and "\<forall>e \<in> set es. wf_slice (get e)"
  shows "FindIndexInOrderedDisjointEntries get es (NewSliceKey k) =
      (if \<exists>e \<in> set es. slice_Contains (get e) (NewSliceKey k)
       then int (length (takeWhile (\<lambda>e. \<not> slice_Contains (get e) (NewSliceKey k)) es)) else -1)
    \<and> (length es < 2 ^ m \<longrightarrow>
        (\<exists>S \<subseteq> {..<length es}. card S \<le> m
          \<and> (\<forall>es'. length es' = length es \<and> (\<forall>i \<in> S. es' ! i = es ! i) \<longrightarrow>
              FindIndexInOrderedDisjointEntries get es' (NewSliceKey k)
                = FindIndexInOrderedDisjointEntries get es (NewSliceKey k))))"
    (is "?scan \<and> _")
proof -
  have in_iff: "slice_Contains (get e) (NewSliceKey k) \<longleftrightarrow> k \<in> slice_keys (get e)" if "e \<in> set es" for e
    using assms(2) that by (simp add: slice_Contains_iff)
  consider (found) i where "i < length es"
      "FindIndexInOrderedDisjointEntries get es (NewSliceKey k) = int i" "k \<in> slice_keys (get (es ! i))"
    | (missing) "FindIndexInOrderedDisjointEntries get es (NewSliceKey k) = -1"
      "\<forall>e \<in> set es. k \<notin> slice_keys (get e)"
    using FindIndex_correct [OF assms, of "NewSliceKey k"] by auto
  then have ?scan
  proof cases
    case found
    have "\<not> slice_Contains (get (es ! j)) (NewSliceKey k)" if "j < i" for j
      using ascending_disjoint [OF assms(1) that] found(1,3) that in_iff [of "es ! j"] by auto
    then have "takeWhile (\<lambda>e. \<not> slice_Contains (get e) (NewSliceKey k)) es = take i es"
      using found(1,3) in_iff [of "es ! i"] by (intro takeWhile_eq_take_P_nth) auto
    then show ?thesis
      using found in_iff [of "es ! i"] by auto
  next
    case missing
    then show ?thesis using in_iff by auto
  qed
  then show ?thesis using FindIndex_depends_on_log by blast
qed

theorem FindIndex_is_linear_scan_witness:
  "FindIndexInOrderedDisjointEntries (\<lambda>s. s) [two_slices ! 1] (NewSliceKey [6]) = -1
   \<and> FindIndexInOrderedDisjointEntries (\<lambda>s. s) two_slices (NewSliceKey [8]) = 1
   \<and> (\<exists>S \<subseteq> {..<2}. card S \<le> 2
        \<and> (\<forall>es'. length es' = 2 \<and> (\<forall>i \<in> S. es' ! i = two_slices ! i) \<longrightarrow>
            FindIndexInOrderedDisjointEntries (\<lambda>s. s) es' (NewSliceKey [8]) = 1))"
proof -
  have asc: "ascending [two_slices ! 1]" "ascending two_slices" "\<forall>s \<in> set two_slices. wf_slice s"
      and len: "length two_slices = 2"
    by (simp_all add: ascending_def two_slices_def)
  have "FindIndexInOrderedDisjointEntries (\<lambda>s. s) [two_slices ! 1] (NewSliceKey [6]) = -1"
    using FindIndex_is_linear_scan [of "\<lambda>s. s" "[two_slices ! 1]" "[6]" 1] asc
    by (simp add: two_slices_def slice_Contains_iff slice_keys_def)
  moreover have found: "FindIndexInOrderedDisjointEntries (\<lambda>s. s) two_slices (NewSliceKey [8]) = 1"
    using FindIndex_is_linear_scan [of "\<lambda>s. s" "two_slices" "[8]" 2] asc
    by (simp add: two_slices_def slice_Contains_iff slice_keys_def)
  ultimately show ?thesis
    using FindIndex_is_linear_scan [of "\<lambda>s. s" "two_slices" "[8]" 2] asc by (simp add: found len)
qed

end
