(* ===== verification/SliceMapOps.thy ===== *)
theory SliceMapOps
  imports SliceMaps
begin

text \<open>
  The constructions on complete slice maps of \<open>pkg/friend/slicemap.go\<close>: intersection of two maps by a
  two-pointer scan, coalescing of adjacent equal entries, and completion of a partial list of
  entries with gaps. For each: it does not panic, its result is a complete map, and what a lookup in
  the result returns.
\<close>

section \<open>IntersectSlices\<close>

record ('a, 'b) intersection_entry =
  ie_Slice :: slice
  ie_LeftEntry :: 'a
  ie_RightEntry :: 'b

definition ie_GetSlice :: "('a, 'b) intersection_entry has_slice" where
  "ie_GetSlice ie = ie_Slice ie"

lemma ie_GetSlice_eq [simp]: "ie_GetSlice = ie_Slice"
  by (rule ext) (simp add: ie_GetSlice_def)

lemma key_Compare_refl [simp]: "key_Compare k k = 0"
  by (simp add: key_Compare_def bytes_Compare_eq)

lemma high_CompareWithHigh_refl [simp]: "high_CompareWithHigh h h = 0"
  by (simp add: high_CompareWithHigh_def)

lemma slice_Intersection_high:
  "slice_Intersection s t = Inr (Some r) \<Longrightarrow>
     HighExclusive r = HighExclusive s \<or> HighExclusive r = HighExclusive t"
  by (auto simp: slice_Intersection_def Let_def and_then_Inr_iff MustNewSlice_def
      split: if_splits dest!: NewSlice_InrD)

text \<open>
  The scan of \<open>IntersectSlices\<close>: the lists are \<open>leftEntries[leftIt:]\<close> and \<open>rightEntries[rightIt:]\<close>, and
  \<open>result\<close> is the slice appended to. A cursor advances when its upper bound is the intersection's.
\<close>

function intersect_loop ::
  "('a \<Rightarrow> slice) \<Rightarrow> ('b \<Rightarrow> slice) \<Rightarrow> 'a list \<Rightarrow> 'b list \<Rightarrow> ('a, 'b) intersection_entry list \<Rightarrow>
     ('a, 'b) intersection_entry list result" where
  "intersect_loop getL getR (leftEntry # ls) (rightEntry # rs) result =
     (let leftSlice = getL leftEntry; rightSlice = getR rightEntry
      in case slice_Intersection leftSlice rightSlice of
           Inl f \<Rightarrow> Inl f
         | Inr None \<Rightarrow> Inl (Panic SlicesDoNotIntersect)
         | Inr (Some intersection) \<Rightarrow>
             intersect_loop getL getR
               (if high_CompareWithHigh (HighExclusive leftSlice) (HighExclusive intersection) = 0
                then ls else leftEntry # ls)
               (if high_CompareWithHigh (HighExclusive rightSlice) (HighExclusive intersection) = 0
                then rs else rightEntry # rs)
               (result @ [\<lparr>ie_Slice = intersection, ie_LeftEntry = leftEntry,
                            ie_RightEntry = rightEntry\<rparr>]))"
| "intersect_loop getL getR [] rs result = Inr result"
| "intersect_loop getL getR (leftEntry # ls) [] result = Inr result"
  by pat_completeness auto
termination
  by (relation "measure (\<lambda>(getL, getR, ls, rs, result). length ls + length rs)")
    (auto dest!: slice_Intersection_high)

definition IntersectSlices ::
  "('a \<Rightarrow> slice) \<Rightarrow> ('b \<Rightarrow> slice) \<Rightarrow> 'a slice_map \<Rightarrow> 'b slice_map \<Rightarrow>
     ('a, 'b) intersection_entry slice_map result" where
  "IntersectSlices getL getR left right =
     and_then (intersect_loop getL getR (entries left) (entries right) [])
       (\<lambda>result. MustNewSliceMap ie_GetSlice result)"

text \<open>
  The state of the scan: both first slices contain the cursor \<open>c\<close>, one of them starts there, and
  the rest of either list continues its first slice to infinity; or both lists are exhausted.
\<close>

definition scan_state :: "('a \<Rightarrow> slice) \<Rightarrow> ('b \<Rightarrow> slice) \<Rightarrow> byte list bound \<Rightarrow> 'a list \<Rightarrow> 'b list \<Rightarrow> bool" where
  "scan_state getL getR c ls rs \<longleftrightarrow>
     (c = PInf \<and> ls = [] \<and> rs = [])
     \<or> (\<exists>l ls' r rs'. ls = l # ls' \<and> rs = r # rs'
          \<and> c = Fin (max (low_bytes (getL l)) (low_bytes (getR r)))
          \<and> c < high_end (getL l) \<and> c < high_end (getR r)
          \<and> tiles (high_end (getL l)) (map getL ls') \<and> tiles (high_end (getR r)) (map getR rs'))"

lemma tiles_head:
  assumes "tiles p (map get es)" and "p \<noteq> PInf"
  obtains e es' where "es = e # es'" "p = Fin (low_bytes (get e))"
    "tiles (high_end (get e)) (map get es')"
  using assms by (cases es) auto

lemma tiles_head_wf:
  assumes "tiles p (map get es)" and "p \<noteq> PInf" and "\<forall>e \<in> set es. wf_slice (get e)"
  obtains e es' where "es = e # es'" "p = Fin (low_bytes (get e))" "p < high_end (get e)"
    "tiles (high_end (get e)) (map get es')"
proof -
  obtain e es' where e: "es = e # es'" "p = Fin (low_bytes (get e))"
      "tiles (high_end (get e)) (map get es')"
    by (rule tiles_head [OF assms(1,2)])
  moreover have "p < high_end (get e)"
    unfolding e(2) using assms(3) e(1) by (intro wf_sliceD) simp
  ultimately show ?thesis by (intro that)
qed

lemma scan_stateI:
  "c = Fin (max (low_bytes (getL l)) (low_bytes (getR r))) \<Longrightarrow>
   c < high_end (getL l) \<Longrightarrow> c < high_end (getR r) \<Longrightarrow>
   tiles (high_end (getL l)) (map getL ls) \<Longrightarrow> tiles (high_end (getR r)) (map getR rs) \<Longrightarrow>
   scan_state getL getR c (l # ls) (r # rs)"
  by (simp add: scan_state_def)

lemma scan_state_commute: "scan_state getL getR c ls rs \<longleftrightarrow> scan_state getR getL c rs ls"
  unfolding scan_state_def by (metis max.commute)

text \<open>Both lists go on at the same point, or at infinity.\<close>

lemma scan_state_start:
  assumes "tiles c (map getL ls)" and "tiles c (map getR rs)"
    and "\<forall>l \<in> set ls. wf_slice (getL l)" and "\<forall>r \<in> set rs. wf_slice (getR r)"
  shows "scan_state getL getR c ls rs"
proof (cases "c = PInf")
  case True
  then have "ls = []" "rs = []"
    using assms tiles_above [of PInf "map getL ls"] tiles_above [of PInf "map getR rs"] by (cases ls; cases rs; simp)+
  then show ?thesis using True by (simp add: scan_state_def)
next
  case False
  obtain l ls' where l: "ls = l # ls'" "c = Fin (low_bytes (getL l))" "c < high_end (getL l)"
      "tiles (high_end (getL l)) (map getL ls')"
    by (rule tiles_head_wf [OF assms(1) False assms(3)])
  obtain r rs' where r: "rs = r # rs'" "c = Fin (low_bytes (getR r))" "c < high_end (getR r)"
      "tiles (high_end (getR r)) (map getR rs')"
    by (rule tiles_head_wf [OF assms(2) False assms(4)])
  show ?thesis
    unfolding l(1) r(1) by (rule scan_stateI) (use l(2-4) r(2-4) in simp_all)
qed

text \<open>The list whose slice ends first goes on alone.\<close>

lemma scan_advance:
  assumes "tiles (high_end (getL l)) (map getL ls)" and "tiles (high_end (getR r)) (map getR rs)"
    and "\<forall>e \<in> set ls. wf_slice (getL e)"
    and "high_end (getL l) < high_end (getR r)" and "Fin (low_bytes (getR r)) < high_end (getL l)"
  shows "scan_state getL getR (high_end (getL l)) ls (r # rs)"
proof -
  have "high_end (getL l) \<noteq> PInf" using assms(4) by auto
  then obtain e es' where e: "ls = e # es'" "high_end (getL l) = Fin (low_bytes (getL e))"
      "high_end (getL l) < high_end (getL e)" "tiles (high_end (getL e)) (map getL es')"
    by (rule tiles_head_wf [OF assms(1) _ assms(3)])
  have "low_bytes (getR r) \<le> low_bytes (getL e)"
    using assms(5) e(2) by simp
  then show ?thesis
    unfolding e(1) by (intro scan_stateI) (use e assms(2,4) in \<open>simp_all add: max_absorb1\<close>)
qed

text \<open>One round: the two first slices intersect from the cursor on, and the scan goes on behind.\<close>

lemma scan_step:
  assumes inv: "scan_state getL getR c (l # ls) (r # rs)"
    and wfl: "\<forall>e \<in> set (l # ls). wf_slice (getL e)" and wfr: "\<forall>e \<in> set (r # rs). wf_slice (getR e)"
  obtains x where "slice_Intersection (getL l) (getR r) = Inr (Some x)" "wf_slice x"
    "c = Fin (low_bytes x)" "slice_keys x = slice_keys (getL l) \<inter> slice_keys (getR r)"
    "scan_state getL getR (high_end x)
       (if high_CompareWithHigh (HighExclusive (getL l)) (HighExclusive x) = 0 then ls else l # ls)
       (if high_CompareWithHigh (HighExclusive (getR r)) (HighExclusive x) = 0 then rs else r # rs)"
proof -
  let ?L = "getL l" and ?R = "getR r"
  define x where "x = \<lparr>LowInclusive = meet_low ?L ?R, HighExclusive = meet_high ?L ?R\<rparr>"
  have c: "c = Fin (max (low_bytes ?L) (low_bytes ?R))" "c < high_end ?L" "c < high_end ?R"
    and tls: "tiles (high_end ?L) (map getL ls)" and trs: "tiles (high_end ?R) (map getR rs)"
    using inv by (auto simp: scan_state_def)
  have wf: "wf_slice ?L" "wf_slice ?R" using wfl wfr by auto
  have meets: "Fin (max (low_bytes ?L) (low_bytes ?R)) < min (high_end ?L) (high_end ?R)"
    using c by auto
  then have inter: "slice_Intersection ?L ?R = Inr (Some x)"
    by (simp only: slice_Intersection_eq [OF wf] if_True x_def)
  then have x: "wf_slice x" "slice_keys x = slice_keys ?L \<inter> slice_keys ?R"
    using slice_Intersection_keys [OF wf] by auto
  have ends: "high_end x = min (high_end ?L) (high_end ?R)" "c = Fin (low_bytes x)"
    by (simp_all add: x_def meet_simps c)
  have cmp: "high_CompareWithHigh (HighExclusive ?L) (HighExclusive x) = 0 \<longleftrightarrow> high_end ?L \<le> high_end ?R"
      "high_CompareWithHigh (HighExclusive ?R) (HighExclusive x) = 0 \<longleftrightarrow> high_end ?R \<le> high_end ?L"
    by (simp_all only: high_CompareWithHigh_eq wf_sliceD [OF wf(1)] wf_sliceD [OF wf(2)]
        wf_sliceD [OF x(1)] ends cmp3_simps eq_min_iff)
  have low: "Fin (low_bytes ?R) < high_end ?L" "Fin (low_bytes ?L) < high_end ?R"
    by (rule le_less_trans [OF _ c(2)], simp add: c(1)) (rule le_less_trans [OF _ c(3)], simp add: c(1))
  consider (eq) "high_end ?L = high_end ?R" | (left) "high_end ?L < high_end ?R"
    | (right) "high_end ?R < high_end ?L" by fastforce
  then have "scan_state getL getR (high_end x)
      (if high_end ?L \<le> high_end ?R then ls else l # ls) (if high_end ?R \<le> high_end ?L then rs else r # rs)"
  proof cases
    case eq
    then show ?thesis using scan_state_start [of "high_end ?R" getL ls getR rs] tls trs wfl wfr by (simp add: ends)
  next
    case left
    then have order: "high_end ?L \<le> high_end ?R" "\<not> high_end ?R \<le> high_end ?L" by simp_all
    have "scan_state getL getR (high_end ?L) ls (r # rs)"
      using scan_advance [OF tls trs _ left low(1)] wfl by simp
    then show ?thesis by (simp only: ends min_absorb1 order if_True if_False)
  next
    case right
    then have order: "high_end ?R \<le> high_end ?L" "\<not> high_end ?L \<le> high_end ?R" by simp_all
    have "scan_state getL getR (high_end ?R) (l # ls) rs"
      using scan_advance [OF trs tls _ right low(2)] wfr scan_state_commute [of getL getR] by simp
    then show ?thesis by (simp only: ends min_absorb2 order if_True if_False)
  qed
  then show ?thesis
    using that [OF inter x(1) ends(2) x(2)] by (simp only: cmp)
qed

definition pairs_up ::
  "('a \<Rightarrow> slice) \<Rightarrow> ('b \<Rightarrow> slice) \<Rightarrow> 'a set \<Rightarrow> 'b set \<Rightarrow> ('a, 'b) intersection_entry list \<Rightarrow> bool" where
  "pairs_up getL getR L R out \<longleftrightarrow>
     (\<forall>e \<in> set out. wf_slice (ie_Slice e) \<and> ie_LeftEntry e \<in> L \<and> ie_RightEntry e \<in> R
        \<and> slice_keys (ie_Slice e)
            = slice_keys (getL (ie_LeftEntry e)) \<inter> slice_keys (getR (ie_RightEntry e)))"

lemma pairs_up_mono:
  "pairs_up getL getR L R out \<Longrightarrow> L \<subseteq> L' \<Longrightarrow> R \<subseteq> R' \<Longrightarrow> pairs_up getL getR L' R' out"
  by (auto simp: pairs_up_def)

lemma intersect_loop_correct:
  "scan_state getL getR c ls rs \<Longrightarrow>
   \<forall>e \<in> set ls. wf_slice (getL e) \<Longrightarrow> \<forall>e \<in> set rs. wf_slice (getR e) \<Longrightarrow>
   \<exists>out. intersect_loop getL getR ls rs acc = Inr (acc @ out)
     \<and> tiles c (map ie_Slice out)
     \<and> length out + 1 \<le> max 1 (length ls + length rs)
     \<and> pairs_up getL getR (set ls) (set rs) out"
proof (induction getL getR ls rs acc arbitrary: c rule: intersect_loop.induct)
  case (1 getL getR l ls r rs acc)
  let ?hL = "HighExclusive (getL l)" and ?hR = "HighExclusive (getR r)"
  obtain x where x: "slice_Intersection (getL l) (getR r) = Inr (Some x)" "wf_slice x"
    "c = Fin (low_bytes x)" "slice_keys x = slice_keys (getL l) \<inter> slice_keys (getR r)"
    "scan_state getL getR (high_end x)
       (if high_CompareWithHigh ?hL (HighExclusive x) = 0 then ls else l # ls)
       (if high_CompareWithHigh ?hR (HighExclusive x) = 0 then rs else r # rs)"
    using scan_step [OF "1.prems"] by blast
  define ls2 where "ls2 = (if high_CompareWithHigh ?hL (HighExclusive x) = 0 then ls else l # ls)"
  define rs2 where "rs2 = (if high_CompareWithHigh ?hR (HighExclusive x) = 0 then rs else r # rs)"
  define e where "e = \<lparr>ie_Slice = x, ie_LeftEntry = l, ie_RightEntry = r\<rparr>"
  have sub: "set ls2 \<subseteq> set (l # ls)" "set rs2 \<subseteq> set (r # rs)"
    by (auto simp: ls2_def rs2_def)
  have wf2: "\<forall>e \<in> set ls2. wf_slice (getL e)" "\<forall>e \<in> set rs2. wf_slice (getR e)"
    using sub "1.prems"(2,3) by blast+
  have shorter: "length ls2 + length rs2 \<le> length ls + length rs + 1"
    using slice_Intersection_high [OF x(1)] by (auto simp: ls2_def rs2_def)
  obtain out where out: "intersect_loop getL getR ls2 rs2 (acc @ [e]) = Inr ((acc @ [e]) @ out)"
    "tiles (high_end x) (map ie_Slice out)" "length out + 1 \<le> max 1 (length ls2 + length rs2)"
    "pairs_up getL getR (set ls2) (set rs2) out"
    using "1.IH" [OF refl refl x(1) refl x(5), folded ls2_def rs2_def e_def, OF wf2] by blast
  have "intersect_loop getL getR (l # ls) (r # rs) acc = Inr (acc @ e # out)"
    using out(1) by (simp add: Let_def x(1) ls2_def rs2_def e_def)
  moreover have "tiles c (map ie_Slice (e # out))"
    using out(2) x(3) by (simp add: e_def)
  moreover have "length (e # out) + 1 \<le> max 1 (length (l # ls) + length (r # rs))"
    using out(3) shorter by auto
  moreover have "pairs_up getL getR (set (l # ls)) (set (r # rs)) (e # out)"
    using pairs_up_mono [OF out(4) sub] x(2,4) by (simp add: pairs_up_def e_def)
  ultimately show ?case by blast
qed (auto simp: scan_state_def pairs_up_def)

text \<open>
  The intersection of two complete maps: it never panics, it is complete, it has fewer than
  \<open>n + m\<close> entries, and a lookup in it is the pair of the lookups in the two maps.
\<close>

lemma IntersectSlices_correct:
  assumes l: "valid_map getL left" and r: "valid_map getR right"
  obtains sm where "IntersectSlices getL getR left right = Inr sm" "valid_map ie_Slice sm"
    "sm_Size sm + 1 \<le> sm_Size left + sm_Size right"
    "pairs_up getL getR (set (entries left)) (set (entries right)) (entries sm)"
proof -
  note wf = valid_mapD(1) [OF l] valid_mapD(1) [OF r]
  note til = valid_mapD(2) [OF l] valid_mapD(2) [OF r]
  obtain out where out: "intersect_loop getL getR (entries left) (entries right) [] = Inr out"
    "tiles (Fin []) (map ie_Slice out)"
    "length out + 1 \<le> max 1 (length (entries left) + length (entries right))"
    "pairs_up getL getR (set (entries left)) (set (entries right)) out"
    using intersect_loop_correct [OF scan_state_start [OF til wf] wf, of "[]"] by auto
  then have sm: "MustNewSliceMap ie_Slice out = Inr \<lparr>entries = out\<rparr>" "valid_map ie_Slice \<lparr>entries = out\<rparr>"
    using MustNewSliceMap_valid [of out ie_Slice] by (auto simp: pairs_up_def)
  have "entries left \<noteq> []" using til(1) by auto
  then have "sm_Size \<lparr>entries = out\<rparr> + 1 \<le> sm_Size left + sm_Size right"
    using out(3) by (cases "entries left") (auto simp: sm_Size_def)
  then show ?thesis
    using that [of "\<lparr>entries = out\<rparr>"] out sm by (simp add: IntersectSlices_def)
qed

lemma IntersectSlices_LookUp:
  assumes "valid_map getL left" and "valid_map getR right" and "wf_key k"
    and "IntersectSlices getL getR left right = Inr sm"
  shows "\<exists>e. LookUp ie_Slice sm k = Inr e \<and> LookUp getL left k = Inr (ie_LeftEntry e)
    \<and> LookUp getR right k = Inr (ie_RightEntry e)"
proof -
  have sm: "valid_map ie_Slice sm" "pairs_up getL getR (set (entries left)) (set (entries right)) (entries sm)"
    using IntersectSlices_correct [OF assms(1,2)] assms(4) by (metis sum.inject(2))+
  obtain e where e: "e \<in> set (entries sm)" "LookUp ie_Slice sm k = Inr e"
      "k_data k \<in> slice_keys (ie_Slice e)"
    using slice_map_directory.look_up_finds [OF sm(1) assms(3)] by auto
  with sm(2) assms(1-3) show ?thesis
    by (auto simp: slice_map_directory.look_up_iff pairs_up_def)
qed

section \<open>CoalesceSlices\<close>

text \<open>
  The loop of \<open>CoalesceSlices\<close> from index 1 on. The callbacks \<open>equalVal\<close> and \<open>withSlice\<close> are parameters,
  as they are in the code.
\<close>

fun coalesce_loop ::
  "('e \<Rightarrow> slice) \<Rightarrow> ('e \<Rightarrow> 'e \<Rightarrow> bool) \<Rightarrow> ('e \<Rightarrow> slice \<Rightarrow> 'e) \<Rightarrow> 'e \<Rightarrow> 'e list \<Rightarrow> 'e list \<Rightarrow> 'e list result"
where
  "coalesce_loop get equalVal withSlice currentEntry [] newEntries = Inr (newEntries @ [currentEntry])"
| "coalesce_loop get equalVal withSlice currentEntry (nextEntry # rest) newEntries =
     (if equalVal currentEntry nextEntry then
        and_then (MustNewSlice (LowInclusive (get currentEntry)) (HighExclusive (get nextEntry)))
          (\<lambda>combinedSlice.
             coalesce_loop get equalVal withSlice (withSlice currentEntry combinedSlice) rest newEntries)
      else coalesce_loop get equalVal withSlice nextEntry rest (newEntries @ [currentEntry]))"

definition CoalesceSlices ::
  "('e \<Rightarrow> slice) \<Rightarrow> 'e slice_map \<Rightarrow> ('e \<Rightarrow> 'e \<Rightarrow> bool) \<Rightarrow> ('e \<Rightarrow> slice \<Rightarrow> 'e) \<Rightarrow> 'e slice_map result"
where
  "CoalesceSlices get sliceMap equalVal withSlice =
     (case entries sliceMap of
        [] \<Rightarrow> Inr sliceMap
      | [e] \<Rightarrow> Inr sliceMap
      | currentEntry # rest \<Rightarrow>
          and_then (coalesce_loop get equalVal withSlice currentEntry rest [])
            (\<lambda>newEntries. MustNewSliceMap get newEntries))"

text \<open>
  What the callbacks have to satisfy: \<open>equalVal\<close> compares a value carried by the entries, and
  \<open>withSlice\<close> replaces the slice and keeps the value.
\<close>

definition coalescing ::
  "('e \<Rightarrow> slice) \<Rightarrow> ('e \<Rightarrow> 'e \<Rightarrow> bool) \<Rightarrow> ('e \<Rightarrow> slice \<Rightarrow> 'e) \<Rightarrow> ('e \<Rightarrow> 'v) \<Rightarrow> bool" where
  "coalescing get equalVal withSlice val \<longleftrightarrow>
     (\<forall>a b. equalVal a b \<longleftrightarrow> val a = val b)
     \<and> (\<forall>e s. get (withSlice e s) = s \<and> val (withSlice e s) = val e)"

text \<open>Every key of an entry of \<open>out\<close> is in an entry of \<open>es\<close> with the same value.\<close>

definition keeps_values :: "('e \<Rightarrow> slice) \<Rightarrow> ('e \<Rightarrow> 'v) \<Rightarrow> 'e list \<Rightarrow> 'e list \<Rightarrow> bool" where
  "keeps_values get val es out \<longleftrightarrow>
     (\<forall>e \<in> set out. \<forall>b \<in> slice_keys (get e). \<exists>e' \<in> set es. b \<in> slice_keys (get e') \<and> val e' = val e)"

lemma merged_slice:
  assumes "wf_slice s" and "wf_slice t" and "high_end s = Fin (low_bytes t)"
  obtains r where "MustNewSlice (LowInclusive s) (HighExclusive t) = Inr r" "wf_slice r"
    "low_bytes r = low_bytes s" "high_end r = high_end t"
    "slice_keys r = slice_keys s \<union> slice_keys t"
proof -
  let ?r = "\<lparr>LowInclusive = LowInclusive s, HighExclusive = HighExclusive t\<rparr>"
  have st: "low_bytes s < low_bytes t" "Fin (low_bytes t) < high_end t"
    using wf_sliceD(3) [OF assms(1)] assms(2,3) by simp_all
  then have less: "Fin (low_bytes s) < high_end t"
    by (meson bound_less_simps(1) less_trans)
  then have "MustNewSlice (LowInclusive s) (HighExclusive t) = Inr ?r" "wf_slice ?r"
    using assms(1,2) by (simp_all add: MustNewSlice_def NewSlice_Inr)
  moreover have "slice_keys ?r = slice_keys s \<union> slice_keys t"
  proof (intro set_eqI)
    fix b
    have "b < low_bytes t \<Longrightarrow> Fin b < high_end t"
      using st(2) by (meson bound_less_simps(1) less_trans)
    then show "b \<in> slice_keys ?r \<longleftrightarrow> b \<in> slice_keys s \<union> slice_keys t"
      using st(1) assms(3) by (auto simp: slice_keys_def)
  qed
  ultimately show ?thesis by (intro that [of ?r]) simp_all
qed

lemma coalesce_loop_correct:
  assumes "coalescing get equalVal withSlice val"
  shows "wf_slice (get cur) \<Longrightarrow> \<forall>e \<in> set rest. wf_slice (get e) \<Longrightarrow>
    tiles (high_end (get cur)) (map get rest) \<Longrightarrow>
    \<exists>out. coalesce_loop get equalVal withSlice cur rest acc = Inr (acc @ out)
      \<and> tiles (Fin (low_bytes (get cur))) (map get out) \<and> (\<forall>e \<in> set out. wf_slice (get e))
      \<and> out \<noteq> [] \<and> val (hd out) = val cur \<and> distinct_adj (map val out)
      \<and> keeps_values get val (cur # rest) out"
proof (induction rest arbitrary: cur acc)
  case Nil
  then show ?case by (auto simp: keeps_values_def)
next
  case (Cons e es)
  have eq: "equalVal a b \<longleftrightarrow> val a = val b"
    and get: "get (withSlice a s) = s" and val: "val (withSlice a s) = val a" for a b s
    using assms by (simp_all add: coalescing_def)
  have e: "high_end (get cur) = Fin (low_bytes (get e))" "tiles (high_end (get e)) (map get es)"
      "wf_slice (get e)" "\<forall>e \<in> set es. wf_slice (get e)"
    using Cons.prems by auto
  show ?case
  proof (cases "equalVal cur e")
    case True
    obtain r where r: "MustNewSlice (LowInclusive (get cur)) (HighExclusive (get e)) = Inr r"
        "wf_slice r" "low_bytes r = low_bytes (get cur)" "high_end r = high_end (get e)"
        "slice_keys r = slice_keys (get cur) \<union> slice_keys (get e)"
      by (rule merged_slice [OF Cons.prems(1) e(3,1)])
    obtain out where out: "coalesce_loop get equalVal withSlice (withSlice cur r) es acc = Inr (acc @ out)"
        "tiles (Fin (low_bytes (get cur))) (map get out)" "\<forall>e \<in> set out. wf_slice (get e)"
        "out \<noteq> []" "val (hd out) = val cur" "distinct_adj (map val out)"
        "keeps_values get val (withSlice cur r # es) out"
      using Cons.IH [of "withSlice cur r" acc] r e by (auto simp: get val)
    have "keeps_values get val (cur # e # es) out"
      using out(7) True r(5) by (fastforce simp: keeps_values_def get val eq)
    with out True r(1) show ?thesis by auto
  next
    case False
    obtain out where out: "coalesce_loop get equalVal withSlice e es (acc @ [cur]) = Inr (acc @ cur # out)"
        "tiles (Fin (low_bytes (get e))) (map get out)" "\<forall>e \<in> set out. wf_slice (get e)"
        "out \<noteq> []" "val (hd out) = val e" "distinct_adj (map val out)"
        "keeps_values get val (e # es) out"
      using Cons.IH [of e "acc @ [cur]"] e by auto
    have "distinct_adj (map val (cur # out))"
      using out(4-6) False by (cases out) (auto simp: eq)
    moreover have "keeps_values get val (cur # e # es) (cur # out)"
      using out(7) by (auto simp: keeps_values_def)
    ultimately show ?thesis
      using out(1-3) False Cons.prems(1) e(1) by (intro exI [of _ "cur # out"]) auto
  qed
qed

text \<open>
  Coalescing a complete map never panics and keeps it complete; a lookup returns an entry with the
  value it returned before; and no two neighbours of the result carry equal values.
\<close>

lemma CoalesceSlices_correct:
  assumes laws: "coalescing get equalVal withSlice val" and m: "valid_map get m"
  obtains sm where "CoalesceSlices get m equalVal withSlice = Inr sm" "valid_map get sm"
    "distinct_adj (map val (entries sm))" "keeps_values get val (entries m) (entries sm)"
proof (cases "length (entries m) \<le> 1")
  case True
  then have "entries m = [] \<or> (\<exists>e. entries m = [e])"
    by (cases "entries m") auto
  then show ?thesis
    using m by (intro that [of m]) (auto simp: CoalesceSlices_def keeps_values_def)
next
  case False
  then obtain e e' es where es: "entries m = e # e' # es"
    by (cases "entries m" rule: remdups_adj.cases) auto
  have m': "Fin (low_bytes (get e)) = Fin []" "tiles (high_end (get e)) (map get (e' # es))"
      "wf_slice (get e)" "\<forall>x \<in> set (e' # es). wf_slice (get x)"
    using m by (auto simp: valid_map_def es)
  obtain out where out: "coalesce_loop get equalVal withSlice e (e' # es) [] = Inr out"
      "tiles (Fin []) (map get out)" "\<forall>e \<in> set out. wf_slice (get e)"
      "distinct_adj (map val out)" "keeps_values get val (entries m) out"
    using coalesce_loop_correct [OF laws m'(3,4,2), of "[]"] m'(1) es by auto
  then show ?thesis
    using MustNewSliceMap_valid [OF out(3,2)]
    by (intro that [of "\<lparr>entries = out\<rparr>"])
      (simp_all add: CoalesceSlices_def es del: coalesce_loop.simps)
qed

lemma keeps_values_LookUp:
  assumes "keeps_values get val (entries m) (entries sm)" and "valid_map get m" and "valid_map get sm"
    and "wf_key k"
  shows "\<exists>e e'. LookUp get m k = Inr e \<and> LookUp get sm k = Inr e' \<and> val e' = val e"
proof -
  obtain e' where e': "e' \<in> set (entries sm)" "LookUp get sm k = Inr e'" "k_data k \<in> slice_keys (get e')"
    using slice_map_directory.look_up_finds [OF assms(3,4)] by blast
  then obtain e where "e \<in> set (entries m)" "k_data k \<in> slice_keys (get e)" "val e = val e'"
    using assms(1) by (auto simp: keeps_values_def)
  with assms(2,4) e'(2) show ?thesis
    by (auto simp: slice_map_directory.look_up_iff)
qed

section \<open>CreateFromOrderedDisjointEntries\<close>

text \<open>
  \<open>GapEntry\<close>: the pair of fields \<open>Value\<close> and \<open>IsValue\<close> is an option; a gap carries no value.
\<close>

record 'e gap_entry =
  ge_Slice :: slice
  ge_Value :: "'e option"

definition ge_GetSlice :: "'e gap_entry has_slice" where
  "ge_GetSlice ge = ge_Slice ge"

lemma ge_GetSlice_eq [simp]: "ge_GetSlice = ge_Slice"
  by (rule ext) (simp add: ge_GetSlice_def)

definition gap_IsValue :: "'e gap_entry \<Rightarrow> bool" where
  "gap_IsValue ge \<longleftrightarrow> ge_Value ge \<noteq> None"

text \<open>The gap before an entry, if the cursor is finite and lies below the entry.\<close>

definition gap_before :: "high_slice_key \<Rightarrow> slice \<Rightarrow> 'e gap_entry list result" where
  "gap_before cursor s =
     (case high_Key cursor of
        None \<Rightarrow> Inr []
      | Some cursorKey \<Rightarrow>
          if key_Compare (LowInclusive s) cursorKey > 0 then
            and_then (MustNewSlice cursorKey (NewHighSliceKey (LowInclusive s)))
              (\<lambda>gapSlice. Inr [\<lparr>ge_Slice = gapSlice, ge_Value = None\<rparr>])
          else Inr [])"

definition trailing_gap :: "high_slice_key \<Rightarrow> 'e gap_entry list result" where
  "trailing_gap cursor =
     (case high_Key cursor of
        None \<Rightarrow> Inr []
      | Some cursorKey \<Rightarrow>
          and_then (MustNewSlice cursorKey InfinityKey)
            (\<lambda>trailingGap. Inr [\<lparr>ge_Slice = trailingGap, ge_Value = None\<rparr>]))"

fun fill_gaps ::
  "('e \<Rightarrow> slice) \<Rightarrow> high_slice_key \<Rightarrow> 'e list \<Rightarrow> 'e gap_entry list \<Rightarrow> 'e gap_entry list result" where
  "fill_gaps get cursor [] result = and_then (trailing_gap cursor) (\<lambda>g. Inr (result @ g))"
| "fill_gaps get cursor (entry # es) result =
     (let s = get entry
      in and_then (gap_before cursor s) (\<lambda>g.
           fill_gaps get (HighExclusive s) es
             (result @ g @ [\<lparr>ge_Slice = s, ge_Value = Some entry\<rparr>])))"

definition CreateFromOrderedDisjointEntries ::
  "('e \<Rightarrow> slice) \<Rightarrow> 'e list \<Rightarrow> 'e gap_entry slice_map result" where
  "CreateFromOrderedDisjointEntries get es =
     and_then (fill_gaps get (NewHighSliceKey MinSliceKey) es [])
       (\<lambda>result. MustNewSliceMap ge_GetSlice result)"

lemma gap_before_correct:
  assumes "wf_high cursor" and "wf_slice s" and "high_point cursor \<le> Fin (low_bytes s)"
  obtains g where "gap_before cursor s = Inr g" "\<forall>e \<in> set g. ge_Value e = None \<and> wf_slice (ge_Slice e)"
    "\<And>ss. tiles (Fin (low_bytes s)) ss \<Longrightarrow> tiles (high_point cursor) (map ge_Slice g @ ss)"
    "\<forall>e \<in> set g. high_end (ge_Slice e) \<le> Fin (low_bytes s) \<and> high_point cursor \<le> Fin (low_bytes (ge_Slice e))"
proof -
  have "high_point cursor \<noteq> PInf"
    using assms(3) by auto
  then have "high_Key cursor \<noteq> None"
    by simp
  then obtain k where k: "high_Key cursor = Some k" "wf_key k" "high_point cursor = Fin (k_data k)"
    using high_Key_SomeD [OF _ assms(1)] by blast
  let ?g = "\<lparr>LowInclusive = k, HighExclusive = NewHighSliceKey (LowInclusive s)\<rparr>"
  show ?thesis
  proof (cases "k_data k < low_bytes s")
    case True
    then have "gap_before cursor s = Inr [\<lparr>ge_Slice = ?g, ge_Value = None\<rparr>]"
      using assms(2) k by (simp add: gap_before_def order_simps MustNewSlice_def NewSlice_Inr)
    then show ?thesis
      by (rule that) (use assms(2) k True in simp_all)
  next
    case False
    then have eq: "k_data k = low_bytes s"
      using assms(3) k by simp
    have "gap_before cursor s = Inr []"
      using assms(2) k by (simp add: gap_before_def order_simps eq)
    then show ?thesis
      by (rule that) (use k eq in simp_all)
  qed
qed

lemma trailing_gap_correct:
  assumes "wf_high cursor"
  obtains g where "trailing_gap cursor = Inr g" "\<forall>e \<in> set g. ge_Value e = None \<and> wf_slice (ge_Slice e)"
    "tiles (high_point cursor) (map ge_Slice g)"
    "\<forall>e \<in> set g. high_point cursor \<le> Fin (low_bytes (ge_Slice e))"
proof (cases "high_Key cursor")
  case None
  then have inf: "high_point cursor = PInf" by simp
  have "trailing_gap cursor = Inr []"
    using None by (simp add: trailing_gap_def del: high_Key_None_iff)
  then show ?thesis
    by (rule that) (simp_all add: inf)
next
  case (Some k)
  then have k: "wf_key k" "high_point cursor = Fin (k_data k)"
    using high_Key_SomeD [OF Some assms] by simp_all
  then have "trailing_gap cursor =
      Inr [\<lparr>ge_Slice = \<lparr>LowInclusive = k, HighExclusive = InfinityKey\<rparr>, ge_Value = None\<rparr>]"
    using Some by (simp add: trailing_gap_def MustNewSlice_def NewSlice_Inr)
  then show ?thesis
    by (rule that) (use k in simp_all)
qed

text \<open>The value entries of \<open>out\<close> are \<open>es\<close>, each with its slice; its gaps avoid all of \<open>es\<close>.\<close>

definition gap_filled :: "('e \<Rightarrow> slice) \<Rightarrow> 'e list \<Rightarrow> 'e gap_entry list \<Rightarrow> bool" where
  "gap_filled get es out \<longleftrightarrow>
     (\<forall>ge \<in> set out. wf_slice (ge_Slice ge)
        \<and> (case ge_Value ge of
             Some e \<Rightarrow> e \<in> set es \<and> ge_Slice ge = get e
           | None \<Rightarrow> \<forall>e \<in> set es. slice_keys (ge_Slice ge) \<inter> slice_keys (get e) = {}))"

text \<open>
  Filling an ascending list of entries from the cursor on; every entry it appends starts at or after
  the cursor.
\<close>

lemma slices_apart: "high_end s \<le> Fin (low_bytes t) \<Longrightarrow> slice_keys s \<inter> slice_keys t = {}"
  by (cases "high_end s") (auto simp: slice_keys_def)

lemma ascending_Cons:
  "ascending (s # ss) \<longleftrightarrow> (\<forall>t \<in> set ss. high_end s \<le> Fin (low_bytes t)) \<and> ascending ss"
  by (simp add: ascending_def)

text \<open>The gap in front of an entry, the entry, and what comes behind it.\<close>

lemma gap_filled_Cons:
  assumes wf: "wf_slice (get e)" and behind: "\<forall>t \<in> set es. high_end (get e) \<le> Fin (low_bytes (get t))"
    and g: "\<forall>x \<in> set g. ge_Value x = None \<and> wf_slice (ge_Slice x)"
      "\<forall>x \<in> set g. high_end (ge_Slice x) \<le> Fin (low_bytes (get e)) \<and> cursor \<le> Fin (low_bytes (ge_Slice x))"
    and out: "gap_filled get es out" "\<forall>ge \<in> set out. high_end (get e) \<le> Fin (low_bytes (ge_Slice ge))"
  shows "gap_filled get (e # es) (g @ \<lparr>ge_Slice = get e, ge_Value = Some e\<rparr> # out)"
proof -
  have "slice_keys (ge_Slice x) \<inter> slice_keys (get t) = {}" if "x \<in> set g" "t \<in> set (e # es)" for x t
  proof (rule slices_apart)
    have "Fin (low_bytes (get e)) \<le> high_end (get e)"
      using wf by (auto intro: less_imp_le)
    then have "Fin (low_bytes (get e)) \<le> Fin (low_bytes (get t))"
      using that(2) behind order_trans by fastforce
    then show "high_end (ge_Slice x) \<le> Fin (low_bytes (get t))"
      using g(2) that(1) order_trans by blast
  qed
  moreover have "slice_keys (get e) \<inter> slice_keys (ge_Slice x) = {}" if "x \<in> set out" for x
    using out(2) that by (intro slices_apart) blast
  ultimately show ?thesis
    using g(1) out(1) wf by (fastforce simp: gap_filled_def split: option.splits)
qed

lemma fill_gaps_correct:
  "\<forall>e \<in> set es. wf_slice (get e) \<and> high_point cursor \<le> Fin (low_bytes (get e)) \<Longrightarrow>
   ascending (map get es) \<Longrightarrow> wf_high cursor \<Longrightarrow>
   \<exists>out. fill_gaps get cursor es acc = Inr (acc @ out)
     \<and> tiles (high_point cursor) (map ge_Slice out) \<and> gap_filled get es out
     \<and> (\<forall>ge \<in> set out. high_point cursor \<le> Fin (low_bytes (ge_Slice ge)))"
proof (induction es arbitrary: cursor acc)
  case Nil
  obtain g :: "'a gap_entry list"
    where "trailing_gap cursor = Inr g" "\<forall>e \<in> set g. ge_Value e = None \<and> wf_slice (ge_Slice e)"
    "tiles (high_point cursor) (map ge_Slice g)"
    "\<forall>e \<in> set g. high_point cursor \<le> Fin (low_bytes (ge_Slice e))"
    by (rule trailing_gap_correct [OF Nil.prems(3)])
  then show ?case
    by (intro exI [of _ g]) (auto simp: gap_filled_def)
next
  case (Cons e es)
  let ?s = "get e"
  define ve where "ve = \<lparr>ge_Slice = ?s, ge_Value = Some e\<rparr>"
  have wf: "wf_slice ?s" and behind: "\<forall>t \<in> set es. high_end ?s \<le> Fin (low_bytes (get t))"
    using Cons.prems by (auto simp: ascending_Cons)
  obtain g :: "'a gap_entry list" where g: "gap_before cursor ?s = Inr g" "\<forall>x \<in> set g. ge_Value x = None \<and> wf_slice (ge_Slice x)"
    "\<And>ss. tiles (Fin (low_bytes ?s)) ss \<Longrightarrow> tiles (high_point cursor) (map ge_Slice g @ ss)"
    "\<forall>x \<in> set g. high_end (ge_Slice x) \<le> Fin (low_bytes ?s) \<and> high_point cursor \<le> Fin (low_bytes (ge_Slice x))"
    by (rule gap_before_correct [of cursor ?s]) (use Cons.prems in auto)
  obtain out where out: "fill_gaps get (HighExclusive ?s) es (acc @ g @ [ve]) = Inr ((acc @ g @ [ve]) @ out)"
    "tiles (high_end ?s) (map ge_Slice out)" "gap_filled get es out"
    "\<forall>ge \<in> set out. high_end ?s \<le> Fin (low_bytes (ge_Slice ge))"
    using Cons.IH [of "HighExclusive ?s" "acc @ g @ [ve]"] Cons.prems behind wf
    by (auto simp: ascending_Cons)
  have low: "Fin (low_bytes ?s) \<le> high_end ?s" "high_point cursor \<le> Fin (low_bytes ?s)"
    using wf Cons.prems by (auto intro: less_imp_le)
  have "fill_gaps get cursor (e # es) acc = Inr (acc @ (g @ ve # out))"
    using g(1) out(1) by (simp add: Let_def ve_def)
  moreover have "tiles (high_point cursor) (map ge_Slice (g @ ve # out))"
    using g(3) out(2) by (simp add: ve_def)
  moreover have "gap_filled get (e # es) (g @ ve # out)"
    unfolding ve_def using gap_filled_Cons [OF wf behind] g(2,4) out(3,4) by blast
  moreover have "\<forall>ge \<in> set (g @ ve # out). high_point cursor \<le> Fin (low_bytes (ge_Slice ge))"
    using g(4) out(4) low by (auto simp: ve_def intro: order_trans)
  ultimately show ?case by blast
qed

text \<open>Whatever the order of the entries, filling does not panic and keeps them in their order.\<close>

definition value_entries :: "'e gap_entry list \<Rightarrow> 'e gap_entry list" where
  "value_entries out = filter gap_IsValue out"

lemma value_entries_simps [simp]:
  "value_entries [] = []" "value_entries (xs @ ys) = value_entries xs @ value_entries ys"
  "value_entries (\<lparr>ge_Slice = s, ge_Value = Some e\<rparr> # ys) = \<lparr>ge_Slice = s, ge_Value = Some e\<rparr> # value_entries ys"
  "\<forall>x \<in> set g. ge_Value x = None \<Longrightarrow> value_entries g = []"
  by (simp_all add: value_entries_def gap_IsValue_def filter_empty_conv)

lemma gap_before_returns:
  assumes "wf_high cursor" and "wf_slice s"
  obtains g where "gap_before cursor s = Inr g" "\<forall>x \<in> set g. ge_Value x = None \<and> wf_slice (ge_Slice x)"
proof (cases "high_point cursor \<le> Fin (low_bytes s)")
  case True
  then show ?thesis using gap_before_correct [OF assms] that by metis
next
  case False
  then have "gap_before cursor s = Inr []"
    using assms by (auto simp: gap_before_def order_simps dest: high_Key_SomeD split: option.splits)
  then show ?thesis by (rule that) simp
qed

lemma fill_gaps_keeps:
  "\<forall>e \<in> set es. wf_slice (get e) \<Longrightarrow> wf_high cursor \<Longrightarrow>
   \<exists>out. fill_gaps get cursor es acc = Inr (acc @ out) \<and> (\<forall>x \<in> set out. wf_slice (ge_Slice x))
     \<and> value_entries out = map (\<lambda>e. \<lparr>ge_Slice = get e, ge_Value = Some e\<rparr>) es"
proof (induction es arbitrary: cursor acc)
  case Nil
  obtain g :: "'a gap_entry list" where "trailing_gap cursor = Inr g" "\<forall>x \<in> set g. ge_Value x = None \<and> wf_slice (ge_Slice x)"
    by (rule trailing_gap_correct [OF Nil.prems(2)])
  then show ?case by (intro exI [of _ g]) simp
next
  case (Cons e es)
  let ?ve = "\<lparr>ge_Slice = get e, ge_Value = Some e\<rparr>"
  obtain g :: "'a gap_entry list"
    where g: "gap_before cursor (get e) = Inr g" "\<forall>x \<in> set g. ge_Value x = None \<and> wf_slice (ge_Slice x)"
    using gap_before_returns [of cursor "get e"] Cons.prems by auto
  obtain out where out: "fill_gaps get (HighExclusive (get e)) es (acc @ g @ [?ve]) = Inr ((acc @ g @ [?ve]) @ out)"
      "\<forall>x \<in> set out. wf_slice (ge_Slice x)" "value_entries out = map (\<lambda>e. \<lparr>ge_Slice = get e, ge_Value = Some e\<rparr>) es"
    using Cons.IH [of "HighExclusive (get e)" "acc @ g @ [?ve]"] Cons.prems(1) by auto
  then show ?case
    using g Cons.prems(1) by (intro exI [of _ "g @ ?ve # out"]) (auto simp: Let_def)
qed

lemma CreateFromOrderedDisjointEntries_Inr:
  assumes "\<forall>e \<in> set es. wf_slice (get e)"
  shows "case CreateFromOrderedDisjointEntries get es of
      Inr sm \<Rightarrow> ascending (map get es) \<and> value_entries (entries sm) = map (\<lambda>e. \<lparr>ge_Slice = get e, ge_Value = Some e\<rparr>) es
    | Inl f \<Rightarrow> \<exists>e. f = Panic e"
proof -
  obtain out where out: "fill_gaps get (NewHighSliceKey MinSliceKey) es [] = Inr out"
      "\<forall>x \<in> set out. wf_slice (ge_Slice x)" "value_entries out = map (\<lambda>e. \<lparr>ge_Slice = get e, ge_Value = Some e\<rparr>) es"
    using fill_gaps_keeps [OF assms, of "NewHighSliceKey MinSliceKey" "[]"] by auto
  then have made: "CreateFromOrderedDisjointEntries get es = must (NewSliceMap ge_Slice out)"
    by (simp add: CreateFromOrderedDisjointEntries_def MustNewSliceMap_def)
  show ?thesis
  proof (cases "must (NewSliceMap ge_Slice out)")
    case (Inl f)
    then show ?thesis using made must_Inl_iff by auto
  next
    case (Inr sm)
    then have sm: "valid_map ge_Slice sm" "entries sm = out"
      using NewSliceMap_InrD [of ge_Slice out sm] out(2) by simp_all
    then have "ascending (map ge_Slice out)"
      using tiles_ascending [OF valid_mapD(2) [OF sm(1)]] valid_mapD(1) [OF sm(1)] by simp
    then have "ascending (map ge_Slice (value_entries out))"
      by (simp add: ascending_def sorted_wrt_map sorted_wrt_filter value_entries_def)
    then show ?thesis using out(3) made Inr sm(2) by (simp add: comp_def)
  qed
qed

text \<open>
  A partial list of ordered disjoint entries is completed: the result never panics, is a complete
  map, and a lookup returns the entry that holds the key, or a gap when no entry does.
\<close>

lemma CreateFromOrderedDisjointEntries_correct:
  assumes "\<forall>e \<in> set es. wf_slice (get e)" and "ascending (map get es)"
  obtains sm where "CreateFromOrderedDisjointEntries get es = Inr sm" "valid_map ge_Slice sm"
    "gap_filled get es (entries sm)"
proof -
  obtain out where out: "fill_gaps get (NewHighSliceKey MinSliceKey) es [] = Inr out"
    "tiles (Fin []) (map ge_Slice out)" "gap_filled get es out"
    using fill_gaps_correct [of es get "NewHighSliceKey MinSliceKey" "[]"] assms by auto
  then have "MustNewSliceMap ge_Slice out = Inr \<lparr>entries = out\<rparr>" "valid_map ge_Slice \<lparr>entries = out\<rparr>"
    using MustNewSliceMap_valid [of out ge_Slice] by (auto simp: gap_filled_def)
  with out show ?thesis
    by (intro that [of "\<lparr>entries = out\<rparr>"]) (simp_all add: CreateFromOrderedDisjointEntries_def)
qed

lemma gap_filled_LookUp:
  assumes "gap_filled get es (entries sm)" and "valid_map ge_Slice sm" and "wf_key k"
  shows "\<exists>ge. LookUp ge_Slice sm k = Inr ge \<and>
    (case ge_Value ge of
       Some e \<Rightarrow> e \<in> set es \<and> k_data k \<in> slice_keys (get e)
     | None \<Rightarrow> \<forall>e \<in> set es. k_data k \<notin> slice_keys (get e))"
proof -
  obtain ge where ge: "ge \<in> set (entries sm)" "LookUp ge_Slice sm k = Inr ge"
      "k_data k \<in> slice_keys (ge_Slice ge)"
    using slice_map_directory.look_up_finds [OF assms(2,3)] by blast
  show ?thesis
  proof (cases "ge_Value ge")
    case None
    then have "\<forall>e \<in> set es. slice_keys (ge_Slice ge) \<inter> slice_keys (get e) = {}"
      using assms(1) ge(1) by (fastforce simp: gap_filled_def)
    with None ge show ?thesis by auto
  next
    case (Some e)
    then have "e \<in> set es \<and> ge_Slice ge = get e"
      using assms(1) ge(1) by (fastforce simp: gap_filled_def)
    with Some ge show ?thesis by auto
  qed
qed

section \<open>Properties\<close>

text \<open>
  C13: \<open>IntersectSlices\<close> of two complete maps never panics and is complete again; looking a key up in it
  gives the pair of what the two maps hold for the key, and it has at most \<open>n + m - 1\<close> entries, each of
  them the intersection of the two slices it pairs.
\<close>

theorem IntersectSlices_pairs:
  assumes "valid_map getL left" and "valid_map getR right"
  shows "\<exists>sm. IntersectSlices getL getR left right = Inr sm \<and> valid_map ie_Slice sm
    \<and> sm_Size sm + 1 \<le> sm_Size left + sm_Size right
    \<and> (\<forall>e \<in> set (entries sm). slice_keys (ie_Slice e)
          = slice_keys (getL (ie_LeftEntry e)) \<inter> slice_keys (getR (ie_RightEntry e)))
    \<and> (\<forall>k. \<exists>e. LookUp ie_Slice sm (NewSliceKey k) = Inr e
          \<and> LookUp getL left (NewSliceKey k) = Inr (ie_LeftEntry e)
          \<and> LookUp getR right (NewSliceKey k) = Inr (ie_RightEntry e))"
proof -
  obtain sm where sm: "IntersectSlices getL getR left right = Inr sm" "valid_map ie_Slice sm"
    "sm_Size sm + 1 \<le> sm_Size left + sm_Size right"
    "pairs_up getL getR (set (entries left)) (set (entries right)) (entries sm)"
    by (rule IntersectSlices_correct [OF assms])
  then show ?thesis
    using IntersectSlices_LookUp [OF assms _ sm(1)] by (auto simp: pairs_up_def)
qed

theorem IntersectSlices_pairs_witness:
  "\<exists>sm. IntersectSlices (\<lambda>s. s) (\<lambda>s. s) \<lparr>entries = two_slices\<rparr> \<lparr>entries = two_slices\<rparr> = Inr sm
    \<and> sm_Size sm \<le> 3"
proof -
  have "valid_map (\<lambda>s. s) \<lparr>entries = two_slices\<rparr>"
    by (simp add: valid_map_def)
  from IntersectSlices_pairs [OF this this] show ?thesis
    by (auto simp: sm_Size_def two_slices_def)
qed

text \<open>
  C26: \<open>CoalesceSlices\<close> never panics on a complete map; the result is complete, no two neighbours have the
  same value, and every key keeps the value it had. Here \<open>equalVal\<close> compares values, and \<open>withSlice\<close>
  replaces the slice of an entry and leaves its value.
\<close>

theorem CoalesceSlices_keeps_lookups:
  assumes "coalescing get equalVal withSlice val" and "valid_map get m"
  shows "\<exists>sm. CoalesceSlices get m equalVal withSlice = Inr sm \<and> valid_map get sm
    \<and> distinct_adj (map val (entries sm))
    \<and> (\<forall>k. \<exists>e e'. LookUp get m (NewSliceKey k) = Inr e \<and> LookUp get sm (NewSliceKey k) = Inr e' \<and> val e' = val e)"
proof -
  obtain sm where sm: "CoalesceSlices get m equalVal withSlice = Inr sm" "valid_map get sm"
    "distinct_adj (map val (entries sm))" "keeps_values get val (entries m) (entries sm)"
    by (rule CoalesceSlices_correct [OF assms])
  then show ?thesis
    using keeps_values_LookUp [OF sm(4) assms(2) sm(2)] by auto
qed

theorem CoalesceSlices_keeps_lookups_witness:
  "\<exists>sm. CoalesceSlices fst \<lparr>entries = map (\<lambda>s. (s, 5 :: nat)) two_slices\<rparr>
      (\<lambda>a b. snd a = snd b) (\<lambda>e s. (s, snd e)) = Inr sm \<and> distinct_adj (map snd (entries sm))"
proof -
  let ?m = "\<lparr>entries = map (\<lambda>s. (s, 5 :: nat)) two_slices\<rparr>"
  have "valid_map fst ?m"
    by (simp add: valid_map_def comp_def)
  moreover have "coalescing fst (\<lambda>a b. snd a = snd b) (\<lambda>e s. (s, snd e)) (snd :: slice \<times> nat \<Rightarrow> nat)"
    by (simp add: coalescing_def)
  ultimately show ?thesis
    using CoalesceSlices_keeps_lookups [of fst "\<lambda>a b. snd a = snd b" "\<lambda>e s. (s, snd e)" snd ?m] by blast
qed

text \<open>
  C27: \<open>CreateFromOrderedDisjointEntries\<close> of ordered, disjoint entries never panics and builds a complete
  map, which keeps the entries in their order: a key an entry contains is looked up as that entry, every
  other key as a gap. On entries that are out of order or overlap it panics, and never returns a wrong map.
\<close>

theorem CreateFrom_fills_gaps:
  assumes "\<forall>e \<in> set es. wf_slice (get e)"
  shows "if ascending (map get es) then
      \<exists>sm. CreateFromOrderedDisjointEntries get es = Inr sm \<and> valid_map ge_Slice sm
        \<and> map ge_Value (filter gap_IsValue (entries sm)) = map Some es
        \<and> (\<forall>k. \<exists>ge. LookUp ge_Slice sm (NewSliceKey k) = Inr ge \<and>
             (case ge_Value ge of
                Some e \<Rightarrow> gap_IsValue ge \<and> e \<in> set es \<and> k \<in> slice_keys (get e)
              | None \<Rightarrow> \<not> gap_IsValue ge \<and> (\<forall>e \<in> set es. k \<notin> slice_keys (get e))))
    else \<exists>e. CreateFromOrderedDisjointEntries get es = Inl (Panic e)"
proof (cases "ascending (map get es)")
  case True
  obtain sm where sm: "CreateFromOrderedDisjointEntries get es = Inr sm" "valid_map ge_Slice sm"
    "gap_filled get es (entries sm)"
    by (rule CreateFromOrderedDisjointEntries_correct [OF assms True])
  have "\<exists>ge. LookUp ge_Slice sm (NewSliceKey k) = Inr ge \<and>
         (case ge_Value ge of
            Some e \<Rightarrow> gap_IsValue ge \<and> e \<in> set es \<and> k \<in> slice_keys (get e)
          | None \<Rightarrow> \<not> gap_IsValue ge \<and> (\<forall>e \<in> set es. k \<notin> slice_keys (get e)))" for k
    using gap_filled_LookUp [OF sm(3,2), of "NewSliceKey k"]
    by (auto simp: gap_IsValue_def split: option.splits)
  moreover have "map ge_Value (filter gap_IsValue (entries sm)) = map Some es"
    using CreateFromOrderedDisjointEntries_Inr [OF assms] sm(1) by (simp add: value_entries_def)
  ultimately show ?thesis using True sm(1,2) by auto
next
  case False
  then show ?thesis
    using CreateFromOrderedDisjointEntries_Inr [OF assms] by (auto split: sum.splits)
qed

theorem CreateFrom_fills_gaps_witness:
  "(\<exists>sm. CreateFromOrderedDisjointEntries (\<lambda>s. s) [two_slices ! 1] = Inr sm \<and> valid_map ge_Slice sm)
    \<and> (\<exists>e. CreateFromOrderedDisjointEntries (\<lambda>s. s) (rev two_slices) = Inl (Panic e))"
proof -
  have "\<forall>s \<in> set [two_slices ! 1]. wf_slice s" "\<forall>s \<in> set (rev two_slices). wf_slice s"
      "ascending (map (\<lambda>s. s) [two_slices ! 1])" "\<not> ascending (map (\<lambda>s. s) (rev two_slices))"
    by (simp_all add: two_slices_def ascending_def)
  then show ?thesis
    using CreateFrom_fills_gaps [of "[two_slices ! 1]" "\<lambda>s. s"] CreateFrom_fills_gaps [of "rev two_slices" "\<lambda>s. s"]
    by auto
qed

end
