(* ===== verification/Squids.thy ===== *)
theory Squids
  imports Prelude SliceKeys
begin

text \<open>
  \<open>Squid\<close> of \<open>pkg/friend/squid.go\<close>: the identity of one incarnation of a server pod, with its
  ordering.
\<close>

section \<open>Time\<close>

text \<open>
  A \<open>time.Time\<close> is the number of nanoseconds since the Unix epoch, as an unbounded integer; the
  zero value \<open>time.Time{}\<close> is the start of year 1. A \<open>time.Duration\<close> is an \<open>int64\<close> count of
  nanoseconds.
\<close>

type_synonym go_time = int
type_synonym duration = i64

definition zero_Time :: go_time where
  "zero_Time = - 62135596800000000000"

definition Millisecond :: duration where
  "Millisecond = 1000000"

definition UnixMilli :: "go_time \<Rightarrow> i64" where
  "UnixMilli t = word_of_int (t div 1000000)"

definition time_UnixMilli :: "i64 \<Rightarrow> go_time" where
  "time_UnixMilli ms = sint ms * 1000000"

lemma UnixMilli_time_UnixMilli [simp]: "UnixMilli (time_UnixMilli ms) = ms"
  by (simp add: UnixMilli_def time_UnixMilli_def)

section \<open>Squids\<close>

record squid =
  ResourceAddress :: string
  CreationTimeMillis :: i64
  ResourceUUID :: string

definition NewSquid :: "string \<Rightarrow> go_time \<Rightarrow> string \<Rightarrow> squid" where
  "NewSquid address creationTime uuid =
     \<lparr>ResourceAddress = address, CreationTimeMillis = UnixMilli creationTime, ResourceUUID = uuid\<rparr>"

definition squid_CreationTime :: "squid \<Rightarrow> go_time" where
  "squid_CreationTime sq = time_UnixMilli (CreationTimeMillis sq)"

definition squid_Compare :: "squid \<Rightarrow> squid \<Rightarrow> int" where
  "squid_Compare sq other =
     (let addrCmp = bytes_Compare (ResourceAddress sq) (ResourceAddress other)
      in if addrCmp \<noteq> 0 then addrCmp
         else if sint (CreationTimeMillis sq) < sint (CreationTimeMillis other) then -1
         else if sint (CreationTimeMillis sq) > sint (CreationTimeMillis other) then 1
         else bytes_Compare (ResourceUUID sq) (ResourceUUID other))"

definition squid_Equal :: "squid \<Rightarrow> squid \<Rightarrow> bool" where
  "squid_Equal sq other \<longleftrightarrow>
     ResourceAddress sq = ResourceAddress other
     \<and> CreationTimeMillis sq = CreationTimeMillis other
     \<and> ResourceUUID sq = ResourceUUID other"

definition squid_rank :: "squid \<Rightarrow> string \<times> int \<times> string" where
  "squid_rank sq = (ResourceAddress sq, sint (CreationTimeMillis sq), ResourceUUID sq)"

lemma squid_Equal_iff [simp]: "squid_Equal a b \<longleftrightarrow> a = b"
  by (auto simp: squid_Equal_def)

lemma squid_rank_inj: "squid_rank a = squid_rank b \<Longrightarrow> a = b"
  by (cases a; cases b) (simp add: squid_rank_def signed_word_eqI)

lemma squid_Compare_eq [order_simps]: "squid_Compare a b = cmp3 (squid_rank a) (squid_rank b)"
proof -
  let ?a = "sint (CreationTimeMillis a)" and ?b = "sint (CreationTimeMillis b)"
  consider "ResourceAddress a < ResourceAddress b" | "ResourceAddress b < ResourceAddress a"
    | "ResourceAddress a = ResourceAddress b"
    by (metis linorder_cases)
  then show ?thesis
    by cases (simp_all add: squid_Compare_def squid_rank_def bytes_Compare_eq cmp3_def less_not_sym)
qed

interpretation squid_order: three_way squid_Compare "\<lambda>_. True" squid_rank
  by unfold_locales (rule squid_Compare_eq)

section \<open>Properties\<close>

text \<open>
  \<open>Squid.Compare\<close> is a total order on the squids themselves (no two different squids compare equal,
  and \<open>Equal\<close> is \<open>Compare == 0\<close>), in which the address decides first, then the creation time as a
  signed number, then the UUID.
\<close>

lemma squid_Compare_total_order:
  "squid_Compare a b \<in> {-1, 0, 1} \<and> squid_Compare b a = - squid_Compare a b
   \<and> (squid_Compare a b = 0 \<longleftrightarrow> squid_Equal a b) \<and> (squid_Equal a b \<longleftrightarrow> a = b)
   \<and> (squid_Compare a b = -1 \<longleftrightarrow>
        ResourceAddress a < ResourceAddress b
        \<or> ResourceAddress a = ResourceAddress b
          \<and> (sint (CreationTimeMillis a) < sint (CreationTimeMillis b)
             \<or> CreationTimeMillis a = CreationTimeMillis b \<and> ResourceUUID a < ResourceUUID b))
   \<and> (squid_Compare a b \<le> 0 \<longrightarrow> squid_Compare b c \<le> 0 \<longrightarrow> squid_Compare a c \<le> 0)"
proof -
  have less: "squid_rank a < squid_rank b \<longleftrightarrow>
      ResourceAddress a < ResourceAddress b
        \<or> ResourceAddress a = ResourceAddress b
          \<and> (sint (CreationTimeMillis a) < sint (CreationTimeMillis b)
             \<or> CreationTimeMillis a = CreationTimeMillis b \<and> ResourceUUID a < ResourceUUID b)"
    by (auto simp: squid_rank_def signed_word_eqI)
  show ?thesis
    using squid_order.compare_order [of a b c] squid_rank_inj [of a b]
    unfolding less [symmetric] by (auto simp: squid_Compare_eq)
qed

end
