(* ===== verification/Generations.thy ===== *)
theory Generations
  imports Squids
begin

text \<open>
  \<open>pkg/common/generation.go\<close>: incarnations with their guardrail, and the 128-bit generation numbers
  by which assignments are versioned.
\<close>

record incarnation =
  inc_value :: u64

definition UpperBoundFatFingerGuardrail :: u64 where
  "UpperBoundFatFingerGuardrail = push_bit 48 5"

definition MinIncarnation :: incarnation where
  "MinIncarnation = \<lparr>inc_value = 0\<rparr>"

definition NewIncarnation :: "u64 \<Rightarrow> incarnation result" where
  "NewIncarnation v =
     (if v \<ge> UpperBoundFatFingerGuardrail then Inl (Error IncarnationTooLarge)
      else Inr \<lparr>inc_value = v\<rparr>)"

definition MustNewIncarnation :: "u64 \<Rightarrow> incarnation result" where
  "MustNewIncarnation v = must (NewIncarnation v)"

definition inc_Compare :: "incarnation \<Rightarrow> incarnation \<Rightarrow> int" where
  "inc_Compare inc other =
     (if inc_value inc < inc_value other then -1
      else if inc_value inc > inc_value other then 1
      else 0)"

record generation =
  Incarnation :: incarnation
  Number :: u64

definition EmptyGeneration :: generation where
  "EmptyGeneration = \<lparr>Incarnation = MinIncarnation, Number = 0\<rparr>"

definition NewGeneration :: "incarnation \<Rightarrow> u64 \<Rightarrow> generation" where
  "NewGeneration inc number = \<lparr>Incarnation = inc, Number = number\<rparr>"

definition NewGenerationFromTime :: "incarnation \<Rightarrow> go_time \<Rightarrow> generation" where
  "NewGenerationFromTime inc t = \<lparr>Incarnation = inc, Number = UnixMilli t\<rparr>"

definition gen_Compare :: "generation \<Rightarrow> generation \<Rightarrow> int" where
  "gen_Compare g other =
     (let incCmp = inc_Compare (Incarnation g) (Incarnation other)
      in if incCmp \<noteq> 0 then incCmp
         else if Number g < Number other then -1
         else if Number g > Number other then 1
         else 0)"

definition gen_Less :: "generation \<Rightarrow> generation \<Rightarrow> bool" where
  "gen_Less g other \<longleftrightarrow> gen_Compare g other < 0"

definition gen_Equal :: "generation \<Rightarrow> generation \<Rightarrow> bool" where
  "gen_Equal g other \<longleftrightarrow> gen_Compare g other = 0"

definition gen_IsEmpty :: "generation \<Rightarrow> bool" where
  "gen_IsEmpty g \<longleftrightarrow> gen_Equal g EmptyGeneration"

text \<open>
  The rank of a generation: the pair, incarnation first; and the same as one 128-bit number.
\<close>

definition gen_rank :: "generation \<Rightarrow> u64 \<times> u64" where
  "gen_rank g = (inc_value (Incarnation g), Number g)"

definition gen_value :: "generation \<Rightarrow> nat" where
  "gen_value g = unat (inc_value (Incarnation g)) * 2 ^ 64 + unat (Number g)"

lemma inc_Compare_eq [order_simps]: "inc_Compare a b = cmp3 (inc_value a) (inc_value b)"
  by (simp add: inc_Compare_def cmp3_def)

lemma gen_Compare_eq [order_simps]: "gen_Compare a b = cmp3 (gen_rank a) (gen_rank b)"
  by (auto simp: gen_Compare_def inc_Compare_eq gen_rank_def cmp3_def Let_def)

interpretation inc_order: three_way inc_Compare "\<lambda>_. True" inc_value
  by unfold_locales (rule inc_Compare_eq)

interpretation gen_order: three_way gen_Compare "\<lambda>_. True" gen_rank
  by unfold_locales (rule gen_Compare_eq)

lemma gen_rank_inj: "gen_rank a = gen_rank b \<longleftrightarrow> a = b"
  by (cases a; cases b; cases "Incarnation a"; cases "Incarnation b") (auto simp: gen_rank_def)

lemma gen_Equal_iff [simp]: "gen_Equal a b \<longleftrightarrow> a = b"
  by (simp add: gen_Equal_def gen_Compare_eq gen_rank_inj)

lemma gen_IsEmpty_iff [simp]: "gen_IsEmpty g \<longleftrightarrow> g = EmptyGeneration"
  by (simp add: gen_IsEmpty_def)

lemma gen_Less_iff [order_simps]: "gen_Less a b \<longleftrightarrow> gen_rank a < gen_rank b"
  by (simp add: gen_Less_def gen_Compare_eq)

lemma gen_rank_Empty: "gen_rank EmptyGeneration = (0, 0)"
  by (simp add: gen_rank_def EmptyGeneration_def MinIncarnation_def)

lemma unat_u64_bound: "unat (w :: u64) < 2 ^ 64"
proof -
  have "unat w < 2 ^ LENGTH(64)"
    by (rule unsigned_less)
  then show ?thesis by simp
qed

lemma gen_rank_less_value: "gen_rank a < gen_rank b \<longleftrightarrow> gen_value a < gen_value b"
proof -
  have carry: "x * 2 ^ 64 + y < x' * 2 ^ 64 + y' \<longleftrightarrow> x < x' \<or> x = x' \<and> y < y'"
    if "y < 2 ^ 64" "y' < 2 ^ 64" for x y x' y' :: nat
  proof -
    consider "x < x'" | "x = x'" | "x' < x" by linarith
    then show ?thesis
    proof cases
      case 1
      then have "(x + 1) * 2 ^ 64 \<le> x' * 2 ^ 64" by (intro mult_right_mono) auto
      with 1 that show ?thesis by simp
    next
      case 3
      then have "(x' + 1) * 2 ^ 64 \<le> x * 2 ^ 64" by (intro mult_right_mono) auto
      with 3 that show ?thesis by simp
    qed simp
  qed
  show ?thesis
    unfolding gen_value_def carry [OF unat_u64_bound unat_u64_bound]
    by (auto simp: gen_rank_def word_less_nat_alt word_unat_eq_iff less_prod_def')
qed

lemma gen_Compare_value: "gen_Compare a b = cmp3 (gen_value a) (gen_value b)"
  using gen_rank_less_value [of a b] gen_rank_less_value [of b a]
  by (simp add: gen_Compare_eq cmp3_def)

text \<open>The guardrail accepts exactly the values below \<open>5 * 2 ^ 48\<close>.\<close>

lemma guardrail_value: "UpperBoundFatFingerGuardrail = 1407374883553280"
  by (simp add: UpperBoundFatFingerGuardrail_def push_bit_eq_mult)

lemma NewIncarnation_Inr_iff:
  "NewIncarnation v = Inr inc \<longleftrightarrow> v < UpperBoundFatFingerGuardrail \<and> inc = \<lparr>inc_value = v\<rparr>"
  by (auto simp: NewIncarnation_def)

lemma MustNewIncarnation_cases:
  "MustNewIncarnation v =
     (if v < UpperBoundFatFingerGuardrail then Inr \<lparr>inc_value = v\<rparr> else Inl (Panic IncarnationTooLarge))"
  by (simp add: MustNewIncarnation_def NewIncarnation_def not_less)

definition wf_generation :: "generation \<Rightarrow> bool" where
  "wf_generation g \<longleftrightarrow> inc_value (Incarnation g) < UpperBoundFatFingerGuardrail"

section \<open>Properties\<close>

text \<open>
  Generations are ordered as the 128-bit numbers with the incarnation in the high half: the three
  comparison functions agree with the comparison of these numbers, the empty generation is the least, and
  a larger incarnation wins whatever the numbers are.
\<close>

lemma gen_Compare_128_bit:
  "gen_Compare a b = cmp3 (gen_value a) (gen_value b)
   \<and> (gen_Less a b \<longleftrightarrow> gen_value a < gen_value b) \<and> (gen_Equal a b \<longleftrightarrow> a = b)
   \<and> gen_Compare EmptyGeneration a \<le> 0 \<and> (gen_IsEmpty a \<longleftrightarrow> gen_value a = 0)
   \<and> (inc_Compare (Incarnation a) (Incarnation b) < 0 \<longrightarrow> gen_Less a b)"
proof -
  have inj: "gen_value a = gen_value b \<longleftrightarrow> a = b"
    using gen_Compare_value [of a b] by (metis cmp3_simps(5) gen_Equal_def gen_Equal_iff)
  have empty: "gen_value EmptyGeneration = 0"
    by (simp add: gen_value_def EmptyGeneration_def MinIncarnation_def)
  have empty_iff: "gen_IsEmpty a \<longleftrightarrow> gen_value a = 0"
    using gen_Compare_value [of a EmptyGeneration] empty
    unfolding gen_IsEmpty_def gen_Equal_def by (simp only: cmp3_simps)
  have first: "inc_Compare (Incarnation a) (Incarnation b) < 0 \<longrightarrow> gen_Less a b"
    by (simp add: gen_Less_def gen_Compare_def)
  show ?thesis
    using first empty_iff by (simp add: gen_Compare_value gen_Less_def inj empty)
qed

end
