(* ===== verification/Assignments.thy ===== *)
theory Assignments
  imports SliceMaps Generations
begin

text \<open>
  \<open>pkg/common/subslice_annotation.go\<close> and \<open>pkg/common/assignment.go\<close>: annotations, the assignment of
  one slice, the global assignment, and the validation each constructor performs.
\<close>

section \<open>Annotations and slice assignments\<close>

record transfer =
  FromResource :: squid

record subslice_annotation =
  Subslice :: slice
  ContinuousGenerationNumber :: u64
  StateTransfer :: "transfer option"

definition NewSubsliceAnnotation :: "slice \<Rightarrow> u64 \<Rightarrow> transfer option \<Rightarrow> subslice_annotation" where
  "NewSubsliceAnnotation subslice genNumber t =
     \<lparr>Subslice = subslice, ContinuousGenerationNumber = genNumber, StateTransfer = t\<rparr>"

text \<open>A Go \<open>int\<close>, of 64 bits, with two named values; nothing keeps other values out.\<close>

type_synonym consistency_mode = i64

definition ConsistencyModeEventual :: consistency_mode where
  "ConsistencyModeEventual = 0"

definition ConsistencyModeStrict :: consistency_mode where
  "ConsistencyModeStrict = 1"

record slice_with_resources =
  swr_Slice :: slice
  swr_Resources :: "squid list"

definition NewSliceWithResources :: "slice \<Rightarrow> squid list \<Rightarrow> slice_with_resources result" where
  "NewSliceWithResources s resources =
     (if length resources = 0 then Inl (Error ResourcesEmpty)
      else Inr \<lparr>swr_Slice = s, swr_Resources = resources\<rparr>)"

definition MustNewSliceWithResources :: "slice \<Rightarrow> squid list \<Rightarrow> slice_with_resources result" where
  "MustNewSliceWithResources s resources = must (NewSliceWithResources s resources)"

text \<open>
  A \<open>float64\<close> is its IEEE 754 bit pattern; \<open>map[Squid][]SubsliceAnnotation\<close> is a partial function.
  The order in which \<open>range\<close> visits a Go map is not determined by the map: \<open>range_map\<close>, a parameter
  of every function that ranges over one, lists the keys in the order visited.
\<close>

type_synonym f64 = "64 word"
type_synonym annotation_map = "squid \<rightharpoonup> subslice_annotation list"
type_synonym range_order = "annotation_map \<Rightarrow> squid list"

definition ranges_over :: "range_order \<Rightarrow> annotation_map \<Rightarrow> bool" where
  "ranges_over range_map m \<longleftrightarrow> distinct (range_map m) \<and> set (range_map m) = dom m"

record slice_assignment =
  sa_SliceWithResources :: slice_with_resources
  sa_Generation :: generation
  sa_SubsliceAnnotationsByResource :: annotation_map
  sa_PrimaryRateLoadOpt :: "f64 option"

definition sa_GetSlice :: "slice_assignment \<Rightarrow> slice" where
  "sa_GetSlice sa = swr_Slice (sa_SliceWithResources sa)"

definition sa_Resources :: "slice_assignment \<Rightarrow> squid list" where
  "sa_Resources sa = swr_Resources (sa_SliceWithResources sa)"

definition CheckAssignmentGeneration :: "slice_assignment \<Rightarrow> generation \<Rightarrow> unit result" where
  "CheckAssignmentGeneration sa assignmentGen =
     (if inc_Compare (Incarnation (sa_Generation sa)) (Incarnation assignmentGen) \<noteq> 0
        then Inl (Error SliceIncarnationDiffers)
      else if gen_Compare (sa_Generation sa) assignmentGen > 0
        then Inl (Error SliceGenerationTooNew)
      else Inr ())"

subsection \<open>Floating point classification\<close>

definition f64_exponent :: "f64 \<Rightarrow> nat" where
  "f64_exponent w = unat (take_bit 11 (drop_bit 52 w))"

definition math_IsNaN :: "f64 \<Rightarrow> bool" where
  "math_IsNaN w \<longleftrightarrow> f64_exponent w = 2047 \<and> take_bit 52 w \<noteq> 0"

definition math_IsInf :: "f64 \<Rightarrow> bool" where
  "math_IsInf w \<longleftrightarrow> f64_exponent w = 2047 \<and> take_bit 52 w = 0"

text \<open>\<open>val < 0\<close>: false for NaN and for both zeros.\<close>

definition f64_negative :: "f64 \<Rightarrow> bool" where
  "f64_negative w \<longleftrightarrow> bit w 63 \<and> \<not> math_IsNaN w \<and> take_bit 63 w \<noteq> 0"

subsection \<open>NewSliceAssignment\<close>

text \<open>The inner loop over the annotations of one resource; it ends with the last upper bound.\<close>

fun check_annotations ::
  "generation \<Rightarrow> squid \<Rightarrow> high_slice_key \<Rightarrow> subslice_annotation list \<Rightarrow> high_slice_key result" where
  "check_annotations gen resource prevHigh [] = Inr prevHigh"
| "check_annotations gen resource prevHigh (annotation # rest) =
     (if ContinuousGenerationNumber annotation > Number gen then Inl (Error AnnotationTooNew)
      else if (case high_Key prevHigh of
                 Some prevHighKey \<Rightarrow>
                   key_Compare (LowInclusive (Subslice annotation)) prevHighKey < 0
               | None \<Rightarrow> False) then Inl (Error AnnotationsNotOrdered)
      else if (case StateTransfer annotation of
                 Some t \<Rightarrow> squid_Equal (FromResource t) resource
               | None \<Rightarrow> False) then Inl (Error TransferToSelf)
      else check_annotations gen resource (HighExclusive (Subslice annotation)) rest)"

text \<open>The body of the loop over the map, for one resource and its list.\<close>

definition check_resource ::
  "slice_with_resources \<Rightarrow> generation \<Rightarrow> squid \<Rightarrow> subslice_annotation list \<Rightarrow> unit result" where
  "check_resource swr gen resource subsliceList =
     (if resource \<notin> set (swr_Resources swr) then Inl (Error AnnotationForeignResource)
      else if length subsliceList = 0 then Inl (Error AnnotationListEmpty)
      else and_then
        (check_annotations gen resource (NewHighSliceKey (LowInclusive (swr_Slice swr))) subsliceList)
        (\<lambda>prevHigh.
           if high_CompareWithHigh prevHigh (HighExclusive (swr_Slice swr)) > 0
           then Inl (Error AnnotationsOutsideSlice)
           else Inr ()))"

fun copy_annotations ::
  "slice_with_resources \<Rightarrow> generation \<Rightarrow> annotation_map \<Rightarrow> squid list \<Rightarrow> annotation_map \<Rightarrow>
     annotation_map result" where
  "copy_annotations swr gen annotations [] cpAnnotations = Inr cpAnnotations"
| "copy_annotations swr gen annotations (resource # rest) cpAnnotations =
     (case annotations resource of
        None \<Rightarrow> copy_annotations swr gen annotations rest cpAnnotations
      | Some subsliceList \<Rightarrow>
          and_then (check_resource swr gen resource subsliceList)
            (\<lambda>_. copy_annotations swr gen annotations rest (cpAnnotations(resource \<mapsto> subsliceList))))"

definition NewSliceAssignment ::
  "range_order \<Rightarrow> slice_with_resources \<Rightarrow> generation \<Rightarrow> annotation_map \<Rightarrow> f64 option \<Rightarrow>
     slice_assignment result" where
  "NewSliceAssignment range_map swr gen annotations primaryRateLoadOpt =
     (if gen_IsEmpty gen then Inl (Error GenerationEmpty)
      else and_then (copy_annotations swr gen annotations (range_map annotations) Map.empty)
        (\<lambda>cpAnnotations.
           if (case primaryRateLoadOpt of
                 Some val \<Rightarrow> math_IsNaN val \<or> math_IsInf val \<or> f64_negative val
               | None \<Rightarrow> False) then Inl (Error LoadNotFinite)
           else Inr \<lparr>sa_SliceWithResources = swr, sa_Generation = gen,
                      sa_SubsliceAnnotationsByResource = cpAnnotations,
                      sa_PrimaryRateLoadOpt = primaryRateLoadOpt\<rparr>))"

definition MustNewSliceAssignment ::
  "range_order \<Rightarrow> slice_with_resources \<Rightarrow> generation \<Rightarrow> annotation_map \<Rightarrow> f64 option \<Rightarrow>
     slice_assignment result" where
  "MustNewSliceAssignment range_map swr gen annotations primaryRateLoadOpt =
     must (NewSliceAssignment range_map swr gen annotations primaryRateLoadOpt)"

section \<open>Assignments\<close>

text \<open>The field \<open>SliceMap\<close> is a pointer; \<open>None\<close> is nil.\<close>

record assignment =
  a_Generation :: generation
  a_IsFrozen :: bool
  a_ConsistencyMode :: consistency_mode
  a_SliceMap :: "slice_assignment slice_map option"

fun check_generations :: "slice_assignment list \<Rightarrow> generation \<Rightarrow> unit result" where
  "check_generations [] gen = Inr ()"
| "check_generations (sa # rest) gen =
     and_then (CheckAssignmentGeneration sa gen) (\<lambda>_. check_generations rest gen)"

definition NewAssignment ::
  "generation \<Rightarrow> bool \<Rightarrow> consistency_mode \<Rightarrow> slice_assignment slice_map option \<Rightarrow> assignment result" where
  "NewAssignment gen frozen mode sliceMap =
     (if gen_IsEmpty gen then Inl (Error GenerationEmpty)
      else case sliceMap of
        None \<Rightarrow> Inl (Error SliceMapNil)
      | Some sm \<Rightarrow>
          and_then (check_generations (sm_Entries sm) gen)
            (\<lambda>_. Inr \<lparr>a_Generation = gen, a_IsFrozen = frozen, a_ConsistencyMode = mode,
                       a_SliceMap = Some sm\<rparr>))"

definition MustNewAssignment ::
  "generation \<Rightarrow> bool \<Rightarrow> consistency_mode \<Rightarrow> slice_assignment slice_map option \<Rightarrow> assignment result" where
  "MustNewAssignment gen frozen mode sliceMap = must (NewAssignment gen frozen mode sliceMap)"

text \<open>Dereferencing the map pointer.\<close>

definition deref_map :: "assignment \<Rightarrow> slice_assignment slice_map result" where
  "deref_map a = (case a_SliceMap a of None \<Rightarrow> Inl (Panic NilDereference) | Some sm \<Rightarrow> Inr sm)"

definition assignment_Size :: "assignment \<Rightarrow> nat result" where
  "assignment_Size a = and_then (deref_map a) (\<lambda>sm. Inr (sm_Size sm))"

definition assignment_LookUp :: "assignment \<Rightarrow> slice_key \<Rightarrow> slice_assignment result" where
  "assignment_LookUp a key = and_then (deref_map a) (\<lambda>sm. LookUp sa_GetSlice sm key)"

definition SliceAssignments :: "assignment \<Rightarrow> slice_assignment list result" where
  "SliceAssignments a = and_then (deref_map a) (\<lambda>sm. Inr (sm_Entries sm))"

text \<open>The nested loops of \<open>Resources\<close>: \<open>seen\<close> is the set of squids already appended.\<close>

fun collect_resources :: "squid list \<Rightarrow> squid set \<times> squid list \<Rightarrow> squid set \<times> squid list" where
  "collect_resources [] (seen, result) = (seen, result)"
| "collect_resources (sq # rest) (seen, result) =
     (if sq \<notin> seen then collect_resources rest (insert sq seen, result @ [sq])
      else collect_resources rest (seen, result))"

definition assignment_Resources :: "assignment \<Rightarrow> squid list result" where
  "assignment_Resources a =
     and_then (SliceAssignments a)
       (\<lambda>sas. Inr (snd (fold (\<lambda>sa. collect_resources (sa_Resources sa)) sas ({}, []))))"

definition owns :: "squid \<Rightarrow> slice_assignment \<Rightarrow> bool" where
  "owns resource sa \<longleftrightarrow> list_ex (\<lambda>sq. squid_Equal sq resource) (sa_Resources sa)"

definition IsAssignedKey :: "assignment \<Rightarrow> slice_key \<Rightarrow> squid \<Rightarrow> bool result" where
  "IsAssignedKey a key resource =
     and_then (assignment_LookUp a key) (\<lambda>sa. Inr (owns resource sa))"

definition GetAssignedSliceAssignments :: "assignment \<Rightarrow> squid \<Rightarrow> slice_assignment list result" where
  "GetAssignedSliceAssignments a resource =
     and_then (SliceAssignments a) (\<lambda>sas. Inr (filter (owns resource) sas))"

definition GetAssignedSlices :: "assignment \<Rightarrow> squid \<Rightarrow> slice list result" where
  "GetAssignedSlices a resource =
     and_then (SliceAssignments a) (\<lambda>sas. Inr (map sa_GetSlice (filter (owns resource) sas)))"

section \<open>What the constructors establish\<close>

lemma copy_annotations_Inr_iff:
  "copy_annotations swr gen ann ks cp = Inr cp' \<longleftrightarrow>
     (\<forall>k \<in> set ks. \<forall>l. ann k = Some l \<longrightarrow> check_resource swr gen k l = Inr ()) \<and> cp' = cp ++ (ann |` set ks)"
proof (induction ks arbitrary: cp)
  case Nil
  then show ?case by auto
next
  case (Cons k ks)
  have merge: "cp(k \<mapsto> l) ++ ann |` set ks = cp ++ ann |` insert k (set ks)" if "ann k = Some l" for l
    using that by (auto simp: map_add_def restrict_map_def fun_eq_iff split: option.splits)
  have skip: "cp ++ ann |` set ks = cp ++ ann |` insert k (set ks)" if "ann k = None"
    using that by (auto simp: map_add_def restrict_map_def fun_eq_iff split: option.splits)
  show ?case
  proof (cases "ann k")
    case None
    with Cons skip show ?thesis by simp
  next
    case (Some l)
    then have "copy_annotations swr gen ann (k # ks) cp = Inr cp' \<longleftrightarrow>
        check_resource swr gen k l = Inr () \<and> copy_annotations swr gen ann ks (cp(k \<mapsto> l)) = Inr cp'"
      by (simp add: and_then_Inr_iff)
    then show ?thesis
      using Some by (simp only: Cons.IH merge [OF Some]) auto
  qed
qed

definition load_ok :: "f64 option \<Rightarrow> bool" where
  "load_ok load \<longleftrightarrow>
     (case load of None \<Rightarrow> True
      | Some val \<Rightarrow> \<not> math_IsNaN val \<and> \<not> math_IsInf val \<and> \<not> f64_negative val)"

text \<open>
  Whether \<open>NewSliceAssignment\<close> accepts, and what it builds, does not depend on the iteration order.
\<close>

lemma NewSliceAssignment_Inr_iff:
  assumes "ranges_over range_map annotations"
  shows "NewSliceAssignment range_map swr gen annotations load = Inr sa \<longleftrightarrow>
    gen \<noteq> EmptyGeneration
    \<and> (\<forall>r l. annotations r = Some l \<longrightarrow> check_resource swr gen r l = Inr ())
    \<and> load_ok load
    \<and> sa = \<lparr>sa_SliceWithResources = swr, sa_Generation = gen,
             sa_SubsliceAnnotationsByResource = annotations, sa_PrimaryRateLoadOpt = load\<rparr>"
proof -
  have keys: "set (range_map annotations) = dom annotations"
    using assms by (simp add: ranges_over_def)
  have restrict: "annotations |` dom annotations = annotations"
    by (auto simp: restrict_map_def fun_eq_iff domIff)
  have all: "(\<forall>k \<in> dom annotations. \<forall>l. annotations k = Some l \<longrightarrow> P k l)
      \<longleftrightarrow> (\<forall>k l. annotations k = Some l \<longrightarrow> P k l)" for P
    by blast
  show ?thesis
    unfolding NewSliceAssignment_def
    by (cases "gen = EmptyGeneration")
      (auto simp: and_then_Inr_iff copy_annotations_Inr_iff keys restrict all load_ok_def
        split: option.splits)
qed

subsection \<open>The annotations of one resource\<close>

text \<open>The documented contract on the annotations of one resource.\<close>

definition annotations_ok ::
  "slice_with_resources \<Rightarrow> generation \<Rightarrow> squid \<Rightarrow> subslice_annotation list \<Rightarrow> bool" where
  "annotations_ok swr gen resource anns \<longleftrightarrow>
     resource \<in> set (swr_Resources swr) \<and> anns \<noteq> []
     \<and> ascending (map Subslice anns)
     \<and> (\<forall>a \<in> set anns. slice_keys (Subslice a) \<subseteq> slice_keys (swr_Slice swr))
     \<and> (\<forall>a \<in> set anns. ContinuousGenerationNumber a \<le> Number gen)
     \<and> (\<forall>a \<in> set anns. \<forall>t. StateTransfer a = Some t \<longrightarrow> FromResource t \<noteq> resource)"

definition inner_finite :: "subslice_annotation list \<Rightarrow> bool" where
  "inner_finite anns \<longleftrightarrow> (\<forall>a \<in> set (butlast anns). high_end (Subslice a) \<noteq> PInf)"

definition last_high :: "high_slice_key \<Rightarrow> subslice_annotation list \<Rightarrow> high_slice_key" where
  "last_high prev anns = (if anns = [] then prev else HighExclusive (Subslice (last anns)))"

definition step_ok :: "generation \<Rightarrow> squid \<Rightarrow> subslice_annotation \<Rightarrow> bool" where
  "step_ok gen resource a \<longleftrightarrow>
     ContinuousGenerationNumber a \<le> Number gen
     \<and> (\<forall>t. StateTransfer a = Some t \<longrightarrow> FromResource t \<noteq> resource)"

fun follows :: "byte list bound \<Rightarrow> slice list \<Rightarrow> bool" where
  "follows p [] \<longleftrightarrow> True"
| "follows p (s # ss) \<longleftrightarrow> p \<le> Fin (low_bytes s) \<and> follows (high_end s) ss"

lemma follows_bound:
  "follows p ss \<Longrightarrow> \<forall>s \<in> set ss. wf_slice s \<Longrightarrow> s \<in> set ss \<Longrightarrow> p \<le> Fin (low_bytes s)"
proof (induction ss arbitrary: p)
  case (Cons t ts)
  show ?case
  proof (cases "s \<in> set ts")
    case True
    have "p \<le> Fin (low_bytes t)" using Cons.prems(1) by simp
    also have "Fin (low_bytes t) \<le> high_end t" using Cons.prems(2) by (simp add: less_imp_le)
    also have "high_end t \<le> Fin (low_bytes s)" using Cons True by auto
    finally show ?thesis .
  qed (use Cons.prems in auto)
qed simp

lemma follows_iff:
  "\<forall>s \<in> set ss. wf_slice s \<Longrightarrow>
     follows p ss \<longleftrightarrow> ascending ss \<and> (\<forall>s \<in> set ss. p \<le> Fin (low_bytes s))"
proof (induction ss arbitrary: p)
  case (Cons t ts)
  show ?case
  proof
    assume f: "follows p (t # ts)"
    then have "ascending ts" "\<forall>s \<in> set ts. high_end t \<le> Fin (low_bytes s)"
      using Cons by auto
    with f show "ascending (t # ts) \<and> (\<forall>s \<in> set (t # ts). p \<le> Fin (low_bytes s))"
      using follows_bound [OF f Cons.prems] by (simp add: ascending_def)
  qed (use Cons in \<open>auto simp: ascending_def\<close>)
qed (simp add: ascending_def)

text \<open>
  The order the code checks: a slice starts at or after the end of the one before it, unless that one reaches
  infinity.
\<close>

fun loosely_follows :: "byte list bound \<Rightarrow> slice list \<Rightarrow> bool" where
  "loosely_follows p [] \<longleftrightarrow> True"
| "loosely_follows p (s # ss) \<longleftrightarrow> (p = PInf \<or> p \<le> Fin (low_bytes s)) \<and> loosely_follows (high_end s) ss"

lemma loosely_follows_iff:
  "loosely_follows p ss \<longleftrightarrow> ss = [] \<or>
     (p = PInf \<or> p \<le> Fin (low_bytes (hd ss)))
     \<and> successively (\<lambda>s t. high_end s = PInf \<or> high_end s \<le> Fin (low_bytes t)) ss"
proof (induction ss arbitrary: p)
  case (Cons s ss)
  show ?case using Cons.IH [of "high_end s"] by (cases ss) auto
qed simp

lemma follows_loosely: "follows p ss \<Longrightarrow> loosely_follows p ss"
  by (induction p ss rule: follows.induct) auto

lemma loosely_follows_finite:
  "p \<noteq> PInf \<Longrightarrow> inner_finite anns \<Longrightarrow>
     loosely_follows p (map Subslice anns) \<longleftrightarrow> follows p (map Subslice anns)"
proof (induction anns arbitrary: p)
  case (Cons a anns)
  show ?case
  proof (cases anns)
    case (Cons b bs)
    then have "high_end (Subslice a) \<noteq> PInf" "inner_finite anns"
      using \<open>inner_finite (a # anns)\<close> by (auto simp: inner_finite_def)
    with Cons.IH [OF this] Cons.prems(1) show ?thesis by simp
  qed (use Cons.prems(1) in simp)
qed simp

lemma check_annotations_last: "check_annotations gen resource prev anns = Inr h \<Longrightarrow> h = last_high prev anns"
  by (induction gen resource prev anns rule: check_annotations.induct) (auto simp: last_high_def split: if_splits)

lemma check_annotations_append:
  "check_annotations gen resource prev (xs @ ys) =
     and_then (check_annotations gen resource prev xs) (\<lambda>h. check_annotations gen resource h ys)"
  by (induction gen resource prev xs rule: check_annotations.induct) auto

lemma check_annotations_Inr_iff:
  "\<forall>a \<in> set anns. wf_slice (Subslice a) \<Longrightarrow> wf_high prev \<Longrightarrow>
     check_annotations gen resource prev anns = Inr h \<longleftrightarrow>
       loosely_follows (high_point prev) (map Subslice anns) \<and> (\<forall>a \<in> set anns. step_ok gen resource a)
       \<and> h = last_high prev anns"
proof (induction anns arbitrary: prev)
  case Nil
  then show ?case by (auto simp: last_high_def)
next
  case (Cons a anns)
  have wf: "wf_slice (Subslice a)" using Cons.prems(1) by simp
  have prev: "(case high_Key prev of Some k \<Rightarrow> key_Compare (LowInclusive (Subslice a)) k < 0 | None \<Rightarrow> False)
      \<longleftrightarrow> \<not> (high_point prev = PInf \<or> high_point prev \<le> Fin (low_bytes (Subslice a)))"
  proof (cases "high_Key prev")
    case None
    then have "high_point prev = PInf" by (auto simp: high_Key_def high_point_def split: if_splits)
    then show ?thesis unfolding None by simp
  next
    case (Some k)
    with high_Key_SomeD [OF Some Cons.prems(2)] wf show ?thesis
      by (simp add: order_simps not_le)
  qed
  have step: "check_annotations gen resource prev (a # anns) = Inr h \<longleftrightarrow>
      (high_point prev = PInf \<or> high_point prev \<le> Fin (low_bytes (Subslice a))) \<and> step_ok gen resource a
      \<and> check_annotations gen resource (HighExclusive (Subslice a)) anns = Inr h"
    unfolding check_annotations.simps prev by (auto simp: step_ok_def not_less order_simps split: option.splits)
  show ?case
    unfolding step using Cons.IH Cons.prems(1) wf by (auto simp: last_high_def simp del: check_annotations.simps(2))
qed

text \<open>
  What the code accepts beyond the contract: when an annotation before the last reaches infinity, what comes
  after it may start anywhere.
\<close>

definition escapes_check ::
  "slice_with_resources \<Rightarrow> generation \<Rightarrow> squid \<Rightarrow> subslice_annotation list \<Rightarrow> bool" where
  "escapes_check swr gen resource anns \<longleftrightarrow>
     resource \<in> set (swr_Resources swr) \<and> anns \<noteq> [] \<and> \<not> inner_finite anns
     \<and> low_bytes (swr_Slice swr) \<le> low_bytes (Subslice (hd anns))
     \<and> successively (\<lambda>a b. high_end (Subslice a) = PInf \<or> high_end (Subslice a) \<le> Fin (low_bytes (Subslice b))) anns
     \<and> high_end (Subslice (last anns)) \<le> high_end (swr_Slice swr)
     \<and> (\<forall>a \<in> set anns. step_ok gen resource a)"

text \<open>
  The validation of one resource's annotations is the documented contract, and that exception.
\<close>

lemma ascending_last_high:
  assumes "ascending ss" and "\<forall>s \<in> set ss. wf_slice s" and "s \<in> set ss"
  shows "high_end s \<le> high_end (last ss)"
proof -
  obtain i where "i < length ss" "s = ss ! i"
    using assms(3) by (auto simp: in_set_conv_nth)
  then show ?thesis
    using ascending_high_mono [OF assms(1,2), of i "length ss - 1"] by (cases ss) (auto simp: last_conv_nth)
qed

lemma check_resource_loosely:
  assumes "wf_slice (swr_Slice swr)" and "\<forall>a \<in> set anns. wf_slice (Subslice a)" and "anns \<noteq> []"
  shows "check_resource swr gen resource anns = Inr () \<longleftrightarrow>
    resource \<in> set (swr_Resources swr) \<and> (\<forall>a \<in> set anns. step_ok gen resource a)
    \<and> loosely_follows (Fin (low_bytes (swr_Slice swr))) (map Subslice anns)
    \<and> high_end (Subslice (last anns)) \<le> high_end (swr_Slice swr)"
proof -
  have "wf_high (HighExclusive (Subslice (last anns)))" using assms(2,3) by simp
  then show ?thesis
    using assms
    by (auto simp: check_resource_def and_then_Inr_iff check_annotations_Inr_iff last_high_def order_simps)
qed

lemma ascending_inner_finite:
  assumes "ascending (map Subslice anns)"
  shows "inner_finite anns"
  using assms
proof (induction anns)
  case (Cons a anns)
  then have "inner_finite anns" "\<forall>b \<in> set anns. high_end (Subslice a) \<le> Fin (low_bytes (Subslice b))"
    by (auto simp: ascending_def)
  then show ?case by (cases anns) (auto simp: inner_finite_def)
qed (simp add: inner_finite_def)

lemma contained_iff:
  assumes "wf_slice (swr_Slice swr)" and "\<forall>a \<in> set anns. wf_slice (Subslice a)" and "anns \<noteq> []"
  shows "follows (Fin (low_bytes (swr_Slice swr))) (map Subslice anns)
      \<and> high_end (Subslice (last anns)) \<le> high_end (swr_Slice swr) \<longleftrightarrow>
    ascending (map Subslice anns) \<and> (\<forall>a \<in> set anns. slice_keys (Subslice a) \<subseteq> slice_keys (swr_Slice swr))"
proof -
  let ?S = "swr_Slice swr"
  have wf: "\<forall>s \<in> set (map Subslice anns). wf_slice s"
    using assms(2) by simp
  have ends: "high_end (Subslice (last anns)) = high_end (last (map Subslice anns))"
    using assms(3) by (simp add: last_map)
  show ?thesis
  proof
    assume l: "follows (Fin (low_bytes ?S)) (map Subslice anns)
      \<and> high_end (Subslice (last anns)) \<le> high_end ?S"
    then have asc: "ascending (map Subslice anns)" "\<forall>a \<in> set anns. low_bytes ?S \<le> low_bytes (Subslice a)"
      by (auto simp: follows_iff [OF wf])
    moreover have "high_end (Subslice a) \<le> high_end ?S" if "a \<in> set anns" for a
      using ascending_last_high [OF asc(1) wf, of "Subslice a"] that l by (auto simp: ends)
    ultimately show "ascending (map Subslice anns)
        \<and> (\<forall>a \<in> set anns. slice_keys (Subslice a) \<subseteq> slice_keys ?S)"
      using assms by (simp add: slice_keys_subset_iff)
  next
    assume r: "ascending (map Subslice anns) \<and> (\<forall>a \<in> set anns. slice_keys (Subslice a) \<subseteq> slice_keys ?S)"
    then have sub: "\<forall>a \<in> set anns. low_bytes ?S \<le> low_bytes (Subslice a) \<and> high_end (Subslice a) \<le> high_end ?S"
      using assms by (simp add: slice_keys_subset_iff)
    with r assms(3) show "follows (Fin (low_bytes ?S)) (map Subslice anns)
        \<and> high_end (Subslice (last anns)) \<le> high_end ?S"
      by (simp add: follows_iff [OF wf])
  qed
qed

lemma check_resource_iff:
  assumes "wf_slice (swr_Slice swr)" and "\<forall>a \<in> set anns. wf_slice (Subslice a)"
  shows "check_resource swr gen resource anns = Inr () \<longleftrightarrow>
    annotations_ok swr gen resource anns \<or> escapes_check swr gen resource anns"
proof (cases "anns = []")
  case True
  then show ?thesis by (simp add: check_resource_def annotations_ok_def escapes_check_def)
next
  case False
  let ?p = "Fin (low_bytes (swr_Slice swr))"
  note loosely = check_resource_loosely [OF assms False, of gen resource]
  show ?thesis
  proof (cases "inner_finite anns")
    case True
    then have "loosely_follows ?p (map Subslice anns) \<longleftrightarrow> follows ?p (map Subslice anns)"
      by (simp add: loosely_follows_finite)
    with loosely contained_iff [OF assms False] True False show ?thesis
      by (auto simp: annotations_ok_def escapes_check_def step_ok_def)
  next
    case infinite: False
    then have "\<not> annotations_ok swr gen resource anns"
      using ascending_inner_finite by (auto simp: annotations_ok_def)
    moreover have "loosely_follows ?p (map Subslice anns) \<longleftrightarrow> low_bytes (swr_Slice swr) \<le> low_bytes (Subslice (hd anns))
        \<and> successively (\<lambda>a b. high_end (Subslice a) = PInf \<or> high_end (Subslice a) \<le> Fin (low_bytes (Subslice b))) anns"
      using False by (simp add: loosely_follows_iff hd_map successively_map)
    ultimately show ?thesis
      using loosely infinite False by (auto simp: escapes_check_def)
  qed
qed

text \<open>One more annotation after an accepted list, starting before the last of it ends.\<close>

lemma appended_annotation:
  assumes "check_resource swr gen r (as @ [a]) = Inr ()" and "wf_slice (swr_Slice swr)"
    and "\<forall>x \<in> set (as @ [a, b]). wf_slice (Subslice x)"
    and "step_ok gen r b" and "high_end (Subslice b) \<le> high_end (swr_Slice swr)"
    and "Fin (low_bytes (Subslice b)) < high_end (Subslice a)"
  shows "check_resource swr gen r (as @ [a, b]) =
    (if high_end (Subslice a) = PInf then Inr () else Inl (Error AnnotationsNotOrdered))"
proof -
  let ?low = "NewHighSliceKey (LowInclusive (swr_Slice swr))"
  obtain h where "check_annotations gen r ?low (as @ [a]) = Inr h" and r: "r \<in> set (swr_Resources swr)"
    using assms(1) by (auto simp: check_resource_def and_then_Inr_iff split: if_splits)
  with check_annotations_last have before: "check_annotations gen r ?low (as @ [a]) = Inr (HighExclusive (Subslice a))"
    by (fastforce simp: last_high_def)
  have "\<not> Number gen < ContinuousGenerationNumber b" "\<not> (case StateTransfer b of Some t \<Rightarrow> squid_Equal (FromResource t) r | None \<Rightarrow> False)"
    using assms(4) by (auto simp: step_ok_def not_less order_simps split: option.splits)
  moreover have "(case high_Key (HighExclusive (Subslice a)) of
      Some k \<Rightarrow> key_Compare (LowInclusive (Subslice b)) k < 0 | None \<Rightarrow> False) \<longleftrightarrow> high_end (Subslice a) \<noteq> PInf"
    using assms(3,6) high_Key_SomeD [of "HighExclusive (Subslice a)"]
    by (auto simp: high_Key_def high_point_def order_simps split: if_splits)
  ultimately have b: "check_annotations gen r (HighExclusive (Subslice a)) [b] =
      (if high_end (Subslice a) = PInf then Inr (HighExclusive (Subslice b)) else Inl (Error AnnotationsNotOrdered))"
    by (auto simp: order_simps)
  have "check_annotations gen r ?low (as @ [a, b]) = check_annotations gen r (HighExclusive (Subslice a)) [b]"
    using check_annotations_append [of gen r ?low "as @ [a]" "[b]"] before by simp
  then show ?thesis
    using r assms(2,3) leD [OF assms(5)] b by (simp add: check_resource_def order_simps)
qed

lemma copy_annotations_Inl:
  "r \<in> set ks \<Longrightarrow> ann r = Some l \<Longrightarrow> check_resource swr gen r l = Inl e \<Longrightarrow>
    \<forall>r' l'. r' \<noteq> r \<longrightarrow> ann r' = Some l' \<longrightarrow> check_resource swr gen r' l' = Inr () \<Longrightarrow>
    copy_annotations swr gen ann ks cp = Inl e"
proof (induction ks arbitrary: cp)
  case (Cons k ks)
  then show ?case by (cases "k = r") (auto split: option.splits)
qed simp

lemma NewSliceAssignment_Inl:
  assumes "ranges_over range_map annotations" and "gen \<noteq> EmptyGeneration"
    and "annotations r = Some l" and "check_resource swr gen r l = Inl e"
    and "\<forall>r' l'. r' \<noteq> r \<longrightarrow> annotations r' = Some l' \<longrightarrow> check_resource swr gen r' l' = Inr ()"
  shows "NewSliceAssignment range_map swr gen annotations load = Inl e"
proof -
  have "r \<in> set (range_map annotations)"
    using assms(1,3) by (auto simp: ranges_over_def)
  with copy_annotations_Inl [OF this assms(3-5)] assms(2) show ?thesis
    by (simp add: NewSliceAssignment_def)
qed

section \<open>Valid assignments\<close>

text \<open>What \<open>NewSliceWithResources\<close>, \<open>NewSliceAssignment\<close>, \<open>NewSliceMap\<close> and \<open>NewAssignment\<close> establish.\<close>

definition valid_slice_assignment :: "slice_assignment \<Rightarrow> bool" where
  "valid_slice_assignment sa \<longleftrightarrow>
     sa_Resources sa \<noteq> [] \<and> sa_Generation sa \<noteq> EmptyGeneration
     \<and> load_ok (sa_PrimaryRateLoadOpt sa)
     \<and> (\<forall>r l. sa_SubsliceAnnotationsByResource sa r = Some l \<longrightarrow>
          check_resource (sa_SliceWithResources sa) (sa_Generation sa) r l = Inr ())"

definition generations_ok :: "generation \<Rightarrow> slice_assignment \<Rightarrow> bool" where
  "generations_ok gen sa \<longleftrightarrow>
     Incarnation (sa_Generation sa) = Incarnation gen \<and> gen_rank (sa_Generation sa) \<le> gen_rank gen"

definition valid_assignment :: "assignment \<Rightarrow> bool" where
  "valid_assignment a \<longleftrightarrow>
     a_Generation a \<noteq> EmptyGeneration
     \<and> (\<exists>sm. a_SliceMap a = Some sm \<and> valid_map sa_GetSlice sm
          \<and> (\<forall>sa \<in> set (entries sm). valid_slice_assignment sa \<and> generations_ok (a_Generation a) sa))"

lemma inc_value_inj: "inc_value (a :: incarnation) = inc_value b \<longleftrightarrow> a = b"
  by (cases a; cases b) simp

lemma CheckAssignmentGeneration_iff:
  "CheckAssignmentGeneration sa gen = Inr () \<longleftrightarrow> generations_ok gen sa"
  by (auto simp: CheckAssignmentGeneration_def generations_ok_def order_simps inc_value_inj)

lemma check_generations_iff:
  "check_generations sas gen = Inr () \<longleftrightarrow> (\<forall>sa \<in> set sas. generations_ok gen sa)"
  by (induction sas) (auto simp: and_then_Inr_iff CheckAssignmentGeneration_iff)

lemma NewAssignment_Inr_iff:
  "NewAssignment gen frozen mode sliceMap = Inr a \<longleftrightarrow>
     gen \<noteq> EmptyGeneration
     \<and> (\<exists>sm. sliceMap = Some sm \<and> (\<forall>sa \<in> set (entries sm). generations_ok gen sa))
     \<and> a = \<lparr>a_Generation = gen, a_IsFrozen = frozen, a_ConsistencyMode = mode, a_SliceMap = sliceMap\<rparr>"
  by (auto simp: NewAssignment_def and_then_Inr_iff check_generations_iff sm_Entries_def
      split: option.splits)

lemma NewAssignment_valid:
  assumes "NewAssignment gen frozen mode (Some sm) = Inr a"
    and "valid_map sa_GetSlice sm" and "\<forall>sa \<in> set (entries sm). valid_slice_assignment sa"
  shows "valid_assignment a \<and> a_Generation a = gen \<and> a_SliceMap a = Some sm"
  using assms by (auto simp: NewAssignment_Inr_iff valid_assignment_def)

lemma NewSliceAssignment_valid:
  assumes "NewSliceAssignment range_map swr gen annotations load = Inr sa"
    and "ranges_over range_map annotations" and "swr_Resources swr \<noteq> []"
  shows "valid_slice_assignment sa \<and> sa_GetSlice sa = swr_Slice swr \<and> sa_Resources sa = swr_Resources swr"
  using assms
  by (simp add: NewSliceAssignment_Inr_iff valid_slice_assignment_def sa_Resources_def sa_GetSlice_def)

lemma valid_assignmentE:
  assumes "valid_assignment a"
  obtains sm where "a_SliceMap a = Some sm" "valid_map sa_GetSlice sm"
    "\<forall>sa \<in> set (entries sm). valid_slice_assignment sa \<and> generations_ok (a_Generation a) sa"
  using assms by (auto simp: valid_assignment_def)

section \<open>Queries\<close>

text \<open>A valid assignment is a directory of its slice assignments.\<close>

definition assignment_members :: "assignment \<Rightarrow> slice_assignment list" where
  "assignment_members a = (case a_SliceMap a of None \<Rightarrow> [] | Some sm \<Rightarrow> entries sm)"

interpretation assignment_directory:
  key_directory assignment_LookUp sa_GetSlice assignment_members valid_assignment
proof
  fix a k
  assume "valid_assignment a" and k: "wf_key k"
  then obtain sm where sm: "a_SliceMap a = Some sm" "valid_map sa_GetSlice sm"
    by (elim valid_assignmentE)
  then show "\<exists>e \<in> set (assignment_members a).
      assignment_LookUp a k = Inr e \<and> k_data k \<in> slice_keys (sa_GetSlice e)"
    using slice_map_directory.look_up_finds [OF sm(2) k]
    by (simp add: assignment_members_def assignment_LookUp_def deref_map_def)
next
  fix a e e' b
  assume "valid_assignment a" and e: "e \<in> set (assignment_members a)" "e' \<in> set (assignment_members a)"
    and b: "b \<in> slice_keys (sa_GetSlice e)" "b \<in> slice_keys (sa_GetSlice e')"
  then obtain sm where sm: "a_SliceMap a = Some sm" "valid_map sa_GetSlice sm"
    by (elim valid_assignmentE)
  with e b show "e = e'"
    using slice_map_directory.members_disjoint [OF sm(2), of e e' b] by (simp add: assignment_members_def)
qed

lemma SliceAssignments_valid:
  "valid_assignment a \<Longrightarrow> SliceAssignments a = Inr (assignment_members a)"
  by (elim valid_assignmentE) (simp add: SliceAssignments_def deref_map_def assignment_members_def sm_Entries_def)

lemma owns_iff [simp]: "owns r sa \<longleftrightarrow> r \<in> set (sa_Resources sa)"
  by (auto simp: owns_def list_ex_iff)

text \<open>\<open>Resources\<close> appends each squid at its first occurrence.\<close>

lemma collect_resources_correct:
  "set result = seen \<Longrightarrow> distinct result \<Longrightarrow>
   \<exists>seen' result'. collect_resources sqs (seen, result) = (seen', result') \<and> set result' = seen'
     \<and> distinct result' \<and> seen' = seen \<union> set sqs"
proof (induction sqs arbitrary: seen result)
  case (Cons sq sqs)
  show ?case
  proof (cases "sq \<in> seen")
    case True
    with Cons.IH [OF Cons.prems] show ?thesis by auto
  next
    case False
    with Cons.IH [of "result @ [sq]" "insert sq seen"] Cons.prems show ?thesis by auto
  qed
qed simp

lemma collect_all_correct:
  "set result = seen \<Longrightarrow> distinct result \<Longrightarrow>
   \<exists>seen' result'. fold (\<lambda>sa. collect_resources (sa_Resources sa)) sas (seen, result) = (seen', result')
     \<and> set result' = seen' \<and> distinct result' \<and> seen' = seen \<union> (\<Union>sa \<in> set sas. set (sa_Resources sa))"
proof (induction sas arbitrary: seen result)
  case (Cons sa sas)
  obtain seen1 result1 where one: "collect_resources (sa_Resources sa) (seen, result) = (seen1, result1)"
      "set result1 = seen1" "distinct result1" "seen1 = seen \<union> set (sa_Resources sa)"
    using collect_resources_correct [OF Cons.prems, of "sa_Resources sa"] by blast
  with Cons.IH [OF one(2,3)] show ?case by auto
qed simp

lemma assignment_Resources_correct:
  assumes "valid_assignment a"
  obtains rs where "assignment_Resources a = Inr rs" "distinct rs"
    "set rs = (\<Union>sa \<in> set (assignment_members a). set (sa_Resources sa))"
proof -
  obtain seen rs where "fold (\<lambda>sa. collect_resources (sa_Resources sa)) (assignment_members a) ({}, []) = (seen, rs)"
      "set rs = seen" "distinct rs" "seen = (\<Union>sa \<in> set (assignment_members a). set (sa_Resources sa))"
    using collect_all_correct [of "[]" "{}" "assignment_members a"] by auto
  then show ?thesis
    using assms by (intro that [of rs]) (simp_all add: assignment_Resources_def SliceAssignments_valid)
qed

section \<open>Properties\<close>

text \<open>
  C14: What \<open>NewSliceAssignment\<close> accepts, exactly, for all arguments: the generation is not empty, the load (if
  any) is a finite number that is not negative, and for every annotated resource either the documented contract
  holds (the resource is assigned to the slice, its annotations are a non-empty list of ordered, disjoint
  subslices inside the slice, none newer than the slice's generation and none transferring state from the
  resource itself), or an annotation before its last reaches infinity and only then the next one may start
  anywhere, all the other checks holding. So it rejects nothing the contract allows, and it violates the
  contract only after an annotation that reaches infinity. What it builds holds exactly its arguments.
\<close>

theorem NewSliceAssignment_contract:
  assumes "ranges_over range_map annotations" and "wf_slice (swr_Slice swr)"
    and "\<forall>l \<in> ran annotations. \<forall>a \<in> set l. wf_slice (Subslice a)"
  shows "NewSliceAssignment range_map swr gen annotations load = Inr sa \<longleftrightarrow>
    sa = \<lparr>sa_SliceWithResources = swr, sa_Generation = gen,
          sa_SubsliceAnnotationsByResource = annotations, sa_PrimaryRateLoadOpt = load\<rparr>
    \<and> gen \<noteq> EmptyGeneration \<and> load_ok load
    \<and> (\<forall>r l. annotations r = Some l \<longrightarrow> annotations_ok swr gen r l \<or> escapes_check swr gen r l)"
proof -
  have "check_resource swr gen r l = Inr () \<longleftrightarrow> annotations_ok swr gen r l \<or> escapes_check swr gen r l"
    if "annotations r = Some l" for r l
    using assms(2,3) that by (intro check_resource_iff) (auto simp: ran_def)
  then show ?thesis
    by (auto simp: NewSliceAssignment_Inr_iff [OF assms(1)])
qed

definition sample_squid :: squid where
  "sample_squid = \<lparr>ResourceAddress = ''10.0.0.1'', CreationTimeMillis = 1, ResourceUUID = ''u''\<rparr>"

definition sample_slice :: "byte list \<Rightarrow> high_slice_key \<Rightarrow> slice" where
  "sample_slice low high = \<lparr>LowInclusive = NewSliceKey low, HighExclusive = high\<rparr>"

definition sample_swr :: slice_with_resources where
  "sample_swr = \<lparr>swr_Slice = sample_slice [] InfinityKey, swr_Resources = [sample_squid]\<rparr>"

definition sample_generation :: generation where
  "sample_generation = \<lparr>Incarnation = \<lparr>inc_value = 1\<rparr>, Number = 7\<rparr>"

definition sample_annotations :: "slice list \<Rightarrow> annotation_map" where
  "sample_annotations ss = [sample_squid \<mapsto> map (\<lambda>s. NewSubsliceAnnotation s 3 None) ss]"

definition sample_range :: range_order where
  "sample_range m = (if m sample_squid = None then [] else [sample_squid])"

lemma sample_simps [simp]:
  "ranges_over sample_range (sample_annotations ss)"
  "wf_slice (sample_slice low high) \<longleftrightarrow> wf_high high \<and> Fin low < high_point high"
  "swr_Slice sample_swr = sample_slice [] InfinityKey" "swr_Resources sample_swr = [sample_squid]"
  "sample_generation \<noteq> EmptyGeneration" "Number sample_generation = 7"
  "slice_keys (sample_slice low high) = {b. low \<le> b \<and> Fin b < high_point high}"
  "LowInclusive (sample_slice low high) = NewSliceKey low" "HighExclusive (sample_slice low high) = high"
  by (auto simp: ranges_over_def sample_range_def sample_annotations_def sample_slice_def sample_swr_def
      sample_generation_def EmptyGeneration_def slice_keys_def)

theorem NewSliceAssignment_contract_witness:
  "\<exists>sa. NewSliceAssignment sample_range sample_swr sample_generation
      (sample_annotations [sample_slice [2] (NewHighSliceKey (NewSliceKey [4])), sample_slice [4] InfinityKey])
      None = Inr sa"
proof -
  let ?m = "sample_annotations [sample_slice [2] (NewHighSliceKey (NewSliceKey [4])), sample_slice [4] InfinityKey]"
  have range: "ranges_over sample_range ?m"
    by (rule sample_simps)
  have hyps: "wf_slice (swr_Slice sample_swr)"
    "\<forall>l \<in> ran ?m. \<forall>a \<in> set l. wf_slice (Subslice a)"
    by (auto simp: sample_annotations_def NewSubsliceAnnotation_def)
  have "load_ok None" "\<forall>r l. ?m r = Some l \<longrightarrow> annotations_ok sample_swr sample_generation r l"
    by (auto simp: sample_annotations_def NewSubsliceAnnotation_def annotations_ok_def ascending_def load_ok_def
        split: if_splits)
  then show ?thesis
    using NewSliceAssignment_contract [OF range hyps, of sample_generation None] by auto
qed

text \<open>
  C33: The order check of \<open>NewSliceAssignment\<close> is switched off by an annotation that reaches infinity, and only by
  that: take any accepted assignment and append to the annotations of one resource another one, good in
  itself, that starts before the last of them ends. If that one reaches infinity the new one is accepted
  although it overlaps it or lies below it, in violation of the contract; otherwise the assignment is rejected
  as not ordered.
\<close>

theorem annotation_after_infinity_accepted:
  assumes "NewSliceAssignment range_map swr gen (annotations(r \<mapsto> as @ [a])) load = Inr sa"
    and "ranges_over range_map (annotations(r \<mapsto> as @ [a]))" and "ranges_over range_map (annotations(r \<mapsto> as @ [a, b]))"
    and "wf_slice (swr_Slice swr)" and "\<forall>x \<in> set (as @ [a, b]). wf_slice (Subslice x)"
    and "step_ok gen r b" and "high_end (Subslice b) \<le> high_end (swr_Slice swr)"
    and "Fin (low_bytes (Subslice b)) < high_end (Subslice a)"
  shows "if high_end (Subslice a) = PInf
    then (\<exists>sa'. NewSliceAssignment range_map swr gen (annotations(r \<mapsto> as @ [a, b])) load = Inr sa')
      \<and> \<not> annotations_ok swr gen r (as @ [a, b])
    else NewSliceAssignment range_map swr gen (annotations(r \<mapsto> as @ [a, b])) load = Inl (Error AnnotationsNotOrdered)"
proof -
  have ok: "gen \<noteq> EmptyGeneration" "load_ok load" "check_resource swr gen r (as @ [a]) = Inr ()"
      "\<forall>r' l. r' \<noteq> r \<longrightarrow> annotations r' = Some l \<longrightarrow> check_resource swr gen r' l = Inr ()"
    using assms(1) unfolding NewSliceAssignment_Inr_iff [OF assms(2)] by (simp_all split: if_splits)
  note checked = appended_annotation [OF ok(3) assms(4-8)]
  have "\<not> ascending (map Subslice (as @ [a, b]))"
    using assms(8) by (auto simp: ascending_def sorted_wrt_append)
  then have "\<not> annotations_ok swr gen r (as @ [a, b])"
    by (simp add: annotations_ok_def)
  then show ?thesis
    using checked ok by (auto simp: NewSliceAssignment_Inr_iff [OF assms(3)] intro: NewSliceAssignment_Inl [OF assms(3)])
qed

theorem annotation_after_infinity_accepted_witness:
  "\<exists>sa. NewSliceAssignment sample_range \<lparr>swr_Slice = sample_slice [5] InfinityKey, swr_Resources = [sample_squid]\<rparr>
     sample_generation (sample_annotations [sample_slice [5] InfinityKey, sample_slice [2] (NewHighSliceKey (NewSliceKey [9]))])
     None = Inr sa"
proof -
  let ?swr = "\<lparr>swr_Slice = sample_slice [5] InfinityKey, swr_Resources = [sample_squid]\<rparr>"
  let ?ann = "\<lambda>s. NewSubsliceAnnotation s 3 None"
  let ?a = "sample_slice [5] InfinityKey" and ?b = "sample_slice [2] (NewHighSliceKey (NewSliceKey [9]))"
  have maps: "sample_annotations [?a] = Map.empty(sample_squid \<mapsto> [] @ [?ann ?a])"
      "sample_annotations [?a, ?b] = Map.empty(sample_squid \<mapsto> [] @ [?ann ?a, ?ann ?b])"
    by (simp_all add: sample_annotations_def)
  have "check_resource ?swr sample_generation sample_squid [?ann ?a] = Inr ()"
    by (simp add: check_resource_def NewSubsliceAnnotation_def order_simps)
  then have "\<exists>sa. NewSliceAssignment sample_range ?swr sample_generation (sample_annotations [?a]) None = Inr sa"
    using NewSliceAssignment_Inr_iff [OF sample_simps(1) [of "[?a]"], of ?swr sample_generation None]
    by (simp add: sample_annotations_def load_ok_def)
  then obtain sa where sa: "NewSliceAssignment sample_range ?swr sample_generation (sample_annotations [?a]) None = Inr sa" ..
  show ?thesis
    using annotation_after_infinity_accepted [OF sa [unfolded maps] sample_simps(1) [of "[?a]", unfolded maps]
        sample_simps(1) [of "[?a, ?b]", unfolded maps]]
    by (simp add: maps NewSubsliceAnnotation_def step_ok_def)
qed

text \<open>
  Go's random map order does not show: two runs of \<open>NewSliceAssignment\<close> on the same arguments that
  visit the annotated resources in different orders agree on whether they succeed and on what they build
  (which of several errors is reported may differ).
\<close>

lemma NewSliceAssignment_order_independent:
  assumes "ranges_over order1 annotations" and "ranges_over order2 annotations"
  shows "NewSliceAssignment order1 swr gen annotations load = Inr sa \<longleftrightarrow>
    NewSliceAssignment order2 swr gen annotations load = Inr sa"
  by (simp add: NewSliceAssignment_Inr_iff [OF assms(1)] NewSliceAssignment_Inr_iff [OF assms(2)])

definition other_squid :: squid where
  "other_squid = sample_squid\<lparr>ResourceUUID := ''v''\<rparr>"

lemma other_squid [simp]: "sample_squid \<noteq> other_squid" "other_squid \<noteq> sample_squid"
  by (simp_all add: other_squid_def sample_squid_def)

text \<open>
  C25: An assignment made by the constructors has a complete slice map whose slices belong to its
  incarnation and are not newer than it, so every key has exactly one owner entry, \<open>LookUp\<close> returns it
  without a panic, and it has at least one resource.
\<close>

theorem NewAssignment_complete:
  assumes "NewSliceMap sa_GetSlice sas = Inr sm" and "NewAssignment gen frozen mode (Some sm) = Inr a"
    and "\<forall>sa \<in> set sas. wf_slice (sa_GetSlice sa) \<and> valid_slice_assignment sa"
  shows "a_Generation a = gen \<and> gen \<noteq> EmptyGeneration \<and> valid_assignment a
    \<and> (\<exists>!sa. sa \<in> set sas \<and> k \<in> slice_keys (sa_GetSlice sa))
    \<and> (\<exists>sa \<in> set sas. assignment_LookUp a (NewSliceKey k) = Inr sa \<and> k \<in> slice_keys (sa_GetSlice sa)
         \<and> sa_Resources sa \<noteq> [] \<and> Incarnation (sa_Generation sa) = Incarnation gen
         \<and> \<not> gen_Less gen (sa_Generation sa))"
proof -
  have sm: "valid_map sa_GetSlice sm" "entries sm = sas"
    using NewSliceMap_InrD [OF assms(1)] assms(3) by auto
  then have a: "valid_assignment a" "a_Generation a = gen" "assignment_members a = sas"
    using NewAssignment_valid [OF assms(2) sm(1)] assms(3) by (auto simp: assignment_members_def)
  have gens: "\<forall>sa \<in> set sas. generations_ok gen sa" "gen \<noteq> EmptyGeneration"
    using assms(2) sm(2) by (auto simp: NewAssignment_Inr_iff)
  show ?thesis
    using assignment_directory.look_up_ex1 [OF a(1), of "NewSliceKey k"]
      assignment_directory.look_up_finds [OF a(1), of "NewSliceKey k"] a gens assms(3)
    by (auto simp: generations_ok_def order_simps not_less valid_slice_assignment_def)
qed

definition sample_entry :: slice_assignment where
  "sample_entry =
     \<lparr>sa_SliceWithResources = sample_swr, sa_Generation = sample_generation,
      sa_SubsliceAnnotationsByResource = Map.empty, sa_PrimaryRateLoadOpt = None\<rparr>"

definition sample_assignment :: assignment where
  "sample_assignment =
     \<lparr>a_Generation = sample_generation, a_IsFrozen = False, a_ConsistencyMode = ConsistencyModeEventual,
      a_SliceMap = Some \<lparr>entries = [sample_entry]\<rparr>\<rparr>"

lemma sample_entry_simps [simp]:
  "sa_GetSlice sample_entry = sample_slice [] InfinityKey" "sa_Resources sample_entry = [sample_squid]"
  "valid_slice_assignment sample_entry" "generations_ok sample_generation sample_entry"
  "sa_Generation sample_entry = sample_generation" "sa_PrimaryRateLoadOpt sample_entry = None"
  "sa_SubsliceAnnotationsByResource sample_entry = Map.empty"
  by (simp_all add: sample_entry_def sa_GetSlice_def sa_Resources_def valid_slice_assignment_def
      generations_ok_def load_ok_def)

lemma sample_assignment_made:
  "NewSliceMap sa_GetSlice [sample_entry] = Inr \<lparr>entries = [sample_entry]\<rparr>"
  "NewAssignment sample_generation False ConsistencyModeEventual (Some \<lparr>entries = [sample_entry]\<rparr>)
     = Inr sample_assignment"
  using NewSliceMap_valid [of "[sample_entry]" sa_GetSlice]
  by (simp_all add: NewAssignment_Inr_iff sample_assignment_def)

lemma sample_assignment_valid [simp]:
  "valid_assignment sample_assignment" "assignment_members sample_assignment = [sample_entry]"
  "a_Generation sample_assignment = sample_generation"
  by (simp_all add: valid_assignment_def sample_assignment_def valid_map_def assignment_members_def)

theorem NewAssignment_complete_witness:
  "assignment_LookUp sample_assignment (NewSliceKey [3]) = Inr sample_entry
   \<and> \<not> gen_Less sample_generation (sa_Generation sample_entry)"
  using NewAssignment_complete [OF sample_assignment_made, of "[3]"] by simp

text \<open>
  C32: The ownership queries of a valid assignment agree with one another: a key is assigned to a resource
  exactly when one of the slices \<open>GetAssignedSlices\<close> lists for the resource contains the key, none of the
  queries panics, and \<open>Resources\<close> lists exactly the resources that own a slice, each once.
\<close>

theorem ownership_queries_agree:
  assumes "valid_assignment a"
  shows "\<exists>slices rs. GetAssignedSlices a resource = Inr slices \<and> assignment_Resources a = Inr rs
    \<and> IsAssignedKey a (NewSliceKey k) resource = Inr (\<exists>s \<in> set slices. k \<in> slice_keys s)
    \<and> distinct rs \<and> (resource \<in> set rs \<longleftrightarrow> slices \<noteq> [])"
proof -
  let ?slices = "map sa_GetSlice (filter (owns resource) (assignment_members a))"
  have slices: "GetAssignedSlices a resource = Inr ?slices"
    by (simp add: GetAssignedSlices_def SliceAssignments_valid assms)
  obtain sa where sa: "sa \<in> set (assignment_members a)" "assignment_LookUp a (NewSliceKey k) = Inr sa"
    "k \<in> slice_keys (sa_GetSlice sa)"
    using assignment_directory.look_up_finds [OF assms, of "NewSliceKey k"] by auto
  then have "IsAssignedKey a (NewSliceKey k) resource = Inr (\<exists>s \<in> set ?slices. k \<in> slice_keys s)"
    using assignment_directory.members_disjoint [OF assms sa(1)] by (auto simp: IsAssignedKey_def)
  moreover obtain rs where "assignment_Resources a = Inr rs" "distinct rs"
    "set rs = (\<Union>sa \<in> set (assignment_members a). set (sa_Resources sa))"
    by (rule assignment_Resources_correct [OF assms])
  ultimately show ?thesis
    using slices by (auto simp: filter_empty_conv)
qed

theorem ownership_queries_agree_witness:
  "\<exists>slices. GetAssignedSlices sample_assignment sample_squid = Inr slices
    \<and> IsAssignedKey sample_assignment (NewSliceKey [1]) sample_squid = Inr (\<exists>s \<in> set slices. [1] \<in> slice_keys s)"
  using ownership_queries_agree [OF sample_assignment_valid(1), of sample_squid "[1]"] by blast

end
