(* ===== verification/AtomicCell.thy ===== *)
theory AtomicCell
  imports Assignments
begin

text \<open>
  \<open>pkg/common/atomic_assignment.go\<close>: the cell that holds the current assignment, as one goroutine sees it,
  with the contract readers rely on. \<open>ConcurrentCell\<close> justifies this view for many goroutines.
\<close>

section \<open>The operations\<close>

text \<open>
  A listener is an opaque callback, identified by a number; calling one is an entry \<open>(listener, assignment)\<close>
  of the log of calls an operation returns.
\<close>

type_synonym listener = nat

record cell =
  c_ptr :: "assignment option"
  c_listeners :: "listener list"

definition NewAtomicAssignmentCell :: "assignment option \<Rightarrow> cell" where
  "NewAtomicAssignmentCell initial = \<lparr>c_ptr = initial, c_listeners = []\<rparr>"

definition cell_Get :: "cell \<Rightarrow> assignment option" where
  "cell_Get c = c_ptr c"

definition notifyListeners :: "cell \<Rightarrow> assignment \<Rightarrow> (listener \<times> assignment) list" where
  "notifyListeners c newAssignment = map (\<lambda>l. (l, newAssignment)) (c_listeners c)"

definition cell_Set :: "cell \<Rightarrow> assignment option \<Rightarrow> bool \<times> cell \<times> (listener \<times> assignment) list" where
  "cell_Set c newAssignment =
     (case newAssignment of
        None \<Rightarrow> (False, c, [])
      | Some new \<Rightarrow>
          if (case c_ptr c of
                None \<Rightarrow> False
              | Some old \<Rightarrow> gen_Compare (a_Generation new) (a_Generation old) < 0)
          then (False, c, [])
          else let c' = c\<lparr>c_ptr := Some new\<rparr> in (True, c', notifyListeners c' new))"

definition AddListener :: "cell \<Rightarrow> listener \<Rightarrow> cell" where
  "AddListener c l = c\<lparr>c_listeners := c_listeners c @ [l]\<rparr>"

section \<open>The contract of a versioned cell\<close>

text \<open>
  What the watcher and the router rely on: a value is stored unless the cell holds a later version, and
  nothing else changes what the cell holds.
\<close>

locale versioned_cell =
  fixes put :: "'c \<Rightarrow> 'a \<Rightarrow> 'c" and get :: "'c \<Rightarrow> 'a option" and version :: "'a \<Rightarrow> 'v::linorder"
  assumes get_put: "get (put c a) =
      (case get c of Some b \<Rightarrow> if version a < version b then Some b else Some a | None \<Rightarrow> Some a)"
begin

definition level :: "'c \<Rightarrow> 'v option" where
  "level c = map_option version (get c)"

lemma put_get_some: "get (put c a) \<noteq> None"
  by (simp add: get_put split: option.splits)

lemma put_newer: "\<exists>b. get (put c a) = Some b \<and> version a \<le> version b"
  by (auto simp: get_put split: option.splits)

lemma put_version: "get c = Some b \<Longrightarrow> \<exists>b'. get (put c a) = Some b' \<and> version b \<le> version b'"
  by (auto simp: get_put)

lemma put_cases: "get (put c a) = Some a \<or> get (put c a) = get c"
  by (simp add: get_put split: option.splits)

text \<open>Whatever the order in which values arrive, the cell ends with the greatest version.\<close>

lemma get_puts:
  "\<exists>b. get (foldl put c (as @ [a])) = Some b \<and> (b \<in> set (as @ [a]) \<or> get c = Some b)
     \<and> (\<forall>x \<in> set (as @ [a]). version x \<le> version b)
     \<and> (\<forall>x. get c = Some x \<longrightarrow> version x \<le> version b)"
proof (induction as arbitrary: a rule: rev_induct)
  case Nil
  show ?case by (auto simp: get_put not_less split: option.splits)
next
  case (snoc a' as)
  from snoc.IH [of a'] obtain b where b: "get (foldl put c (as @ [a'])) = Some b"
    "b \<in> set (as @ [a']) \<or> get c = Some b" "\<forall>x \<in> set (as @ [a']). version x \<le> version b"
    "\<forall>x. get c = Some x \<longrightarrow> version x \<le> version b"
    by blast
  show ?case
  proof (cases "version a < version b")
    case True
    with b show ?thesis by (intro exI [of _ b]) (auto simp: get_put)
  next
    case False
    with b show ?thesis by (intro exI [of _ a]) (auto simp: get_put not_less intro: order_trans)
  qed
qed

lemma versions_order_free:
  assumes "set as = set bs" and "as \<noteq> []"
  shows "level (foldl put c as) = level (foldl put c bs)"
proof -
  have "bs \<noteq> []" using assms by auto
  then obtain as' a bs' b where "as = as' @ [a]" "bs = bs' @ [b]"
    using assms(2) by (metis rev_exhaust)
  then obtain x y where "get (foldl put c as) = Some x" "get (foldl put c bs) = Some y"
    "x \<in> set as \<or> get c = Some x" "y \<in> set bs \<or> get c = Some y"
    "\<forall>z \<in> set as. version z \<le> version x" "\<forall>z \<in> set bs. version z \<le> version y"
    "\<forall>z. get c = Some z \<longrightarrow> version z \<le> version x" "\<forall>z. get c = Some z \<longrightarrow> version z \<le> version y"
    using get_puts [of c as' a] get_puts [of c bs' b] by auto
  then show ?thesis
    using assms(1) by (auto simp: level_def intro: antisym)
qed

end

definition a_rank :: "assignment \<Rightarrow> u64 \<times> u64" where
  "a_rank a = gen_rank (a_Generation a)"

definition cell_put :: "cell \<Rightarrow> assignment \<Rightarrow> cell" where
  "cell_put c a = fst (snd (cell_Set c (Some a)))"

interpretation assignment_cell: versioned_cell cell_put cell_Get a_rank
  by unfold_locales
    (simp add: cell_put_def cell_Set_def cell_Get_def a_rank_def order_simps Let_def split: option.splits)

section \<open>What a series of calls leaves\<close>

text \<open>
  Seen by one goroutine, \<open>Set\<close> keeps the cell at the greatest generation it has been given: after any
  series of calls the cell holds one of the assignments given (or the one it held) and none of them has a
  greater generation, whatever the order of the calls; a rejected call changes and notifies nothing.
\<close>

lemma Set_keeps_greatest:
  "(\<exists>b. cell_Get (foldl cell_put c (as @ [a])) = Some b \<and> (b \<in> set (as @ [a]) \<or> cell_Get c = Some b)
      \<and> (\<forall>x \<in> set (a # as). \<not> gen_Less (a_Generation b) (a_Generation x)))
   \<and> (\<forall>x c' log. cell_Set c x = (False, c', log) \<longrightarrow> c' = c \<and> log = [])"
proof -
  obtain b where "cell_Get (foldl cell_put c (as @ [a])) = Some b"
    "b \<in> set (as @ [a]) \<or> cell_Get c = Some b" "\<forall>x \<in> set (as @ [a]). a_rank x \<le> a_rank b"
    using assignment_cell.get_puts [of c as a] by blast
  then show ?thesis
    by (auto simp: a_rank_def order_simps not_less cell_Set_def Let_def split: option.splits if_splits)
qed

end
