(* ===== verification/ConcurrentCell.thy ===== *)
theory ConcurrentCell
  imports AtomicCell
begin

text \<open>
  The cell of \<open>pkg/common/atomic_assignment.go\<close> under concurrency: its compare-and-swap loop and its
  read-write lock, one step per atomic access. What the goroutines do amounts to the operations of \<open>AtomicCell\<close>
  done one after the other.
\<close>

section \<open>The concurrent algorithm\<close>

text \<open>
  Pointers are numbers and \<open>h\<close> says which (immutable) assignment each points to; \<open>CompareAndSwap\<close>
  compares pointers. A goroutine is outside; or at a point of \<open>Set\<close>: at the top of the loop, between the load
  with its generation check and the swap, between the swap and taking the read lock, calling the listeners
  that remain, or about to return; or at a point of \<open>AddListener\<close>: about to lock, waiting for the readers to
  leave, or about to unlock.
\<close>

type_synonym tid = nat
type_synonym pointer = nat
type_synonym heap = "pointer \<Rightarrow> assignment"

datatype pc =
    Outside
  | Looping pointer
  | Loaded "pointer option" pointer
  | Swapped pointer
  | Notifying pointer "listener list"
  | Returning bool
  | Locking listener
  | Draining listener
  | Unlocking

text \<open>
  Of the \<open>sync.RWMutex\<close>: the goroutines that hold it for reading, and the writer that has announced itself.
  From its announcement to its unlocking a writer keeps new readers out. (Go lets the readers that wait then
  in before the next writer; here the next writer may come first.)
\<close>

record cell_state =
  cs_ptr :: "pointer option"
  cs_listeners :: "listener list"
  cs_readers :: "tid set"
  cs_writer :: "tid option"
  cs_pc :: "tid \<Rightarrow> pc"

datatype label =
    Call tid "pointer option"
  | Load tid
  | Reject tid pointer
  | Swap tid pointer
  | Retry tid
  | RLock tid
  | Notify tid listener pointer
  | RUnlock tid
  | Return tid bool
  | AddCall tid listener
  | Announce tid
  | Append tid listener
  | Unlock tid
  | Get tid "pointer option"

text \<open>The monotonicity check of the loop: \<open>newAssignment.Generation.Compare(old.Generation) < 0\<close> rejects.\<close>

definition admissible :: "heap \<Rightarrow> pointer option \<Rightarrow> pointer \<Rightarrow> bool" where
  "admissible h old p \<longleftrightarrow>
     (case old of
        None \<Rightarrow> True
      | Some q \<Rightarrow> \<not> gen_Compare (a_Generation (h p)) (a_Generation (h q)) < 0)"

definition goto :: "cell_state \<Rightarrow> tid \<Rightarrow> pc \<Rightarrow> cell_state" where
  "goto s t p = s\<lparr>cs_pc := (cs_pc s)(t := p)\<rparr>"

text \<open>A listener is a callback that returns and does not itself call \<open>AddListener\<close>, which would wait for the
  read lock its caller holds.\<close>

inductive cell_step :: "heap \<Rightarrow> cell_state \<Rightarrow> label \<Rightarrow> cell_state \<Rightarrow> bool" for h :: heap where
  call: "cs_pc s t = Outside \<Longrightarrow> cell_step h s (Call t (Some p)) (goto s t (Looping p))"
| call_nil: "cs_pc s t = Outside \<Longrightarrow> cell_step h s (Call t None) (goto s t (Returning False))"
| load: "cs_pc s t = Looping p \<Longrightarrow> admissible h (cs_ptr s) p \<Longrightarrow>
    cell_step h s (Load t) (goto s t (Loaded (cs_ptr s) p))"
| reject: "cs_pc s t = Looping p \<Longrightarrow> \<not> admissible h (cs_ptr s) p \<Longrightarrow>
    cell_step h s (Reject t p) (goto s t (Returning False))"
| swap: "cs_pc s t = Loaded old p \<Longrightarrow> cs_ptr s = old \<Longrightarrow>
    cell_step h s (Swap t p) (goto (s\<lparr>cs_ptr := Some p\<rparr>) t (Swapped p))"
| retry: "cs_pc s t = Loaded old p \<Longrightarrow> cs_ptr s \<noteq> old \<Longrightarrow> cell_step h s (Retry t) (goto s t (Looping p))"
| rlock: "cs_pc s t = Swapped p \<Longrightarrow> cs_writer s = None \<Longrightarrow>
    cell_step h s (RLock t)
      (goto (s\<lparr>cs_readers := insert t (cs_readers s)\<rparr>) t (Notifying p (cs_listeners s)))"
| notify: "cs_pc s t = Notifying p (l # ls) \<Longrightarrow> cell_step h s (Notify t l p) (goto s t (Notifying p ls))"
| runlock: "cs_pc s t = Notifying p [] \<Longrightarrow>
    cell_step h s (RUnlock t) (goto (s\<lparr>cs_readers := cs_readers s - {t}\<rparr>) t (Returning True))"
| return: "cs_pc s t = Returning b \<Longrightarrow> cell_step h s (Return t b) (goto s t Outside)"
| add_call: "cs_pc s t = Outside \<Longrightarrow> cell_step h s (AddCall t l) (goto s t (Locking l))"
| announce: "cs_pc s t = Locking l \<Longrightarrow> cs_writer s = None \<Longrightarrow>
    cell_step h s (Announce t) (goto (s\<lparr>cs_writer := Some t\<rparr>) t (Draining l))"
| append: "cs_pc s t = Draining l \<Longrightarrow> cs_readers s = {} \<Longrightarrow>
    cell_step h s (Append t l) (goto (s\<lparr>cs_listeners := cs_listeners s @ [l]\<rparr>) t Unlocking)"
| unlock: "cs_pc s t = Unlocking \<Longrightarrow> cell_step h s (Unlock t) (goto (s\<lparr>cs_writer := None\<rparr>) t Outside)"
| get: "cell_step h s (Get t (cs_ptr s)) s"

inductive_simps cell_step_simps:
  "cell_step h s (Call t x) s'" "cell_step h s (Load t) s'" "cell_step h s (Reject t p) s'"
  "cell_step h s (Swap t p) s'" "cell_step h s (Retry t) s'" "cell_step h s (RLock t) s'"
  "cell_step h s (Notify t l p) s'" "cell_step h s (RUnlock t) s'" "cell_step h s (Return t b) s'"
  "cell_step h s (AddCall t l) s'" "cell_step h s (Announce t) s'" "cell_step h s (Append t l) s'"
  "cell_step h s (Unlock t) s'" "cell_step h s (Get t x) s'"

abbreviation cell_run :: "heap \<Rightarrow> cell_state \<Rightarrow> label list \<Rightarrow> cell_state \<Rightarrow> bool" where
  "cell_run h \<equiv> run_of (cell_step h)"

lemmas cell_run_Cons [simp] = run_Cons [of "cell_step h" for h]

definition initial_cell :: "pointer option \<Rightarrow> cell_state" where
  "initial_cell p = \<lparr>cs_ptr = p, cs_listeners = [], cs_readers = {}, cs_writer = None, cs_pc = (\<lambda>_. Outside)\<rparr>"

lemma goto_simps [simp]:
  "cs_ptr (goto s t p) = cs_ptr s" "cs_listeners (goto s t p) = cs_listeners s"
  "cs_readers (goto s t p) = cs_readers s" "cs_writer (goto s t p) = cs_writer s"
  "cs_pc (goto s t p) u = (if u = t then p else cs_pc s u)"
  by (simp_all add: goto_def)

section \<open>Invariant\<close>

text \<open>
  A loaded pointer has passed the check against the new one; the readers are the goroutines that call
  listeners, finitely many; the writer is the one that drains or unlocks, and when it unlocks nobody reads.
\<close>

fun holds_write :: "pc \<Rightarrow> bool" where
  "holds_write (Draining l) = True"
| "holds_write Unlocking = True"
| "holds_write _ = False"

fun holds_read :: "pc \<Rightarrow> bool" where
  "holds_read (Notifying p ls) = True"
| "holds_read _ = False"

definition cell_inv :: "heap \<Rightarrow> cell_state \<Rightarrow> bool" where
  "cell_inv h s \<longleftrightarrow>
     (\<forall>t old p. cs_pc s t = Loaded old p \<longrightarrow> admissible h old p)
     \<and> (\<forall>t. t \<in> cs_readers s \<longleftrightarrow> holds_read (cs_pc s t)) \<and> finite (cs_readers s)
     \<and> (\<forall>t. cs_writer s = Some t \<longleftrightarrow> holds_write (cs_pc s t))
     \<and> (\<forall>t. cs_pc s t = Unlocking \<longrightarrow> cs_readers s = {})"

lemma cell_inv_initial: "cell_inv h (initial_cell p)"
  by (simp add: cell_inv_def initial_cell_def)

lemma cell_inv_step: "cell_step h s l s' \<Longrightarrow> cell_inv h s \<Longrightarrow> cell_inv h s'"
proof (induction rule: cell_step.induct)
  case (rlock s t p)
  then have "cs_pc s u \<noteq> Unlocking" for u
    by (auto simp: cell_inv_def dest: spec [of _ u])
  with rlock show ?case by (auto simp: cell_inv_def)
next
  case (unlock s t)
  then have "cs_writer s = Some t" by (simp add: cell_inv_def)
  with unlock show ?case by (auto simp: cell_inv_def)
qed (auto simp: cell_inv_def split: if_splits)

lemma cell_inv_run: "cell_run h s ls s' \<Longrightarrow> cell_inv h s \<Longrightarrow> cell_inv h s'"
  by (erule run_invariant) (auto intro: cell_inv_step)

section \<open>Linearizability\<close>

text \<open>
  The specification is the sequential cell: a history of operations, each with what it returned, replayed one
  operation after the other.
\<close>

datatype cell_op = SetOp pointer bool | GetOp "pointer option" | AddOp listener

fun replay :: "heap \<Rightarrow> cell \<Rightarrow> cell_op list \<Rightarrow> cell option" where
  "replay h c [] = Some c"
| "replay h c (SetOp p b # ops) =
     (let (answer, c', log) = cell_Set c (Some (h p)) in if answer = b then replay h c' ops else None)"
| "replay h c (GetOp x # ops) = (if cell_Get c = map_option h x then replay h c ops else None)"
| "replay h c (AddOp l # ops) = replay h (AddListener c l) ops"

lemma replay_append:
  "replay h c (ops @ ops') = (case replay h c ops of None \<Rightarrow> None | Some c' \<Rightarrow> replay h c' ops')"
  by (induction h c ops rule: replay.induct) (auto simp: Let_def split: prod.split)

definition cell_of :: "heap \<Rightarrow> cell_state \<Rightarrow> cell" where
  "cell_of h s = \<lparr>c_ptr = map_option h (cs_ptr s), c_listeners = cs_listeners s\<rparr>"

text \<open>The linearization points: the successful swap and the rejecting load, the read, the registration.\<close>

fun lin_point :: "label \<Rightarrow> cell_op list" where
  "lin_point (Swap t p) = [SetOp p True]"
| "lin_point (Reject t p) = [SetOp p False]"
| "lin_point (Get t x) = [GetOp x]"
| "lin_point (Append t l) = [AddOp l]"
| "lin_point _ = []"

definition lin_points :: "label list \<Rightarrow> cell_op list" where
  "lin_points ls = concat (map lin_point ls)"

lemma cell_Set_admissible:
  "cell_Set (cell_of h s) (Some (h p)) =
     (if admissible h (cs_ptr s) p
      then (True, cell_of h (s\<lparr>cs_ptr := Some p\<rparr>), map (\<lambda>l. (l, h p)) (cs_listeners s))
      else (False, cell_of h s, []))"
  by (simp add: cell_Set_def cell_of_def admissible_def notifyListeners_def Let_def split: option.splits)

lemma cell_of_goto [simp]:
  "cell_of h (goto s t p) = cell_of h s" "cell_of h (s\<lparr>cs_readers := R\<rparr>) = cell_of h s"
  "cell_of h (s\<lparr>cs_writer := w\<rparr>) = cell_of h s"
  "cell_of h (s\<lparr>cs_listeners := cs_listeners s @ [l]\<rparr>) = AddListener (cell_of h s) l"
  by (simp_all add: cell_of_def AddListener_def)

lemma step_replay: "cell_step h s l s' \<Longrightarrow> cell_inv h s \<Longrightarrow> replay h (cell_of h s) (lin_point l) = Some (cell_of h s')"
proof (induction rule: cell_step.induct)
  case (get s t)
  then show ?case by (simp add: cell_of_def cell_Get_def)
qed (auto simp: cell_Set_admissible cell_inv_def)

lemma run_replay:
  "cell_run h s ls s' \<Longrightarrow> cell_inv h s \<Longrightarrow> replay h (cell_of h s) (lin_points ls) = Some (cell_of h s')"
  by (induction rule: run_of.induct)
    (auto simp: lin_points_def replay_append step_replay cell_inv_run)

text \<open>What the trace so far says about the call of \<open>Set\<close> that goroutine \<open>t\<close> is in: the answer fixed at its
  linearization point.\<close>

fun answer_after :: "tid \<Rightarrow> bool option \<Rightarrow> label \<Rightarrow> bool option" where
  "answer_after t b (Call u x) = (if u = t then (case x of None \<Rightarrow> Some False | Some _ \<Rightarrow> None) else b)"
| "answer_after t b (Swap u p) = (if u = t then Some True else b)"
| "answer_after t b (Reject u p) = (if u = t then Some False else b)"
| "answer_after t b _ = b"

definition answer :: "tid \<Rightarrow> label list \<Rightarrow> bool option" where
  "answer t ls = foldl (answer_after t) None ls"

definition answered :: "pc \<Rightarrow> bool option \<Rightarrow> bool" where
  "answered q b \<longleftrightarrow>
     (case q of
        Looping _ \<Rightarrow> b = None
      | Loaded _ _ \<Rightarrow> b = None
      | Swapped _ \<Rightarrow> b = Some True
      | Notifying _ _ \<Rightarrow> b = Some True
      | Returning r \<Rightarrow> b = Some r
      | _ \<Rightarrow> True)"

lemma answered_step:
  "cell_step h s l s' \<Longrightarrow> answered (cs_pc s t) b \<Longrightarrow> answered (cs_pc s' t) (answer_after t b l)"
  by (induction rule: cell_step.induct) (auto simp: answered_def)

lemma answered_run:
  "cell_run h s ls s' \<Longrightarrow> cs_pc s t = Outside \<Longrightarrow> answered (cs_pc s' t) (answer t ls)"
proof (induction rule: run_of.induct)
  case run_nil
  then show ?case by (simp add: answered_def answer_def)
next
  case (run_snoc ls s' l s'')
  then show ?case by (simp add: answer_def answered_step)
qed

section \<open>Monotonicity\<close>

definition at_least :: "heap \<Rightarrow> pointer option \<Rightarrow> pointer option \<Rightarrow> bool" where
  "at_least h x y \<longleftrightarrow>
     (case x of None \<Rightarrow> True
      | Some p \<Rightarrow> (case y of None \<Rightarrow> False | Some q \<Rightarrow> a_rank (h p) \<le> a_rank (h q)))"

lemma at_least_refl: "at_least h x x"
  by (auto simp: at_least_def split: option.splits)

lemma at_least_trans: "at_least h x y \<Longrightarrow> at_least h y z \<Longrightarrow> at_least h x z"
  by (auto simp: at_least_def split: option.splits)

lemma admissible_at_least: "admissible h x p \<Longrightarrow> at_least h x (Some p)"
  by (auto simp: admissible_def at_least_def a_rank_def order_simps not_less split: option.splits)

lemma step_at_least: "cell_step h s l s' \<Longrightarrow> cell_inv h s \<Longrightarrow> at_least h (cs_ptr s) (cs_ptr s')"
  by (induction rule: cell_step.induct) (auto simp: at_least_refl cell_inv_def intro: admissible_at_least)

lemma run_at_least: "cell_run h s ls s' \<Longrightarrow> cell_inv h s \<Longrightarrow> at_least h (cs_ptr s) (cs_ptr s')"
  by (induction rule: run_of.induct)
    (auto intro: at_least_refl at_least_trans step_at_least cell_inv_run)

section \<open>Notification\<close>

lemma nobody_reads: "cell_inv h s \<Longrightarrow> cs_readers s = {} \<Longrightarrow> cs_pc s t \<noteq> Notifying p ls"
  unfolding cell_inv_def by (metis empty_iff holds_read.simps(1))

text \<open>
  What one call of \<open>Set\<close> tells: the listeners goroutine \<open>t\<close> calls in a part of the trace, with what it passes.
  A call that is past its listeners took the read lock in a state \<open>s1\<close> and called each listener of that state, in
  order, with the pointer \<open>p\<close> it was called with.
\<close>

fun told :: "tid \<Rightarrow> label list \<Rightarrow> (listener \<times> pointer) list" where
  "told t [] = []"
| "told t (Notify u l p # ls) = (if u = t then (l, p) # told t ls else told t ls)"
| "told t (x # ls) = told t ls"

lemma told_append [simp]: "told t (xs @ ys) = told t xs @ told t ys"
  by (induction t xs rule: told.induct) auto

definition told_some :: "heap \<Rightarrow> tid \<Rightarrow> pointer \<Rightarrow> cell_state \<Rightarrow> label list \<Rightarrow> listener list \<Rightarrow> listener list \<Rightarrow> bool" where
  "told_some h t p s ys rest ls \<longleftrightarrow>
     (\<exists>us vs s1. ys = us @ RLock t # vs \<and> cell_run h s us s1 \<and> cs_listeners s1 = ls
        \<and> told t vs @ map (\<lambda>l. (l, p)) rest = map (\<lambda>l. (l, p)) ls \<and> Swap t p \<in> set us \<and> told t us = []
        \<and> (\<forall>u l. Append u l \<notin> set vs))"

definition told_all :: "heap \<Rightarrow> tid \<Rightarrow> pointer \<Rightarrow> cell_state \<Rightarrow> label list \<Rightarrow> bool" where
  "told_all h t p s ys \<longleftrightarrow>
     (\<exists>us vs ws s1. ys = us @ RLock t # vs @ RUnlock t # ws \<and> cell_run h s us s1
        \<and> told t vs = map (\<lambda>l. (l, p)) (cs_listeners s1) \<and> Swap t p \<in> set us \<and> told t us = []
        \<and> told t ws = [] \<and> (\<forall>u l. Append u l \<notin> set vs))"

text \<open>Where a call of \<open>Set\<close> with \<open>p\<close> stands after the trace \<open>ys\<close> since its call.\<close>

definition set_progress :: "heap \<Rightarrow> tid \<Rightarrow> pointer \<Rightarrow> cell_state \<Rightarrow> label list \<Rightarrow> cell_state \<Rightarrow> bool" where
  "set_progress h t p s ys s' \<longleftrightarrow>
     (case cs_pc s' t of
        Looping q \<Rightarrow> q = p \<and> told t ys = []
      | Loaded old q \<Rightarrow> q = p \<and> told t ys = []
      | Swapped q \<Rightarrow> q = p \<and> told t ys = [] \<and> Swap t p \<in> set ys
      | Notifying q rest \<Rightarrow> q = p \<and> told_some h t p s ys rest (cs_listeners s')
      | Returning b \<Rightarrow> b \<longrightarrow> told_all h t p s ys
      | _ \<Rightarrow> True)"

lemma told_some_start:
  "cell_run h s ys s1 \<Longrightarrow> Swap t p \<in> set ys \<Longrightarrow> told t ys = [] \<Longrightarrow>
    told_some h t p s (ys @ [RLock t]) (cs_listeners s1) (cs_listeners s1)"
  unfolding told_some_def by (intro exI [of _ ys] exI [of _ "[]"] exI [of _ s1]) simp

lemma told_some_other:
  assumes "told_some h t p s ys rest ls" and "told t [l] = []" and "\<forall>u x. l \<noteq> Append u x"
  shows "told_some h t p s (ys @ [l]) rest ls"
proof -
  obtain us vs s1 where "ys = us @ RLock t # vs" "cell_run h s us s1" "cs_listeners s1 = ls"
      "told t vs @ map (\<lambda>l. (l, p)) rest = map (\<lambda>l. (l, p)) ls" "Swap t p \<in> set us" "told t us = []"
      "\<forall>u l. Append u l \<notin> set vs"
    using assms(1) unfolding told_some_def by blast
  then show ?thesis
    using assms(2,3) unfolding told_some_def by (intro exI [of _ us] exI [of _ "vs @ [l]"] exI [of _ s1]) auto
qed

lemma told_some_notify:
  assumes "told_some h t p s ys (l # rest) ls"
  shows "told_some h t p s (ys @ [Notify t l p]) rest ls"
proof -
  obtain us vs s1 where "ys = us @ RLock t # vs" "cell_run h s us s1" "cs_listeners s1 = ls"
      "told t vs @ map (\<lambda>l. (l, p)) (l # rest) = map (\<lambda>l. (l, p)) ls" "Swap t p \<in> set us" "told t us = []"
      "\<forall>u l. Append u l \<notin> set vs"
    using assms unfolding told_some_def by blast
  then show ?thesis
    unfolding told_some_def by (intro exI [of _ us] exI [of _ "vs @ [Notify t l p]"] exI [of _ s1]) auto
qed

lemma told_some_done:
  assumes "told_some h t p s ys [] ls"
  shows "told_all h t p s (ys @ [RUnlock t])"
proof -
  obtain us vs s1 where "ys = us @ RLock t # vs" "cell_run h s us s1" "cs_listeners s1 = ls"
      "told t vs = map (\<lambda>l. (l, p)) ls" "Swap t p \<in> set us" "told t us = []" "\<forall>u l. Append u l \<notin> set vs"
    using assms unfolding told_some_def by auto
  then show ?thesis
    unfolding told_all_def by (intro exI [of _ us] exI [of _ vs] exI [of _ "[]"] exI [of _ s1]) auto
qed

lemma told_all_other:
  assumes "told_all h t p s ys" and "told t [l] = []"
  shows "told_all h t p s (ys @ [l])"
proof -
  obtain us vs ws s1 where "ys = us @ RLock t # vs @ RUnlock t # ws" "cell_run h s us s1"
      "told t vs = map (\<lambda>l. (l, p)) (cs_listeners s1)" "Swap t p \<in> set us" "told t us = []" "told t ws = []"
      "\<forall>u l. Append u l \<notin> set vs"
    using assms(1) unfolding told_all_def by blast
  then show ?thesis
    using assms(2) unfolding told_all_def
    by (intro exI [of _ us] exI [of _ vs] exI [of _ "ws @ [l]"] exI [of _ s1]) auto
qed

lemma setting_step:
  "cell_step h s1 l s2 \<Longrightarrow> cell_run h s ys s1 \<Longrightarrow> cell_inv h s1 \<Longrightarrow> set_progress h t p s ys s1 \<Longrightarrow>
    \<forall>x. l \<noteq> Call t x \<Longrightarrow> set_progress h t p s (ys @ [l]) s2"
proof (induction rule: cell_step.induct)
  case (append s1 u x)
  then show ?case
    using nobody_reads [of h s1] by (auto simp: set_progress_def told_all_other split: pc.splits)
qed (auto simp: set_progress_def told_some_start told_some_other told_some_notify told_some_done told_all_other
      split: pc.splits)

lemma setting_run:
  "cell_run h s ys s' \<Longrightarrow> cell_inv h s \<Longrightarrow> cs_pc s t = Looping p \<Longrightarrow> \<forall>x. Call t x \<notin> set ys \<Longrightarrow>
    set_progress h t p s ys s'"
proof (induction rule: run_of.induct)
  case run_nil
  then show ?case by (simp add: set_progress_def)
next
  case (run_snoc ls s' l s'')
  then show ?case by (auto intro!: setting_step [of h s' l s''] intro: cell_inv_run)
qed

text \<open>A goroutine never has more listeners to call than are registered.\<close>

lemma to_call_bound_step:
  "cell_step h s l s' \<Longrightarrow> \<forall>t p ls. cs_pc s t = Notifying p ls \<longrightarrow> length ls \<le> length (cs_listeners s) \<Longrightarrow>
    \<forall>t p ls. cs_pc s' t = Notifying p ls \<longrightarrow> length ls \<le> length (cs_listeners s')"
proof (induction rule: cell_step.induct)
  case (notify s t p l ls)
  then have "length (l # ls) \<le> length (cs_listeners s)" by blast
  with notify show ?case by auto
qed (auto intro: le_SucI)

lemma to_call_bound:
  "cell_run h (initial_cell p0) ls s \<Longrightarrow> cs_pc s t = Notifying p rest \<Longrightarrow> length rest \<le> length (cs_listeners s)"
  using run_invariant [of "cell_step h" "initial_cell p0" ls s
      "\<lambda>s. \<forall>t p ls. cs_pc s t = Notifying p ls \<longrightarrow> length ls \<le> length (cs_listeners s)"] to_call_bound_step
  by (simp add: initial_cell_def)

section \<open>Progress of \<open>Set\<close>\<close>

fun actor :: "label \<Rightarrow> tid" where
  "actor (Call t x) = t"
| "actor (Load t) = t"
| "actor (Reject t p) = t"
| "actor (Swap t p) = t"
| "actor (Retry t) = t"
| "actor (RLock t) = t"
| "actor (Notify t l p) = t"
| "actor (RUnlock t) = t"
| "actor (Return t b) = t"
| "actor (AddCall t l) = t"
| "actor (Announce t) = t"
| "actor (Append t l) = t"
| "actor (Unlock t) = t"
| "actor (Get t x) = t"

definition swap_of_other :: "tid \<Rightarrow> label \<Rightarrow> bool" where
  "swap_of_other t l \<longleftrightarrow> (\<exists>u p. l = Swap u p \<and> u \<noteq> t)"

text \<open>The swap of a goroutine will fail because another one has swapped since its load.\<close>

definition overtaken :: "tid \<Rightarrow> cell_state \<Rightarrow> bool" where
  "overtaken t s \<longleftrightarrow> (\<exists>old p. cs_pc s t = Loaded old p \<and> cs_ptr s \<noteq> old)"

lemma overtaken_step:
  "cell_step h s l s' \<Longrightarrow>
     of_bool (l = Retry t) + of_bool (overtaken t s') \<le> (of_bool (overtaken t s) + of_bool (swap_of_other t l) :: nat)"
  by (induction rule: cell_step.induct) (auto simp: overtaken_def swap_of_other_def)

lemma retries_bounded:
  "cell_run h s ls s' \<Longrightarrow>
     length (filter (\<lambda>l. l = Retry t) ls) + of_bool (overtaken t s')
       \<le> length (filter (swap_of_other t) ls) + of_bool (overtaken t s)"
proof (induction rule: run_of.induct)
  case (run_snoc ls s' l s'')
  then show ?case
    using overtaken_step [OF run_snoc.hyps(2), of t] by (auto simp: of_bool_def split: if_splits)
qed simp

text \<open>Where a goroutine is in \<open>Set\<close>: in its loop, where it needs no lock, or behind it.\<close>

fun looping :: "pc \<Rightarrow> bool" where
  "looping (Looping p) = True"
| "looping (Loaded old p) = True"
| "looping _ = False"

fun adding :: "pc \<Rightarrow> bool" where
  "adding (Locking l) = True"
| "adding (Draining l) = True"
| "adding Unlocking = True"
| "adding _ = False"

text \<open>The steps a goroutine needs to return from \<open>Set\<close> if it runs alone.\<close>

definition solo_steps :: "tid \<Rightarrow> cell_state \<Rightarrow> nat" where
  "solo_steps t s =
     (case cs_pc s t of
        Returning b \<Rightarrow> 1
      | Notifying p ls \<Rightarrow> length ls + 2
      | Swapped p \<Rightarrow> length (cs_listeners s) + 3
      | Loaded old p \<Rightarrow> length (cs_listeners s) + (if cs_ptr s = old then 4 else 6)
      | Looping p \<Rightarrow> length (cs_listeners s) + 5
      | _ \<Rightarrow> 0)"

text \<open>Those to get out of the loop.\<close>

definition loop_steps :: "tid \<Rightarrow> cell_state \<Rightarrow> nat" where
  "loop_steps t s =
     (case cs_pc s t of
        Looping p \<Rightarrow> 2
      | Loaded old p \<Rightarrow> (if cs_ptr s = old then 1 else 3)
      | _ \<Rightarrow> 0)"

lemma loop_step:
  assumes "looping (cs_pc s t)"
  shows "\<exists>l s'. cell_step h s l s' \<and> actor l = t \<and> solo_steps t s' < solo_steps t s
    \<and> loop_steps t s' < loop_steps t s \<and> cs_writer s' = cs_writer s \<and> \<not> adding (cs_pc s' t)"
proof (cases "cs_pc s t")
  case (Looping p)
  then show ?thesis
    using cell_step.load [OF Looping, of h] cell_step.reject [OF Looping, of h]
    by (cases "admissible h (cs_ptr s) p") (fastforce simp: solo_steps_def loop_steps_def)+
next
  case (Loaded old p)
  then show ?thesis
    using cell_step.swap [OF Loaded, of h] cell_step.retry [OF Loaded, of h]
    by (cases "cs_ptr s = old") (fastforce simp: solo_steps_def loop_steps_def)+
qed (use assms in simp_all)

lemma solo_step:
  assumes "cs_pc s t \<noteq> Outside" and "\<not> adding (cs_pc s t)" and "cs_writer s = None"
  shows "\<exists>l s'. cell_step h s l s' \<and> actor l = t \<and> solo_steps t s' < solo_steps t s
    \<and> cs_writer s' = None \<and> \<not> adding (cs_pc s' t)"
proof (cases "cs_pc s t")
  case (Swapped p)
  then show ?thesis using cell_step.rlock [OF Swapped assms(3), of h] assms(3) by (fastforce simp: solo_steps_def)
next
  case (Notifying p ls)
  then show ?thesis
    using cell_step.notify [of s t p _ _ h] cell_step.runlock [of s t p h] assms(3)
    by (cases ls) (fastforce simp: solo_steps_def)+
next
  case (Returning b)
  then show ?thesis using cell_step.return [OF Returning, of h] assms(3) by (fastforce simp: solo_steps_def)
qed (use assms loop_step [of s t h] in auto)

text \<open>A goroutine that runs alone gets out of the loop, whoever holds the lock.\<close>

lemma loop_run:
  "\<exists>ls s'. cell_run h s ls s' \<and> (\<forall>l \<in> set ls. actor l = t) \<and> \<not> looping (cs_pc s' t) \<and> length ls \<le> loop_steps t s"
proof (induction "loop_steps t s" arbitrary: s rule: less_induct)
  case less
  show ?case
  proof (cases "looping (cs_pc s t)")
    case False
    then show ?thesis by (intro exI [of _ "[]"] exI [of _ s]) simp
  next
    case True
    then obtain l s1 where step: "cell_step h s l s1" "actor l = t" "loop_steps t s1 < loop_steps t s"
      using loop_step by blast
    then obtain ls s' where "cell_run h s1 ls s'" "\<forall>l \<in> set ls. actor l = t" "\<not> looping (cs_pc s' t)"
        "length ls \<le> loop_steps t s1"
      using less.hyps by blast
    with step show ?thesis
      by (intro exI [of _ "l # ls"] exI [of _ s']) auto
  qed
qed

text \<open>It returns, too, unless a writer keeps it from taking the read lock.\<close>

lemma solo_run:
  "\<not> adding (cs_pc s t) \<Longrightarrow> cs_writer s = None \<Longrightarrow>
     \<exists>ls s'. cell_run h s ls s' \<and> (\<forall>l \<in> set ls. actor l = t) \<and> cs_pc s' t = Outside \<and> length ls \<le> solo_steps t s"
proof (induction "solo_steps t s" arbitrary: s rule: less_induct)
  case less
  show ?case
  proof (cases "cs_pc s t = Outside")
    case True
    then show ?thesis by (intro exI [of _ "[]"] exI [of _ s]) simp
  next
    case False
    then obtain l s1 where step: "cell_step h s l s1" "actor l = t" "solo_steps t s1 < solo_steps t s"
        "\<not> adding (cs_pc s1 t)" "cs_writer s1 = None"
      using solo_step less.prems by blast
    then obtain ls s' where "cell_run h s1 ls s'" "\<forall>l \<in> set ls. actor l = t" "cs_pc s' t = Outside"
        "length ls \<le> solo_steps t s1"
      using less.hyps by blast
    with step show ?thesis
      by (intro exI [of _ "l # ls"] exI [of _ s']) auto
  qed
qed

lemma solo_steps_bound:
  assumes "cell_run h (initial_cell p0) ls s"
  shows "solo_steps t s \<le> length (cs_listeners s) + 6"
  using to_call_bound [OF assms, of t] by (auto simp: solo_steps_def split: pc.split)

section \<open>The lock\<close>

text \<open>Every reader can leave, then the writer, then whoever waits for it.\<close>

lemma reader_leaves:
  "cs_pc s u = Notifying p xs \<Longrightarrow>
     \<exists>ls s'. cell_run h s ls s' \<and> cs_readers s' = cs_readers s - {u} \<and> cs_writer s' = cs_writer s
       \<and> (\<forall>v. cs_pc s' v = (if v = u then Returning True else cs_pc s v))"
proof (induction xs arbitrary: s)
  case Nil
  let ?s = "goto (s\<lparr>cs_readers := cs_readers s - {u}\<rparr>) u (Returning True)"
  have "cell_run h s [RUnlock u] ?s"
    using cell_step.runlock [OF Nil, of h] by simp
  then show ?case by (intro exI [of _ "[RUnlock u]"] exI [of _ ?s]) (simp add: goto_def)
next
  case (Cons l xs)
  let ?s = "s\<lparr>cs_pc := (cs_pc s)(u := Notifying p xs)\<rparr>"
  obtain ls s' where s': "cell_run h ?s ls s'" "cs_readers s' = cs_readers s - {u}" "cs_writer s' = cs_writer s"
      "\<forall>v. cs_pc s' v = (if v = u then Returning True else cs_pc s v)"
    using Cons.IH [of ?s] by auto
  have "cell_step h s (Notify u l p) ?s"
    using cell_step.notify [OF Cons.prems, of h] by (simp add: goto_def)
  then have "cell_run h s (Notify u l p # ls) s'"
    using s'(1) by auto
  with s'(2-4) show ?case by blast
qed

lemma readers_leave:
  assumes "cell_inv h s"
  shows "\<exists>ls s'. cell_run h s ls s' \<and> cs_readers s' = {} \<and> cs_writer s' = cs_writer s
    \<and> (\<forall>t. cs_pc s' t = (if t \<in> cs_readers s then Returning True else cs_pc s t))"
  using assms
proof (induction "card (cs_readers s)" arbitrary: s rule: less_induct)
  case less
  show ?case
  proof (cases "cs_readers s = {}")
    case True
    then show ?thesis by (intro exI [of _ "[]"] exI [of _ s]) simp
  next
    case False
    then obtain u where u: "u \<in> cs_readers s" by blast
    then obtain p xs where "cs_pc s u = Notifying p xs"
      using less.prems by (auto simp: cell_inv_def elim: holds_read.elims)
    then obtain ls1 s1 where s1: "cell_run h s ls1 s1" "cs_readers s1 = cs_readers s - {u}"
        "cs_writer s1 = cs_writer s" "\<forall>v. cs_pc s1 v = (if v = u then Returning True else cs_pc s v)"
      using reader_leaves by blast
    have "card (cs_readers s1) < card (cs_readers s)"
      unfolding s1(2) using u less.prems by (intro card_Diff1_less) (simp_all add: cell_inv_def)
    then obtain ls2 s2 where "cell_run h s1 ls2 s2" "cs_readers s2 = {}" "cs_writer s2 = cs_writer s1"
        "\<forall>t. cs_pc s2 t = (if t \<in> cs_readers s1 then Returning True else cs_pc s1 t)"
      using less.hyps [OF _ cell_inv_run [OF s1(1) less.prems]] by blast
    then show ?thesis
      using run_trans [OF _ s1(1)] s1(2-4) u by (intro exI [of _ "ls1 @ ls2"] exI [of _ s2]) auto
  qed
qed

lemma lock_released:
  assumes "cell_inv h s"
  shows "\<exists>ls s'. cell_run h s ls s' \<and> cs_readers s' = {} \<and> cs_writer s' = None
    \<and> (\<forall>t. cs_pc s' t = (if t \<in> cs_readers s then Returning True else if cs_writer s = Some t then Outside else cs_pc s t))"
proof -
  obtain ls1 s1 where s1: "cell_run h s ls1 s1" "cs_readers s1 = {}" "cs_writer s1 = cs_writer s"
      "\<forall>t. cs_pc s1 t = (if t \<in> cs_readers s then Returning True else cs_pc s t)"
    using readers_leave [OF assms] by blast
  have inv1: "cell_inv h s1" using cell_inv_run [OF s1(1) assms] .
  show ?thesis
  proof (cases "cs_writer s")
    case None
    then show ?thesis using s1 by (intro exI [of _ ls1] exI [of _ s1]) simp
  next
    case (Some w)
    have unlocks: "\<exists>s3. cell_run h s2 [Unlock w] s3 \<and> cs_readers s3 = {} \<and> cs_writer s3 = None \<and> cs_pc s3 = (cs_pc s2)(w := Outside)"
      if "cs_pc s2 w = Unlocking" "cs_readers s2 = {}" for s2
      using cell_step.unlock [OF that(1), of h] that(2)
      by (intro exI [of _ "goto (s2\<lparr>cs_writer := None\<rparr>) w Outside"]) (simp add: goto_def)
    have "\<forall>t. cs_writer s1 = Some t \<longleftrightarrow> holds_write (cs_pc s1 t)"
      using inv1 by (simp add: cell_inv_def)
    then have "holds_write (cs_pc s1 w)"
      using Some s1(3) by metis
    then consider l where "cs_pc s1 w = Draining l" | "cs_pc s1 w = Unlocking"
      by (auto elim: holds_write.elims)
    then have "\<exists>ls3 s3. cell_run h s1 ls3 s3 \<and> cs_readers s3 = {} \<and> cs_writer s3 = None \<and> cs_pc s3 = (cs_pc s1)(w := Outside)"
    proof cases
      case 1
      let ?s2 = "goto (s1\<lparr>cs_listeners := cs_listeners s1 @ [l]\<rparr>) w Unlocking"
      obtain s3 where "cell_run h ?s2 [Unlock w] s3" "cs_readers s3 = {}" "cs_writer s3 = None" "cs_pc s3 = (cs_pc ?s2)(w := Outside)"
        using unlocks [of ?s2] s1(2) by auto
      then show ?thesis
        using cell_step.append [OF 1 s1(2), of h] by (intro exI [of _ "[Append w l, Unlock w]"] exI [of _ s3]) (auto simp: goto_def)
    next
      case 2
      then show ?thesis using unlocks [OF 2 s1(2)] by blast
    qed
    then obtain ls3 s3 where s3: "cell_run h s1 ls3 s3" "cs_readers s3 = {}" "cs_writer s3 = None"
        "cs_pc s3 = (cs_pc s1)(w := Outside)"
      by blast
    have "holds_write (cs_pc s w)" "w \<in> cs_readers s \<longleftrightarrow> holds_read (cs_pc s w)"
      using assms Some unfolding cell_inv_def by metis+
    then have "w \<notin> cs_readers s"
      by (cases "cs_pc s w") auto
    then show ?thesis
      using s3 s1(4) Some run_trans [OF s3(1) s1(1)] by (intro exI [of _ "ls1 @ ls3"] exI [of _ s3]) auto
  qed
qed

text \<open>There is no deadlock: every call under way can still return.\<close>

lemma can_return:
  assumes "cell_inv h s"
  shows "\<exists>ls s'. cell_run h s ls s' \<and> cs_pc s' t = Outside"
proof -
  obtain ls1 s1 where s1: "cell_run h s ls1 s1" "cs_readers s1 = {}" "cs_writer s1 = None"
    using lock_released [OF assms] by blast
  have "\<exists>ls2 s2. cell_run h s1 ls2 s2 \<and> cs_pc s2 t = Outside"
  proof (cases "adding (cs_pc s1 t)")
    case False
    then show ?thesis using solo_run [OF False s1(3)] by blast
  next
    case True
    have "\<not> holds_write (cs_pc s1 t)"
      using cell_inv_run [OF s1(1) assms] s1(3) by (auto simp: cell_inv_def)
    with True obtain l where l: "cs_pc s1 t = Locking l"
      by (auto elim: adding.elims)
    then show ?thesis
      using s1(2,3) by (intro exI [of _ "[Announce t, Append t l, Unlock t]"]) (simp add: cell_step_simps)
  qed
  then show ?thesis using run_trans [OF _ s1(1)] by blast
qed

section \<open>Properties\<close>

text \<open>
  C6: The cell is linearizable: every concurrent execution of \<open>Set\<close>, \<open>Get\<close> and \<open>AddListener\<close> amounts to the
  operations of the sequential cell of \<open>AtomicCell\<close>, done one after the other in the order of the successful
  swaps, rejecting loads, reads and registrations. Each read returns, and each set answers, what it does in
  that replay, which ends with the contents of the cell; and every call of \<open>Set\<close> returns the answer of its own
  set, which lies between the call and the return. A call with nil returns false.
\<close>

theorem Set_linearizable:
  assumes "cell_run h (initial_cell p0) ls s"
  shows "replay h (NewAtomicAssignmentCell (map_option h p0)) (lin_points ls)
      = Some \<lparr>c_ptr = map_option h (cs_ptr s), c_listeners = cs_listeners s\<rparr>
    \<and> (\<forall>xs t b ys. ls = xs @ Return t b # ys \<longrightarrow> answer t xs = Some b)"
proof -
  have "answer t xs = Some b" if split: "ls = xs @ Return t b # ys" for xs t b ys
  proof -
    obtain s1 where s1: "cell_run h (initial_cell p0) xs s1" "cell_run h s1 (Return t b # ys) s"
      using run_appendD [OF assms split] by blast
    then have "cs_pc s1 t = Returning b"
      by (auto simp: cell_step_simps)
    with answered_run [OF s1(1), of t] show ?thesis
      by (simp add: answered_def initial_cell_def)
  qed
  then show ?thesis
    using run_replay [OF assms cell_inv_initial]
    by (simp add: initial_cell_def cell_of_def NewAtomicAssignmentCell_def)
qed

definition sample_heap :: heap where
  "sample_heap p = sample_assignment\<lparr>a_Generation := \<lparr>Incarnation = \<lparr>inc_value = 1\<rparr>, Number = of_nat p\<rparr>\<rparr>"

lemma admissible_sample [simp]:
  "admissible sample_heap None p"
  "p < 2 ^ 64 \<Longrightarrow> q < 2 ^ 64 \<Longrightarrow> admissible sample_heap (Some q) p \<longleftrightarrow> q \<le> p"
  by (auto simp: admissible_def sample_heap_def order_simps gen_rank_def word_less_nat_alt unat_of_nat)

text \<open>
  Two goroutines race to set generations 1 and 2: the first swaps first but is overtaken before it calls
  the listener, so the listener hears of 2 and then of 1.
\<close>

definition race :: "label list" where
  "race =
     [AddCall 0 0, Announce 0, Append 0 0, Unlock 0, Call 1 (Some 1), Load 1, Swap 1 1, Call 2 (Some 2), Load 2, Swap 2 2, RLock 2, Notify 2 0 2,
      RUnlock 2, Return 2 True, RLock 1, Notify 1 0 1, RUnlock 1, Return 1 True]"

lemma race_runs: "\<exists>s. cell_run sample_heap (initial_cell None) race s \<and> cs_ptr s = Some 2 \<and> cs_listeners s = [0]"
  by (simp add: race_def cell_step_simps initial_cell_def)

theorem Set_linearizable_witness:
  "replay sample_heap (NewAtomicAssignmentCell None) (lin_points race)
      = Some \<lparr>c_ptr = Some (sample_heap 2), c_listeners = [0]\<rparr>
    \<and> answer 1 (take 17 race) = Some True"
proof -
  obtain s where s: "cell_run sample_heap (initial_cell None) race s" "cs_ptr s = Some 2" "cs_listeners s = [0]"
    using race_runs by blast
  have "race = take 17 race @ Return 1 True # []"
    by (simp add: race_def)
  then have "answer 1 (take 17 race) = Some True"
    using Set_linearizable [OF s(1)] by blast
  then show ?thesis
    using Set_linearizable [OF s(1)] s(2,3) by simp
qed

text \<open>
  C7: The compare-and-swap loop of \<open>Set\<close> is lock-free: a goroutine goes round again only because another one
  has swapped, at most once for each such swap; and wherever the others stand, even in the middle of their
  calls, three steps of its own take it through the loop. After the loop \<open>Set\<close> takes the read lock: it returns
  on its own, within six steps and one for each listener, when no \<open>AddListener\<close> is under way. When one is, \<open>Set\<close>
  may have to wait, but there is no deadlock: every call can still return.
\<close>

theorem Set_lock_free:
  assumes "cell_run h (initial_cell p0) ls s"
  shows "length (filter (\<lambda>l. l = Retry t) ls) \<le> length (filter (swap_of_other t) ls)
    \<and> (\<exists>ls' s'. cell_run h s ls' s' \<and> (\<forall>l \<in> set ls'. actor l = t) \<and> \<not> looping (cs_pc s' t) \<and> length ls' \<le> 3)
    \<and> (\<not> adding (cs_pc s t) \<and> cs_writer s = None \<longrightarrow>
        (\<exists>ls' s'. cell_run h s ls' s' \<and> (\<forall>l \<in> set ls'. actor l = t) \<and> cs_pc s' t = Outside
          \<and> length ls' \<le> length (cs_listeners s) + 6))
    \<and> (\<exists>ls' s'. cell_run h s ls' s' \<and> cs_pc s' t = Outside)"
proof (intro conjI impI)
  have "\<not> overtaken t (initial_cell p0)"
    by (simp add: overtaken_def initial_cell_def)
  then show "length (filter (\<lambda>l. l = Retry t) ls) \<le> length (filter (swap_of_other t) ls)"
    using retries_bounded [OF assms, of t] by simp
  have "loop_steps t s \<le> 3"
    by (simp add: loop_steps_def split: pc.split)
  then show "\<exists>ls' s'. cell_run h s ls' s' \<and> (\<forall>l \<in> set ls'. actor l = t) \<and> \<not> looping (cs_pc s' t) \<and> length ls' \<le> 3"
    using loop_run [of h s t] order_trans by blast
  show "\<exists>ls' s'. cell_run h s ls' s' \<and> cs_pc s' t = Outside"
    using can_return [OF cell_inv_run [OF assms cell_inv_initial]] .
  assume "\<not> adding (cs_pc s t) \<and> cs_writer s = None"
  then show "\<exists>ls' s'. cell_run h s ls' s' \<and> (\<forall>l \<in> set ls'. actor l = t) \<and> cs_pc s' t = Outside
      \<and> length ls' \<le> length (cs_listeners s) + 6"
    using solo_run [of s t h] solo_steps_bound [OF assms, of t] order_trans by blast
qed

theorem Set_lock_free_witness:
  "\<exists>s ls' s'. cell_run sample_heap (initial_cell None)
       [Call 1 (Some 1), Load 1, Call 2 (Some 2), Load 2, Swap 2 2, Retry 1] s
     \<and> cell_run sample_heap s ls' s' \<and> cs_pc s' 1 = Outside \<and> length ls' \<le> 6"
proof -
  let ?ls = "[Call 1 (Some 1), Load 1, Call 2 (Some 2), Load 2, Swap 2 2, Retry 1]"
  have "\<exists>s. cell_run sample_heap (initial_cell None) ?ls s \<and> cs_listeners s = [] \<and> cs_pc s 1 = Looping 1 \<and> cs_writer s = None"
    by (simp add: cell_step_simps initial_cell_def)
  then obtain s where s: "cell_run sample_heap (initial_cell None) ?ls s" "cs_listeners s = []"
      "cs_pc s 1 = Looping 1" "cs_writer s = None"
    by blast
  then have "\<not> adding (cs_pc s 1) \<and> cs_writer s = None" by simp
  then obtain ls' s' where "cell_run sample_heap s ls' s'" "cs_pc s' 1 = Outside" "length ls' \<le> 6"
    using Set_lock_free [OF s(1), of 1] s(2) by auto
  with s(1) show ?thesis by blast
qed

text \<open>
  C24: Readers never go back: of two lock-free reads in any concurrent execution, by whichever goroutines,
  the later one returns an assignment whose generation is at least that of the earlier one, and never nil
  after an assignment.
\<close>

theorem Get_monotone:
  assumes "cell_run h (initial_cell p0) (xs @ Get t x # ys @ Get u y # zs) s"
  shows "(case x of None \<Rightarrow> True
    | Some p \<Rightarrow> (case y of None \<Rightarrow> False
        | Some q \<Rightarrow> \<not> gen_Less (a_Generation (h q)) (a_Generation (h p))))"
proof -
  obtain s1 where s1: "cell_run h (initial_cell p0) xs s1" "cell_run h s1 (Get t x # ys @ Get u y # zs) s"
    using run_appendD [OF assms refl] by blast
  then have x: "x = cs_ptr s1" and rest: "cell_run h s1 (ys @ Get u y # zs) s"
    by (auto simp: cell_step_simps)
  obtain s2 where s2: "cell_run h s1 ys s2" "cell_run h s2 (Get u y # zs) s"
    using run_appendD [OF rest refl] by blast
  then have y: "y = cs_ptr s2"
    by (auto simp: cell_step_simps)
  have "at_least h (cs_ptr s1) (cs_ptr s2)"
    using run_at_least [OF s2(1)] cell_inv_run [OF s1(1) cell_inv_initial] .
  then show ?thesis
    by (simp add: x y at_least_def a_rank_def order_simps not_less split: option.splits)
qed

theorem Get_monotone_witness:
  "\<not> gen_Less (a_Generation (sample_heap 2)) (a_Generation (sample_heap 1))"
proof -
  let ?ls = "[Call 1 (Some 1), Load 1, Swap 1 1] @ Get 3 (Some 1)
      # [Call 2 (Some 2), Load 2, Swap 2 2] @ Get 4 (Some 2) # []"
  have "\<exists>s. cell_run sample_heap (initial_cell None) ?ls s"
    by (simp add: cell_step_simps initial_cell_def)
  then obtain s where "cell_run sample_heap (initial_cell None) ?ls s" ..
  from Get_monotone [OF this] show ?thesis by simp
qed

text \<open>
  C35: A \<open>Set\<close> that returns true has told everyone: after its call with an assignment it swaps the assignment in,
  then takes the read lock, and while it holds the lock it calls each listener registered when it took it
  exactly once, in registration order, with the assignment it was called with, and then returns true; it calls
  no listener before or after that, and no listener is added meanwhile.
\<close>

theorem Set_notifies_all:
  assumes "cell_run h (initial_cell p0) (xs @ Call t (Some p) # ys @ [Return t True]) s"
    and "\<forall>x. Call t x \<notin> set ys"
  shows "\<exists>us vs ws s1. ys = us @ RLock t # vs @ RUnlock t # ws
    \<and> cell_run h (initial_cell p0) (xs @ Call t (Some p) # us) s1
    \<and> told t vs = map (\<lambda>l. (l, p)) (cs_listeners s1)
    \<and> Swap t p \<in> set us \<and> told t us = [] \<and> told t ws = [] \<and> (\<forall>u l. Append u l \<notin> set vs)"
proof -
  obtain s0 where s0: "cell_run h (initial_cell p0) xs s0"
      "cell_run h s0 (Call t (Some p) # ys @ [Return t True]) s"
    using run_appendD [OF assms(1) refl] by blast
  then obtain s2 s3 where s2: "cell_step h s0 (Call t (Some p)) s2" "cell_run h s2 ys s3" "cell_step h s3 (Return t True) s"
    by (auto simp: run_append_iff)
  then have "cell_inv h s2" "cs_pc s2 t = Looping p" "cs_pc s3 t = Returning True"
    using cell_inv_step [OF s2(1) cell_inv_run [OF s0(1) cell_inv_initial]] by (auto simp: cell_step_simps)
  then have "told_all h t p s2 ys"
    using setting_run [OF s2(2) _ _ assms(2)] by (simp add: set_progress_def)
  then obtain us vs ws s1 where d: "ys = us @ RLock t # vs @ RUnlock t # ws" "cell_run h s2 us s1"
      "told t vs = map (\<lambda>l. (l, p)) (cs_listeners s1)" "Swap t p \<in> set us" "told t us = []" "told t ws = []"
      "\<forall>u l. Append u l \<notin> set vs"
    unfolding told_all_def by blast
  then have "cell_run h (initial_cell p0) (xs @ Call t (Some p) # us) s1"
    using s0(1) s2(1) by (auto simp: run_append_iff)
  with d show ?thesis by blast
qed

theorem Set_notifies_all_witness:
  "\<exists>us vs ws. take 5 (drop 8 race) = us @ RLock 2 # vs @ RUnlock 2 # ws \<and> Swap 2 2 \<in> set us \<and> length (told 2 vs) = 1"
proof -
  have "\<exists>s. cell_run sample_heap (initial_cell None) (take 7 race @ Call 2 (Some 2) # take 5 (drop 8 race) @ [Return 2 True]) s"
    by (simp add: race_def cell_step_simps initial_cell_def)
  moreover have "\<forall>x. Call 2 x \<notin> set (take 5 (drop 8 race))"
    by (simp add: race_def)
  ultimately obtain us vs ws s1 where d: "take 5 (drop 8 race) = us @ RLock 2 # vs @ RUnlock 2 # ws" "Swap 2 2 \<in> set us"
      "cell_run sample_heap (initial_cell None) (take 7 race @ Call 2 (Some 2) # us) s1"
      "told 2 vs = map (\<lambda>l. (l, 2)) (cs_listeners s1)"
    using Set_notifies_all by blast
  then have "us = [Load 2, Swap 2 2]"
    by (simp add: race_def Cons_eq_append_conv)
  with d(3) have "cs_listeners s1 = [0]"
    by (auto simp: race_def cell_step_simps initial_cell_def)
  with d show ?thesis by fastforce
qed

text \<open>
  C36: Listeners are not told in generation order: in a possible execution of two \<open>Set\<close> calls the last
  assignment a listener hears of is older than the one the cell holds, and nothing is left to run that
  would tell it of the newer one.
\<close>

theorem listener_may_end_stale:
  "\<exists>h ls s p q. cell_run h (initial_cell None) ls s \<and> (\<forall>t. cs_pc s t = Outside)
     \<and> last [l \<leftarrow> ls. \<exists>t x p. l = Notify t x p] = Notify 1 0 p \<and> cs_ptr s = Some q
     \<and> gen_Less (a_Generation (h p)) (a_Generation (h q))"
proof -
  have "\<exists>s. cell_run sample_heap (initial_cell None) race s \<and> (\<forall>t. cs_pc s t = Outside) \<and> cs_ptr s = Some 2"
    by (simp add: race_def cell_step_simps initial_cell_def)
  moreover have "last [l \<leftarrow> race. \<exists>t x p. l = Notify t x p] = Notify 1 0 1"
    by (simp add: race_def)
  moreover have "gen_Less (a_Generation (sample_heap 1)) (a_Generation (sample_heap 2))"
    by (simp add: sample_heap_def order_simps gen_rank_def)
  ultimately show ?thesis by blast
qed

end
