(* ===== verification/ProtoMessages.thy ===== *)
theory ProtoMessages
  imports Squids
begin

text \<open>
  The protobuf messages of \<open>pkg/proto/dicer.pb.go\<close> that the modelled code reads or builds, one record
  per message. A pointer field is an option (\<open>None\<close> is nil), a repeated message field is a list of
  pointers, a \<open>oneof\<close> is a datatype. The bookkeeping fields of the protobuf runtime are left out.
\<close>

text \<open>\<open>HighExclusive\<close> is an optional bytes field: nil when absent.\<close>

record slice_p =
  slp_LowInclusive :: "byte list"
  slp_HighExclusive :: "byte list option"
  slp_IsHighInfinity :: bool

record squid_p =
  sqp_ResourceAddress :: string
  sqp_CreationTimeMillis :: i64
  sqp_ResourceUuidHigh :: i64
  sqp_ResourceUuidLow :: i64

record generation_p =
  gp_Incarnation :: i64
  gp_Number :: i64

record transfer_p =
  tp_Id :: i32
  tp_FromResourceId :: i32

record subslice_annotation_p =
  ap_ResourceId :: i32
  ap_Subslice :: "slice_p option"
  ap_GenerationNumber :: i64
  ap_StateTransfer :: "transfer_p option"

record slice_assignment_p =
  sap_Slice :: "slice_p option"
  sap_Generation :: "generation_p option"
  sap_ResourceIndices :: "i32 list"
  sap_SubsliceAnnotations :: "subslice_annotation_p option list"
  sap_PrimaryRateLoad :: "64 word option"

record diff_assignment_p =
  dap_Generation :: "generation_p option"
  dap_SliceAssignments :: "slice_assignment_p option list"
  dap_Resources :: "squid_p option list"
  dap_IsFrozen :: bool

datatype sync_state =
    KnownGeneration "generation_p option"
  | KnownAssignment "diff_assignment_p option"
  | KnownSerializedAssignment "byte list"

record sync_assignment_state_p =
  ss_State :: "sync_state option"

record redirect_p =
  rp_Address :: string
  rp_RedirectToken :: "byte list"

record client_response_p =
  crp_SyncAssignmentState :: "sync_assignment_state_p option"
  crp_SuggestedRpcTimeoutMillis :: i64
  crp_Redirect :: "redirect_p option"

record client_request_p =
  crq_TargetName :: string
  crq_SyncAssignmentState :: sync_assignment_state_p
  crq_SubscriberDebugName :: string
  crq_ChosenRpcTimeoutMillis :: i64
  crq_ClerkClientId :: string
  crq_RedirectToken :: "byte list"

text \<open>The generated accessor \<open>GetKnownAssignment\<close>: nil unless the \<open>oneof\<close> holds an assignment.\<close>

definition GetKnownAssignment :: "sync_assignment_state_p \<Rightarrow> diff_assignment_p option" where
  "GetKnownAssignment x =
     (case ss_State x of Some (KnownAssignment a) \<Rightarrow> a | _ \<Rightarrow> None)"

end
