(* ===== verification/ProtoConverter.thy ===== *)
theory ProtoConverter
  imports Assignments ProtoMessages
begin

text \<open>
  \<open>pkg/common/proto_converter.go\<close>: translation between the domain model and the wire messages, with
  the pool of squids an assignment's slices refer to by index.
\<close>

unbundle bit_operations_syntax

section \<open>The environment\<close>

text \<open>
  \<open>google/uuid\<close> is not part of the repository: its \<open>Parse\<close> and \<open>String\<close> are parameters, and so is the
  iteration order of Go maps. A UUID is an array of 16 bytes.
\<close>

record runtime =
  uuid_Parse :: "string \<Rightarrow> byte list option"
  uuid_String :: "byte list \<Rightarrow> string"
  range_map :: range_order

section \<open>Generations, slices, squids\<close>

definition GenerationToProto :: "generation \<Rightarrow> generation_p" where
  "GenerationToProto g = \<lparr>gp_Incarnation = inc_value (Incarnation g), gp_Number = Number g\<rparr>"

definition GenerationFromProto :: "generation_p option \<Rightarrow> generation result" where
  "GenerationFromProto p =
     (case p of
        None \<Rightarrow> Inr EmptyGeneration
      | Some p \<Rightarrow>
          and_then (MustNewIncarnation (gp_Incarnation p))
            (\<lambda>inc. Inr (NewGeneration inc (gp_Number p))))"

definition SliceToProto :: "slice \<Rightarrow> slice_p" where
  "SliceToProto s =
     \<lparr>slp_LowInclusive = key_Bytes (LowInclusive s),
      slp_HighExclusive = (case high_Key (HighExclusive s) of None \<Rightarrow> None | Some key \<Rightarrow> Some (key_Bytes key)),
      slp_IsHighInfinity = high_IsInfinity (HighExclusive s)\<rparr>"

definition SliceFromProto :: "slice_p option \<Rightarrow> slice result" where
  "SliceFromProto p =
     (case p of
        None \<Rightarrow> Inl (Error SliceProtoNil)
      | Some p \<Rightarrow>
          let low = NewSliceKey (slp_LowInclusive p);
              high = (case slp_HighExclusive p of
                        None \<Rightarrow> InfinityKey
                      | Some b \<Rightarrow>
                          if slp_IsHighInfinity p then InfinityKey else NewHighSliceKey (NewSliceKey b))
          in NewSlice low high)"

text \<open>The loops of \<open>uuidToInt64s\<close> and \<open>int64sToUUID\<close>; \<open>>>=\<close> on \<open>int64\<close> shifts in the sign.\<close>

definition uuidToInt64s :: "byte list \<Rightarrow> i64 \<times> i64" where
  "uuidToInt64s u =
     fold (\<lambda>i (high, low).
        (push_bit 8 high OR ucast (u ! i), push_bit 8 low OR ucast (u ! (8 + i)))) [0..<8] (0, 0)"

definition int64sToUUID :: "i64 \<Rightarrow> i64 \<Rightarrow> byte list" where
  "int64sToUUID high low =
     fst (fold (\<lambda>i (u, high, low).
        ((u[i := ucast (high AND 255)])[8 + i := ucast (low AND 255)],
         signed_drop_bit 8 high, signed_drop_bit 8 low)) (rev [0..<8]) (replicate 16 0, high, low))"

definition SquidToProto :: "runtime \<Rightarrow> squid \<Rightarrow> squid_p" where
  "SquidToProto env sq =
     (let (high, low) = (case uuid_Parse env (ResourceUUID sq) of
                           None \<Rightarrow> (0, 0)
                         | Some parsedUUID \<Rightarrow> uuidToInt64s parsedUUID)
      in \<lparr>sqp_ResourceAddress = ResourceAddress sq, sqp_CreationTimeMillis = CreationTimeMillis sq,
          sqp_ResourceUuidHigh = high, sqp_ResourceUuidLow = low\<rparr>)"

definition SquidFromProto :: "runtime \<Rightarrow> squid_p option \<Rightarrow> squid result" where
  "SquidFromProto env p =
     (case p of
        None \<Rightarrow> Inl (Error SquidProtoNil)
      | Some p \<Rightarrow>
          let u = int64sToUUID (sqp_ResourceUuidHigh p) (sqp_ResourceUuidLow p)
          in Inr (NewSquid (sqp_ResourceAddress p) (time_UnixMilli (sqp_CreationTimeMillis p))
                    (uuid_String env u)))"

section \<open>AssignmentToProto\<close>

text \<open>The two captured variables of the closure \<open>getResourceIndex\<close>, and the closure.\<close>

record pool =
  resourceIndexMap :: "squid \<rightharpoonup> i32"
  pool_resources :: "squid_p option list"

definition getResourceIndex :: "runtime \<Rightarrow> pool \<Rightarrow> squid \<Rightarrow> i32 \<times> pool" where
  "getResourceIndex env st sq =
     (case resourceIndexMap st sq of
        Some idx \<Rightarrow> (idx, st)
      | None \<Rightarrow>
          let idx = word_of_nat (length (pool_resources st))
          in (idx, \<lparr>resourceIndexMap = (resourceIndexMap st)(sq \<mapsto> idx),
                    pool_resources = pool_resources st @ [Some (SquidToProto env sq)]\<rparr>))"

definition annotation_to_proto ::
  "runtime \<Rightarrow> i32 \<Rightarrow> pool \<Rightarrow> subslice_annotation \<Rightarrow> subslice_annotation_p option \<times> pool" where
  "annotation_to_proto env resIdx st ann =
     (let ap = \<lparr>ap_ResourceId = resIdx, ap_Subslice = Some (SliceToProto (Subslice ann)),
                ap_GenerationNumber = ContinuousGenerationNumber ann, ap_StateTransfer = None\<rparr>
      in case StateTransfer ann of
           None \<Rightarrow> (Some ap, st)
         | Some t \<Rightarrow>
             let (fromIdx, st1) = getResourceIndex env st (FromResource t)
             in (Some (ap\<lparr>ap_StateTransfer := Some \<lparr>tp_Id = 1, tp_FromResourceId = fromIdx\<rparr>\<rparr>), st1))"

text \<open>One round of \<open>for sq, annList := range sa.SubsliceAnnotationsByResource\<close>.\<close>

definition resource_annotations_to_proto ::
  "runtime \<Rightarrow> annotation_map \<Rightarrow> pool \<Rightarrow> squid \<Rightarrow> subslice_annotation_p option list \<times> pool" where
  "resource_annotations_to_proto env annotations st sq =
     (let (resIdx, st1) = getResourceIndex env st sq;
          annList = (case annotations sq of None \<Rightarrow> [] | Some l \<Rightarrow> l)
      in map_state (annotation_to_proto env resIdx) st1 annList)"

definition slice_assignment_to_proto ::
  "runtime \<Rightarrow> pool \<Rightarrow> slice_assignment \<Rightarrow> slice_assignment_p option \<times> pool" where
  "slice_assignment_to_proto env st sa =
     (let (resourceIndices, st1) = map_state (getResourceIndex env) st (sa_Resources sa);
          annotations = sa_SubsliceAnnotationsByResource sa;
          (annotationsProto, st2) =
            map_state (resource_annotations_to_proto env annotations) st1 (range_map env annotations)
      in (Some \<lparr>sap_Slice = Some (SliceToProto (sa_GetSlice sa)),
                sap_Generation = Some (GenerationToProto (sa_Generation sa)),
                sap_ResourceIndices = resourceIndices,
                sap_SubsliceAnnotations = concat annotationsProto,
                sap_PrimaryRateLoad = sa_PrimaryRateLoadOpt sa\<rparr>, st2))"

definition AssignmentToProto :: "runtime \<Rightarrow> assignment option \<Rightarrow> diff_assignment_p option" where
  "AssignmentToProto env a =
     (case a of
        None \<Rightarrow> None
      | Some a \<Rightarrow>
          let st0 = \<lparr>resourceIndexMap = Map.empty, pool_resources = []\<rparr>;
              (sliceAssignments, st) =
                (case a_SliceMap a of
                   None \<Rightarrow> ([], st0)
                 | Some sm \<Rightarrow> map_state (slice_assignment_to_proto env) st0 (sm_Entries sm))
          in Some \<lparr>dap_Generation = Some (GenerationToProto (a_Generation a)),
                   dap_SliceAssignments = sliceAssignments,
                   dap_Resources = pool_resources st,
                   dap_IsFrozen = a_IsFrozen a\<rparr>)"

section \<open>AssignmentFromProto\<close>

text \<open>
  The bounds check \<open>int(idx) >= len(resources)\<close> with its error, then the indexing \<open>resources[idx]\<close>,
  which panics for a negative index.
\<close>

definition pool_get :: "go_error \<Rightarrow> 'a list \<Rightarrow> i32 \<Rightarrow> 'a result" where
  "pool_get e resources idx =
     (if sint idx \<ge> int (length resources) then Inl (Error e)
      else if sint idx < 0 then Inl (Panic IndexOutOfRange)
      else Inr (resources ! nat (sint idx)))"

definition annotation_from_proto ::
  "squid list \<Rightarrow> subslice_annotation_p option \<Rightarrow> (squid \<times> subslice_annotation) result" where
  "annotation_from_proto resources ap =
     (case ap of
        None \<Rightarrow> Inl (Panic NilDereference)
      | Some ap \<Rightarrow>
          and_then (pool_get AnnotationResourceOutOfBounds resources (ap_ResourceId ap)) (\<lambda>sq.
          and_then (SliceFromProto (ap_Subslice ap)) (\<lambda>subslice.
          and_then
            (case ap_StateTransfer ap of
               None \<Rightarrow> Inr None
             | Some t \<Rightarrow>
                 and_then (pool_get TransferResourceOutOfBounds resources (tp_FromResourceId t))
                   (\<lambda>from. Inr (Some \<lparr>FromResource = from\<rparr>)))
            (\<lambda>transfer. Inr (sq, NewSubsliceAnnotation subslice (ap_GenerationNumber ap) transfer)))))"

definition append_annotation :: "annotation_map \<Rightarrow> squid \<Rightarrow> subslice_annotation \<Rightarrow> annotation_map" where
  "append_annotation m sq ann = m(sq \<mapsto> (case m sq of None \<Rightarrow> [] | Some l \<Rightarrow> l) @ [ann])"

fun annotations_from_proto ::
  "squid list \<Rightarrow> subslice_annotation_p option list \<Rightarrow> annotation_map \<Rightarrow> annotation_map result" where
  "annotations_from_proto resources [] annotationsByResource = Inr annotationsByResource"
| "annotations_from_proto resources (ap # rest) annotationsByResource =
     and_then (annotation_from_proto resources ap)
       (\<lambda>(sq, ann). annotations_from_proto resources rest (append_annotation annotationsByResource sq ann))"

definition slice_assignment_from_proto ::
  "runtime \<Rightarrow> squid list \<Rightarrow> slice_assignment_p option \<Rightarrow> slice_assignment result" where
  "slice_assignment_from_proto env resources sap =
     (case sap of
        None \<Rightarrow> Inl (Panic NilDereference)
      | Some sap \<Rightarrow>
          and_then (SliceFromProto (sap_Slice sap)) (\<lambda>s.
          and_then (GenerationFromProto (sap_Generation sap)) (\<lambda>sliceGen.
          and_then (map_result (pool_get ResourceIndexOutOfBounds resources) (sap_ResourceIndices sap))
            (\<lambda>assignedResources.
          and_then (NewSliceWithResources s assignedResources) (\<lambda>swr.
          and_then (annotations_from_proto resources (sap_SubsliceAnnotations sap) Map.empty)
            (\<lambda>annotationsByResource.
          NewSliceAssignment (range_map env) swr sliceGen annotationsByResource
            (sap_PrimaryRateLoad sap)))))))"

definition AssignmentFromProto :: "runtime \<Rightarrow> diff_assignment_p option \<Rightarrow> assignment result" where
  "AssignmentFromProto env p =
     (case p of
        None \<Rightarrow> Inl (Error AssignmentProtoNil)
      | Some p \<Rightarrow>
          and_then (GenerationFromProto (dap_Generation p)) (\<lambda>gen.
          and_then (map_result (SquidFromProto env) (dap_Resources p)) (\<lambda>resources.
          and_then (map_result (slice_assignment_from_proto env resources) (dap_SliceAssignments p))
            (\<lambda>sliceAssignments.
          and_then (NewSliceMap sa_GetSlice sliceAssignments) (\<lambda>sliceMap.
          NewAssignment gen (dap_IsFrozen p) ConsistencyModeEventual (Some sliceMap))))))"

section \<open>Round trips of the leaves\<close>

lemma ucast_and_byte: "(ucast ((x :: i64) AND 255) :: byte) = ucast x"
proof -
  have "x AND 255 = take_bit 8 x"
    by (simp add: take_bit_eq_mask mask_eq_exp_minus_1)
  then show ?thesis
    by (simp add: bit_eq_iff bit_simps)
qed

lemma ucast_signed_drop: "m \<le> 56 \<Longrightarrow> (ucast (signed_drop_bit m (x :: i64)) :: byte) = ucast (drop_bit m x)"
  by (rule bit_eqI) (auto simp: bit_simps)

definition word_bytes :: "i64 \<Rightarrow> byte list" where
  "word_bytes w = map (\<lambda>i. ucast (drop_bit (8 * (7 - i)) w)) [0..<8]"

definition bytes_word :: "byte list \<Rightarrow> i64" where
  "bytes_word bs = fold (\<lambda>b h. push_bit 8 h OR ucast b) bs 0"

lemma bytes_word_snoc: "bytes_word (bs @ [b]) = push_bit 8 (bytes_word bs) OR ucast b"
  by (simp add: bytes_word_def)

lemma bytes_word_bits: "bit (bytes_word bs) n \<Longrightarrow> n < 8 * length bs"
proof (induction bs arbitrary: n rule: rev_induct)
  case Nil
  then show ?case by (simp add: bytes_word_def)
next
  case (snoc b bs)
  then show ?case
    by (fastforce simp: bytes_word_snoc bit_simps dest: bit_imp_le_length)
qed

lemma bytes_word_nth:
  "length bs \<le> 8 \<Longrightarrow> j < length bs \<Longrightarrow> ucast (drop_bit (8 * j) (bytes_word bs)) = bs ! (length bs - 1 - j)"
proof (induction bs arbitrary: j rule: rev_induct)
  case (snoc b bs)
  show ?case
  proof (cases j)
    case 0
    have "ucast (push_bit 8 (bytes_word bs) OR ucast b) = b"
      by (rule bit_eqI) (auto simp: bit_simps)
    with 0 show ?thesis by (simp add: bytes_word_snoc)
  next
    case (Suc k)
    have "drop_bit 8 (push_bit 8 (bytes_word bs) OR ucast b) = bytes_word bs"
    proof (rule bit_eqI)
      fix n
      have "bit (bytes_word bs) n \<Longrightarrow> n < 56"
        using bytes_word_bits [of bs n] snoc.prems by simp
      then show "bit (drop_bit 8 (push_bit 8 (bytes_word bs) OR ucast b)) n \<longleftrightarrow> bit (bytes_word bs) n"
        by (auto simp: bit_simps dest: bit_imp_le_length)
    qed
    moreover have "drop_bit (8 * j) (bytes_word (bs @ [b])) = drop_bit (8 * k) (drop_bit 8 (bytes_word (bs @ [b])))"
      by (simp add: Suc add.commute)
    moreover have "length bs - Suc k < length bs"
      using snoc.prems Suc by simp
    ultimately show ?thesis
      using snoc Suc by (simp add: bytes_word_snoc nth_append)
  qed
qed simp

lemma word_bytes_word: "length bs = 8 \<Longrightarrow> word_bytes (bytes_word bs) = bs"
  by (rule nth_equalityI) (simp_all add: word_bytes_def bytes_word_nth)

lemma uuidToInt64s_eq: "length u = 16 \<Longrightarrow> uuidToInt64s u = (bytes_word (take 8 u), bytes_word (drop 8 u))"
proof -
  assume u: "length u = 16"
  have "take 8 u = map (\<lambda>i. u ! i) [0..<8]" "drop 8 u = map (\<lambda>i. u ! (8 + i)) [0..<8]"
    using u by (auto intro!: nth_equalityI)
  then show ?thesis
    by (simp add: uuidToInt64s_def bytes_word_def upt_rec)
qed

lemma int64sToUUID_eq: "int64sToUUID high low = word_bytes high @ word_bytes low"
  by (simp add: int64sToUUID_def word_bytes_def upt_rec ucast_and_byte ucast_signed_drop numeral_eq_Suc)

lemma uuid_roundtrip:
  "length u = 16 \<Longrightarrow> (case uuidToInt64s u of (high, low) \<Rightarrow> int64sToUUID high low) = u"
  by (simp add: uuidToInt64s_eq int64sToUUID_eq word_bytes_word)

text \<open>
  A codec: decoding an encoded value gives it back, for the values the encoding is meant for.
\<close>

locale codec =
  fixes enc :: "'a \<Rightarrow> 'w" and dec :: "'w \<Rightarrow> 'a result" and ok :: "'a \<Rightarrow> bool"
  assumes dec_enc: "ok x \<Longrightarrow> dec (enc x) = Inr x"
begin

lemma enc_inj: "ok x \<Longrightarrow> ok y \<Longrightarrow> enc x = enc y \<Longrightarrow> x = y"
  by (metis dec_enc sum.inject(2))

lemma dec_enc_list: "\<forall>x \<in> set xs. ok x \<Longrightarrow> map_result dec (map enc xs) = Inr xs"
  using map_result_map [of xs dec enc id] by (simp add: dec_enc)

end

interpretation generation_codec:
  codec "\<lambda>g. Some (GenerationToProto g)" GenerationFromProto wf_generation
  by unfold_locales
    (simp add: GenerationFromProto_def GenerationToProto_def wf_generation_def MustNewIncarnation_cases
      NewGeneration_def)

lemma SliceToProto_roundtrip:
  assumes "wf_slice s"
  shows "SliceFromProto (Some (SliceToProto s)) = Inr s"
proof -
  have low: "NewSliceKey (key_Bytes (LowInclusive s)) = LowInclusive s"
    using assms by (simp add: key_Bytes_def wf_key_NewSliceKey)
  have wf: "wf_high (HighExclusive s)" "Fin (low_bytes s) < high_end s" "wf_key (LowInclusive s)"
    using assms by simp_all
  show ?thesis
  proof (cases "high_Key (HighExclusive s)")
    case None
    then have "HighExclusive s = InfinityKey"
      using wf_high_infinite [OF wf(1)] by simp
    then show ?thesis
      using low wf(3) by (cases s) (simp add: SliceFromProto_def SliceToProto_def NewSlice_Inr)
  next
    case (Some k)
    have k: "HighExclusive s = NewHighSliceKey k" "wf_key k"
      using wf_high_finite [OF wf(1) Some] high_Key_SomeD [OF Some wf(1)] by simp_all
    then show ?thesis
      using low wf(2,3)
      by (cases s) (simp add: SliceFromProto_def SliceToProto_def NewSlice_Inr key_Bytes_def
          wf_key_NewSliceKey)
  qed
qed

interpretation slice_codec: codec "\<lambda>s. Some (SliceToProto s)" SliceFromProto wf_slice
  by unfold_locales (rule SliceToProto_roundtrip)

text \<open>
  A squid survives when its UUID is in the canonical form the library prints; any other text is
  replaced by the UUID it parses to, or by the zero UUID.
\<close>

definition canonical_squid :: "runtime \<Rightarrow> squid \<Rightarrow> bool" where
  "canonical_squid env sq \<longleftrightarrow>
     (case uuid_Parse env (ResourceUUID sq) of
        None \<Rightarrow> False
      | Some u \<Rightarrow> length u = 16 \<and> uuid_String env u = ResourceUUID sq)"

interpretation squid_codec:
  codec "\<lambda>sq. Some (SquidToProto env sq)" "SquidFromProto env" "canonical_squid env" for env
proof
  fix sq
  assume "canonical_squid env sq"
  then obtain u where u: "uuid_Parse env (ResourceUUID sq) = Some u" "length u = 16"
      "uuid_String env u = ResourceUUID sq"
    by (auto simp: canonical_squid_def split: option.splits)
  then show "SquidFromProto env (Some (SquidToProto env sq)) = Inr sq"
    using uuid_roundtrip [OF u(2)]
    by (cases sq) (simp add: SquidFromProto_def SquidToProto_def NewSquid_def split_beta)
qed

section \<open>The pool of resources\<close>

definition pool_ext :: "pool \<Rightarrow> pool \<Rightarrow> bool" where
  "pool_ext st st' \<longleftrightarrow> (\<exists>more. pool_resources st' = pool_resources st @ more)"

definition pool_small :: "pool \<Rightarrow> bool" where
  "pool_small st \<longleftrightarrow> length (pool_resources st) < 2 ^ 31"

definition pool_points :: "runtime \<Rightarrow> pool \<Rightarrow> squid \<Rightarrow> i32 \<Rightarrow> bool" where
  "pool_points env st sq idx \<longleftrightarrow>
     (\<exists>n < length (pool_resources st).
        idx = word_of_nat n \<and> pool_resources st ! n = Some (SquidToProto env sq))"

definition pool_inv :: "runtime \<Rightarrow> pool \<Rightarrow> bool" where
  "pool_inv env st \<longleftrightarrow>
     None \<notin> set (pool_resources st)
     \<and> (\<forall>sq idx. resourceIndexMap st sq = Some idx \<longrightarrow> pool_points env st sq idx)"

interpretation pool_growth: growing_state "\<lambda>st. pool_inv env st \<and> P st" pool_ext pool_small for env P
  by unfold_locales (auto simp: pool_ext_def pool_small_def)

lemma pool_points_ext: "pool_points env st sq idx \<Longrightarrow> pool_ext st st' \<Longrightarrow> pool_points env st' sq idx"
  by (auto simp: pool_points_def pool_ext_def nth_append)

text \<open>
  What the encoder emits, decoded against the squids of the final pool: the relation is stated for every
  pool that extends the present one, so it survives the rest of the run.
\<close>

definition decodes ::
  "runtime \<Rightarrow> (squid list \<Rightarrow> 'w \<Rightarrow> 'x result) \<Rightarrow> pool \<Rightarrow> 'x \<Rightarrow> 'w \<Rightarrow> bool" where
  "decodes env dec st x w \<longleftrightarrow>
     (\<forall>st' sqs. pool_ext st st' \<longrightarrow> pool_small st' \<longrightarrow>
        map_result (SquidFromProto env) (pool_resources st') = Inr sqs \<longrightarrow> dec sqs w = Inr x)"

lemma decodes_mono: "decodes env dec st x w \<Longrightarrow> pool_ext st st' \<Longrightarrow> decodes env dec st' x w"
  by (meson decodes_def pool_growth.ext_trans)

lemma decodesD:
  "decodes env dec st x w \<Longrightarrow> pool_small st \<Longrightarrow>
     map_result (SquidFromProto env) (pool_resources st) = Inr sqs \<Longrightarrow> dec sqs w = Inr x"
  using pool_growth.ext_refl by (auto simp: decodes_def)

lemma decodes_list:
  "list_all2 (decodes env dec st) xs ws \<Longrightarrow> decodes env (\<lambda>sqs. map_result (dec sqs)) st xs ws"
  unfolding decodes_def map_result_Inr_iff
  by (auto simp: list_all2_conv_all_nth)

lemma pool_points_decodes:
  assumes "pool_points env st sq idx" and "canonical_squid env sq"
  shows "decodes env (pool_get e) st sq idx"
  unfolding decodes_def
proof (intro allI impI)
  fix st' sqs
  assume ext: "pool_ext st st'" and small: "pool_small st'"
    and all: "map_result (SquidFromProto env) (pool_resources st') = Inr sqs"
  obtain n where n: "n < length (pool_resources st')" "idx = word_of_nat n"
      "pool_resources st' ! n = Some (SquidToProto env sq)"
    using pool_points_ext [OF assms(1) ext] by (auto simp: pool_points_def)
  have sqs: "length sqs = length (pool_resources st')" "SquidFromProto env (pool_resources st' ! n) = Inr (sqs ! n)"
    using all n(1) by (auto simp: map_result_Inr_iff list_all2_conv_all_nth)
  have "sint idx = int n"
    using n(1) small by (simp add: n(2) pool_small_def signed_of_nat signed_take_bit_int_eq_self)
  then show "pool_get e sqs idx = Inr sq"
    using sqs n squid_codec.dec_enc [OF assms(2)] by (simp add: pool_get_def)
qed

lemma getResourceIndex_emits:
  assumes "pool_inv env st" and "getResourceIndex env st sq = (idx, st')"
  shows "pool_ext st st' \<and> pool_inv env st' \<and> pool_points env st' sq idx"
proof (cases "resourceIndexMap st sq")
  case None
  then have st': "pool_resources st' = pool_resources st @ [Some (SquidToProto env sq)]"
      "resourceIndexMap st' = (resourceIndexMap st)(sq \<mapsto> idx)" "idx = word_of_nat (length (pool_resources st))"
    using assms(2) by (auto simp: getResourceIndex_def Let_def)
  then have ext: "pool_ext st st'"
    by (simp add: pool_ext_def)
  moreover have new: "pool_points env st' sq idx"
    unfolding pool_points_def using st' by (intro exI [of _ "length (pool_resources st)"]) simp
  moreover have "pool_inv env st'"
    using assms(1) new pool_points_ext [OF _ ext] by (auto simp: pool_inv_def st' split: if_splits)
  ultimately show ?thesis by blast
next
  case (Some i)
  then show ?thesis
    using assms pool_growth.ext_refl by (auto simp: getResourceIndex_def pool_inv_def)
qed


subsection \<open>Annotations\<close>

definition ann_ok :: "runtime \<Rightarrow> subslice_annotation \<Rightarrow> bool" where
  "ann_ok env ann \<longleftrightarrow>
     wf_slice (Subslice ann)
     \<and> (\<forall>t. StateTransfer ann = Some t \<longrightarrow> canonical_squid env (FromResource t))"

abbreviation ann_pool :: "runtime \<Rightarrow> squid \<Rightarrow> i32 \<Rightarrow> pool \<Rightarrow> bool" where
  "ann_pool env r resIdx st \<equiv> pool_inv env st \<and> pool_points env st r resIdx"

lemma annotation_emits:
  assumes "canonical_squid env r" and "ann_ok env ann"
    and "ann_pool env r resIdx st" and "annotation_to_proto env resIdx st ann = (w, st')"
  shows "pool_ext st st' \<and> ann_pool env r resIdx st' \<and> decodes env annotation_from_proto st' (r, ann) w"
proof -
  have sub: "SliceFromProto (Some (SliceToProto (Subslice ann))) = Inr (Subslice ann)"
    using assms(2) by (simp add: ann_ok_def SliceToProto_roundtrip)
  show ?thesis
  proof (cases "StateTransfer ann")
    case None
    then have w: "st' = st"
        "w = Some \<lparr>ap_ResourceId = resIdx, ap_Subslice = Some (SliceToProto (Subslice ann)),
                ap_GenerationNumber = ContinuousGenerationNumber ann, ap_StateTransfer = None\<rparr>"
      using assms(4) by (simp_all add: annotation_to_proto_def)
    have "decodes env (pool_get AnnotationResourceOutOfBounds) st r resIdx"
      using assms(1,3) by (simp add: pool_points_decodes)
    then have "decodes env annotation_from_proto st (r, ann) w"
      using None sub by (cases ann) (simp add: decodes_def w annotation_from_proto_def NewSubsliceAnnotation_def)
    then show ?thesis
      using assms(3) pool_growth.ext_refl w(1) by simp
  next
    case (Some t)
    obtain fromIdx st1 where idx: "getResourceIndex env st (FromResource t) = (fromIdx, st1)"
      by fastforce
    with Some have w: "st' = st1"
        "w = Some \<lparr>ap_ResourceId = resIdx, ap_Subslice = Some (SliceToProto (Subslice ann)),
                ap_GenerationNumber = ContinuousGenerationNumber ann,
                ap_StateTransfer = Some \<lparr>tp_Id = 1, tp_FromResourceId = fromIdx\<rparr>\<rparr>"
      using assms(4) by (simp_all add: annotation_to_proto_def)
    have g: "pool_ext st st1" "pool_inv env st1" "pool_points env st1 (FromResource t) fromIdx"
      using getResourceIndex_emits [OF _ idx] assms(3) by simp_all
    then have r: "pool_points env st1 r resIdx"
      using assms(3) pool_points_ext by blast
    have "decodes env (pool_get AnnotationResourceOutOfBounds) st1 r resIdx"
        "decodes env (pool_get TransferResourceOutOfBounds) st1 (FromResource t) fromIdx"
      using assms(1,2) r g(3) Some by (simp_all add: pool_points_decodes ann_ok_def)
    then have "decodes env annotation_from_proto st1 (r, ann) w"
      using Some sub
      by (cases ann; cases t) (simp add: decodes_def w annotation_from_proto_def NewSubsliceAnnotation_def)
    then show ?thesis
      using g r w(1) by simp
  qed
qed

lemma pool_ext_step: "pool_ext st (snd (getResourceIndex env st sq))"
  by (auto simp: getResourceIndex_def pool_ext_def Let_def split: option.splits)

lemma annotation_ext: "pool_ext st (snd (annotation_to_proto env resIdx st ann))"
  using pool_ext_step pool_growth.ext_refl
  by (auto simp: annotation_to_proto_def Let_def split_beta split: option.splits)

lemma map_state_ext:
  assumes "\<And>s x. pool_ext s (snd (f s x))"
  shows "pool_ext s (snd (map_state f s xs))"
  using assms
  by (induction xs arbitrary: s) (auto simp: split_beta intro: pool_growth.ext_refl pool_growth.ext_trans)

lemma resource_annotations_ext: "pool_ext st (snd (resource_annotations_to_proto env anns st sq))"
  using pool_growth.ext_trans [OF pool_ext_step map_state_ext [OF annotation_ext]]
  by (simp add: resource_annotations_to_proto_def split_beta)

lemma resource_annotations_emits:
  assumes "canonical_squid env r" and "anns r = Some l" and "\<forall>ann \<in> set l. ann_ok env ann"
    and "pool_inv env st" and "resource_annotations_to_proto env anns st r = (ws, st')"
  shows "pool_ext st st' \<and> (pool_small st' \<longrightarrow> pool_inv env st'
    \<and> decodes env (\<lambda>sqs. map_result (annotation_from_proto sqs)) st' (map (Pair r) l) ws)"
proof -
  obtain resIdx st1 where idx: "getResourceIndex env st r = (resIdx, st1)" by fastforce
  with assms(2,5) have ms: "map_state (annotation_to_proto env resIdx) st1 l = (ws, st')"
    by (simp add: resource_annotations_to_proto_def)
  have g: "pool_ext st st1" "ann_pool env r resIdx st1"
    using getResourceIndex_emits [OF assms(4) idx] by simp_all
  let ?R = "\<lambda>s ann w. decodes env annotation_from_proto s (r, ann) w"
  have each: "\<forall>ann \<in> set l. growing_state.emits (\<lambda>s. ann_pool env r resIdx s) pool_ext pool_small
      (annotation_to_proto env resIdx) ?R ann"
    unfolding pool_growth.emits_def
    using annotation_emits [OF assms(1)] assms(3) by blast
  have "pool_ext st1 st' \<and> (pool_small st' \<longrightarrow> ann_pool env r resIdx st' \<and> list_all2 (?R st') l ws)"
    by (rule pool_growth.map_state_emits [OF each _ annotation_ext g(2) ms]) (rule decodes_mono)
  then show ?thesis
    using pool_growth.ext_trans [OF g(1)] decodes_list [of env annotation_from_proto st' "map (Pair r) l" ws]
    by (auto simp: list_all2_map1)
qed


subsection \<open>Grouping the annotations by resource\<close>

definition append_pair :: "squid \<times> subslice_annotation \<Rightarrow> annotation_map \<Rightarrow> annotation_map" where
  "append_pair p m = append_annotation m (fst p) (snd p)"

lemma annotations_from_proto_fold:
  "map_result (annotation_from_proto sqs) ws = Inr ps \<Longrightarrow>
     annotations_from_proto sqs ws m = Inr (fold append_pair ps m)"
  by (induction ws arbitrary: m ps) (auto simp: and_then_Inr_iff append_pair_def split_beta)

lemma fold_append_resource:
  "l \<noteq> [] \<Longrightarrow> fold append_pair (map (Pair r) l) m = m(r \<mapsto> (case m r of None \<Rightarrow> [] | Some k \<Rightarrow> k) @ l)"
proof (induction l arbitrary: m)
  case (Cons a l)
  have step: "append_pair (r, a) m = m(r \<mapsto> (case m r of None \<Rightarrow> [] | Some k \<Rightarrow> k) @ [a])"
    by (simp add: append_pair_def append_annotation_def)
  show ?case
  proof (cases "l = []")
    case False
    have "fold append_pair (map (Pair r) (a # l)) m = fold append_pair (map (Pair r) l) (append_pair (r, a) m)"
      by simp
    also have "\<dots> = m(r \<mapsto> (case m r of None \<Rightarrow> [] | Some k \<Rightarrow> k) @ a # l)"
      by (subst Cons.IH [OF False]) (simp add: step)
    finally show ?thesis .
  qed (simp add: step)
qed simp

lemma fold_append_all:
  "distinct rs \<Longrightarrow> \<forall>r \<in> set rs. anns r \<noteq> None \<and> anns r \<noteq> Some [] \<and> m r = None \<Longrightarrow>
     fold append_pair (concat (map (\<lambda>r. map (Pair r) (the (anns r))) rs)) m = m ++ anns |` set rs"
proof (induction rs arbitrary: m)
  case (Cons r rs)
  then obtain l where l: "anns r = Some l" "l \<noteq> []" "m r = None" by auto
  have "fold append_pair (concat (map (\<lambda>r. map (Pair r) (the (anns r))) rs)) (m(r \<mapsto> l))
      = m(r \<mapsto> l) ++ anns |` set rs"
    using Cons.prems by (intro Cons.IH) auto
  also have "\<dots> = m ++ anns |` set (r # rs)"
    using Cons.prems l by (auto simp: map_add_def restrict_map_def fun_eq_iff split: option.splits)
  finally show ?case
    using l by (simp add: fold_append_resource)
qed (simp add: map_add_def restrict_map_def)

lemma fold_append_groups:
  assumes "ranges_over order anns" and "\<forall>r l. anns r = Some l \<longrightarrow> l \<noteq> []"
  shows "fold append_pair (concat (map (\<lambda>r. map (Pair r) (the (anns r))) (order anns))) Map.empty = anns"
proof -
  have "anns |` dom anns = anns"
    by (auto simp: restrict_map_def fun_eq_iff domIff)
  then show ?thesis
    using assms fold_append_all [of "order anns" anns Map.empty] by (auto simp: ranges_over_def)
qed

subsection \<open>Slice assignments and assignments\<close>

definition transportable_slice :: "runtime \<Rightarrow> slice_assignment \<Rightarrow> bool" where
  "transportable_slice env sa \<longleftrightarrow>
     valid_slice_assignment sa \<and> wf_slice (sa_GetSlice sa) \<and> wf_generation (sa_Generation sa)
     \<and> ranges_over (range_map env) (sa_SubsliceAnnotationsByResource sa)
     \<and> (\<forall>sq \<in> set (sa_Resources sa). canonical_squid env sq)
     \<and> (\<forall>l \<in> ran (sa_SubsliceAnnotationsByResource sa). \<forall>ann \<in> set l. ann_ok env ann)"

lemma slice_assignment_ext: "pool_ext st (snd (slice_assignment_to_proto env st sa))"
  using pool_growth.ext_trans [OF map_state_ext [OF pool_ext_step] map_state_ext [OF resource_annotations_ext]]
  by (simp add: slice_assignment_to_proto_def split_beta Let_def)

lemma resource_indices_emit:
  assumes "\<forall>sq \<in> set sqs. canonical_squid env sq" and "pool_inv env st"
    and "map_state (getResourceIndex env) st sqs = (idxs, st')"
  shows "pool_ext st st' \<and> (pool_small st' \<longrightarrow> pool_inv env st'
    \<and> decodes env (\<lambda>pool. map_result (pool_get e pool)) st' sqs idxs)"
proof -
  have each: "\<forall>sq \<in> set sqs. growing_state.emits (\<lambda>s. pool_inv env s \<and> True) pool_ext pool_small
      (getResourceIndex env) (decodes env (pool_get e)) sq"
    unfolding pool_growth.emits_def
    using getResourceIndex_emits pool_points_decodes assms(1) by blast
  have "pool_ext st st' \<and> (pool_small st' \<longrightarrow> (pool_inv env st' \<and> True)
      \<and> list_all2 (decodes env (pool_get e) st') sqs idxs)"
    by (rule pool_growth.map_state_emits [OF each _ pool_ext_step _ assms(3)])
      (auto intro: decodes_mono assms(2))
  then show ?thesis
    using decodes_list by blast
qed

lemma all_annotations_emit:
  assumes "\<forall>r \<in> set rs. canonical_squid env r \<and> anns r \<noteq> None" 
    and "\<forall>l \<in> ran anns. \<forall>ann \<in> set l. ann_ok env ann" and "pool_inv env st"
    and "map_state (resource_annotations_to_proto env anns) st rs = (wss, st')"
  shows "pool_ext st st' \<and> (pool_small st' \<longrightarrow> pool_inv env st'
    \<and> decodes env (\<lambda>sqs. map_result (annotation_from_proto sqs)) st'
        (concat (map (\<lambda>r. map (Pair r) (the (anns r))) rs)) (concat wss))"
proof -
  let ?R = "\<lambda>s r ws. decodes env (\<lambda>sqs. map_result (annotation_from_proto sqs)) s (map (Pair r) (the (anns r))) ws"
  have each: "\<forall>r \<in> set rs. growing_state.emits (\<lambda>s. pool_inv env s \<and> True) pool_ext pool_small
      (resource_annotations_to_proto env anns) ?R r"
    unfolding pool_growth.emits_def
  proof (intro ballI allI impI)
    fix r s ws s'
    assume r: "r \<in> set rs" and s: "pool_inv env s \<and> True"
      and step: "resource_annotations_to_proto env anns s r = (ws, s')"
    then obtain l where l: "anns r = Some l" using assms(1) by auto
    then have "\<forall>ann \<in> set l. ann_ok env ann" using assms(2) by (auto simp: ran_def)
    from resource_annotations_emits [OF _ l this _ step] r s l assms(1)
    show "pool_ext s s' \<and> (pool_small s' \<longrightarrow> (pool_inv env s' \<and> True) \<and> ?R s' r ws)" by simp
  qed
  have "pool_ext st st' \<and> (pool_small st' \<longrightarrow> (pool_inv env st' \<and> True) \<and> list_all2 (?R st') rs wss)"
    by (rule pool_growth.map_state_emits [OF each _ resource_annotations_ext _ assms(4)])
      (auto intro: decodes_mono assms(3))
  moreover have "decodes env (\<lambda>sqs. map_result (annotation_from_proto sqs)) st'
        (concat (map (\<lambda>r. map (Pair r) (the (anns r))) rs)) (concat wss)"
    if "list_all2 (?R st') rs wss"
    using that
  proof (induction rs wss rule: list_all2_induct)
    case Nil
    then show ?case by (simp add: decodes_def)
  next
    case (Cons r rs ws wss)
    then show ?case
      by (auto simp: decodes_def map_result_Inr_iff intro!: list_all2_appendI)
  qed
  ultimately show ?thesis by blast
qed

lemma transportable_checked:
  assumes "transportable_slice env sa" and "sa_SubsliceAnnotationsByResource sa r = Some l"
  shows "check_resource (sa_SliceWithResources sa) (sa_Generation sa) r l = Inr ()"
    and "r \<in> set (sa_Resources sa)" and "l \<noteq> []"
proof -
  show checked: "check_resource (sa_SliceWithResources sa) (sa_Generation sa) r l = Inr ()"
    using assms by (simp add: transportable_slice_def valid_slice_assignment_def)
  then show "r \<in> set (sa_Resources sa)" "l \<noteq> []"
    by (auto simp: check_resource_def sa_Resources_def split: if_splits)
qed

text \<open>The annotations of an assignment, one resource after the other, as the encoder lists them.\<close>

definition listed :: "runtime \<Rightarrow> annotation_map \<Rightarrow> (squid \<times> subslice_annotation) list" where
  "listed env anns = concat (map (\<lambda>r. map (Pair r) (the (anns r))) (range_map env anns))"

lemma slice_assignment_decoded:
  assumes sa: "transportable_slice env sa"
    and "map_result (pool_get ResourceIndexOutOfBounds sqs) idxs = Inr (sa_Resources sa)"
    and "map_result (annotation_from_proto sqs) aps = Inr (listed env (sa_SubsliceAnnotationsByResource sa))"
  shows "slice_assignment_from_proto env sqs (Some \<lparr>sap_Slice = Some (SliceToProto (sa_GetSlice sa)),
      sap_Generation = Some (GenerationToProto (sa_Generation sa)), sap_ResourceIndices = idxs,
      sap_SubsliceAnnotations = aps, sap_PrimaryRateLoad = sa_PrimaryRateLoadOpt sa\<rparr>) = Inr sa"
proof -
  let ?anns = "sa_SubsliceAnnotationsByResource sa"
  have range: "ranges_over (range_map env) ?anns"
    using sa by (simp add: transportable_slice_def)
  then have "fold append_pair (listed env ?anns) Map.empty = ?anns"
    unfolding listed_def using transportable_checked(3) [OF sa] by (intro fold_append_groups) auto
  then have "annotations_from_proto sqs aps Map.empty = Inr ?anns"
    using assms(3) by (simp add: annotations_from_proto_fold)
  moreover have "SliceFromProto (Some (SliceToProto (sa_GetSlice sa))) = Inr (sa_GetSlice sa)"
      "GenerationFromProto (Some (GenerationToProto (sa_Generation sa))) = Inr (sa_Generation sa)"
    using sa slice_codec.dec_enc generation_codec.dec_enc by (simp_all add: transportable_slice_def)
  moreover have "NewSliceWithResources (sa_GetSlice sa) (sa_Resources sa) = Inr (sa_SliceWithResources sa)"
    using sa by (cases "sa_SliceWithResources sa")
      (simp add: transportable_slice_def valid_slice_assignment_def NewSliceWithResources_def sa_GetSlice_def sa_Resources_def)
  moreover have "NewSliceAssignment (range_map env) (sa_SliceWithResources sa) (sa_Generation sa) ?anns
      (sa_PrimaryRateLoadOpt sa) = Inr sa"
    using sa transportable_checked(1) [OF sa]
    by (simp add: NewSliceAssignment_Inr_iff [OF range] transportable_slice_def valid_slice_assignment_def)
  ultimately show ?thesis
    using assms(2) by (simp add: slice_assignment_from_proto_def)
qed

lemma slice_assignment_emits:
  assumes sa: "transportable_slice env sa" and "pool_inv env st"
    and "slice_assignment_to_proto env st sa = (w, st')"
  shows "pool_ext st st' \<and> (pool_small st' \<longrightarrow> pool_inv env st'
    \<and> decodes env (slice_assignment_from_proto env) st' sa w)"
proof -
  let ?anns = "sa_SubsliceAnnotationsByResource sa"
  obtain idxs st1 where one: "map_state (getResourceIndex env) st (sa_Resources sa) = (idxs, st1)" by fastforce
  obtain wss st2 where two:
      "map_state (resource_annotations_to_proto env ?anns) st1 (range_map env ?anns) = (wss, st2)" by fastforce
  have w: "st' = st2" "w = Some \<lparr>sap_Slice = Some (SliceToProto (sa_GetSlice sa)),
                sap_Generation = Some (GenerationToProto (sa_Generation sa)),
                sap_ResourceIndices = idxs, sap_SubsliceAnnotations = concat wss,
                sap_PrimaryRateLoad = sa_PrimaryRateLoadOpt sa\<rparr>"
    using assms(3) one two by (simp_all add: slice_assignment_to_proto_def)
  have first: "pool_ext st st1" "pool_small st1 \<longrightarrow> pool_inv env st1
      \<and> decodes env (\<lambda>pool. map_result (pool_get ResourceIndexOutOfBounds pool)) st1 (sa_Resources sa) idxs"
    using resource_indices_emit [OF _ assms(2) one] sa by (auto simp: transportable_slice_def)
  have "pool_ext st1 (snd (map_state (resource_annotations_to_proto env ?anns) st1 (range_map env ?anns)))"
    by (rule map_state_ext) (rule resource_annotations_ext)
  then have ext12: "pool_ext st1 st2"
    by (simp add: two)
  have "pool_inv env st2 \<and> decodes env (slice_assignment_from_proto env) st2 sa w" if small: "pool_small st2"
  proof -
    have st1: "pool_small st1"
      using ext12 small by (rule pool_growth.small_ext)
    have "\<forall>r \<in> set (range_map env ?anns). canonical_squid env r \<and> ?anns r \<noteq> None"
      using sa transportable_checked(2) [OF sa] by (fastforce simp: ranges_over_def transportable_slice_def)
    with all_annotations_emit [OF _ _ _ two] first st1 sa small
    have second: "pool_inv env st2"
        "decodes env (\<lambda>sqs. map_result (annotation_from_proto sqs)) st2 (listed env ?anns) (concat wss)"
      by (simp_all add: transportable_slice_def listed_def)
    have "decodes env (\<lambda>pool. map_result (pool_get ResourceIndexOutOfBounds pool)) st2 (sa_Resources sa) idxs"
      using first(2) st1 ext12 by (blast intro: decodes_mono)
    with second show ?thesis
      unfolding decodes_def w(2) by (blast intro: slice_assignment_decoded [OF sa])
  qed
  then show ?thesis
    using pool_growth.ext_trans [OF first(1) ext12] w(1) by blast
qed

definition transportable :: "runtime \<Rightarrow> assignment \<Rightarrow> bool" where
  "transportable env a \<longleftrightarrow>
     valid_assignment a \<and> wf_generation (a_Generation a)
     \<and> (\<forall>sa \<in> set (assignment_members a). transportable_slice env sa)"

lemma pool_decodes:
  assumes "pool_inv env st"
  shows "\<exists>sqs. map_result (SquidFromProto env) (pool_resources st) = Inr sqs"
proof -
  have "\<forall>p \<in> set ps. p \<noteq> None \<Longrightarrow> \<exists>sqs. map_result (SquidFromProto env) ps = Inr sqs" for ps
  proof (induction ps)
    case (Cons p ps)
    then show ?case by (cases p) (auto simp: SquidFromProto_def Let_def)
  qed simp
  then show ?thesis
    using assms by (metis pool_inv_def)
qed

lemma AssignmentFromProto_ToProto:
  assumes a: "transportable env a" and p: "AssignmentToProto env (Some a) = Some p"
    and small: "length (dap_Resources p) < 2 ^ 31"
  shows "AssignmentFromProto env (Some p) = Inr (a\<lparr>a_ConsistencyMode := ConsistencyModeEventual\<rparr>)"
proof -
  let ?st0 = "\<lparr>resourceIndexMap = Map.empty, pool_resources = []\<rparr>"
  obtain sm where sm: "a_SliceMap a = Some sm" "valid_map sa_GetSlice sm" "assignment_members a = entries sm"
    using a by (auto simp: transportable_def assignment_members_def elim!: valid_assignmentE)
  obtain ws st where run: "map_state (slice_assignment_to_proto env) ?st0 (entries sm) = (ws, st)" by fastforce
  have p': "p = \<lparr>dap_Generation = Some (GenerationToProto (a_Generation a)), dap_SliceAssignments = ws,
      dap_Resources = pool_resources st, dap_IsFrozen = a_IsFrozen a\<rparr>"
    using p run by (simp add: AssignmentToProto_def sm sm_Entries_def Let_def)
  have each: "\<forall>sa \<in> set (entries sm). growing_state.emits (\<lambda>s. pool_inv env s \<and> True) pool_ext pool_small
      (slice_assignment_to_proto env) (decodes env (slice_assignment_from_proto env)) sa"
    unfolding pool_growth.emits_def
    using slice_assignment_emits a sm(3) by (auto simp: transportable_def)
  have "pool_ext ?st0 st \<and> (pool_small st \<longrightarrow> (pool_inv env st \<and> True)
      \<and> list_all2 (decodes env (slice_assignment_from_proto env) st) (entries sm) ws)"
    by (rule pool_growth.map_state_emits [OF each _ slice_assignment_ext _ run])
      (auto intro: decodes_mono simp: pool_inv_def)
  then have st: "pool_small st" "pool_inv env st"
      "decodes env (\<lambda>sqs. map_result (slice_assignment_from_proto env sqs)) st (entries sm) ws"
    using small p' decodes_list by (auto simp: pool_small_def)
  obtain sqs where sqs: "map_result (SquidFromProto env) (pool_resources st) = Inr sqs"
    using pool_decodes [OF st(2)] by blast
  have "map_result (slice_assignment_from_proto env sqs) ws = Inr (entries sm)"
    using decodesD [OF st(3,1) sqs] .
  moreover have "NewSliceMap sa_GetSlice (entries sm) = Inr sm"
    using sm(2) by (cases sm) (auto simp: valid_map_def NewSliceMap_valid)
  moreover have "NewAssignment (a_Generation a) (a_IsFrozen a) ConsistencyModeEventual (Some sm)
      = Inr (a\<lparr>a_ConsistencyMode := ConsistencyModeEventual\<rparr>)"
    using a sm by (cases a) (auto simp: NewAssignment_Inr_iff transportable_def valid_assignment_def)
  moreover have "GenerationFromProto (Some (GenerationToProto (a_Generation a))) = Inr (a_Generation a)"
    using a generation_codec.dec_enc by (simp add: transportable_def)
  ultimately show ?thesis
    by (simp add: AssignmentFromProto_def p' sqs)
qed

section \<open>What decoding establishes\<close>

lemma SliceFromProto_wf: "SliceFromProto p = Inr s \<Longrightarrow> wf_slice s"
  by (auto simp: SliceFromProto_def Let_def NewSlice_Inr_iff split: option.splits if_splits)

lemma NewSliceAssignment_checked:
  assumes "NewSliceAssignment order swr gen annotations load = Inr sa" and "swr_Resources swr \<noteq> []"
  shows "valid_slice_assignment sa \<and> sa_SliceWithResources sa = swr"
proof -
  have gen: "gen \<noteq> EmptyGeneration"
    using assms(1) by (auto simp: NewSliceAssignment_def)
  obtain cp where cp: "copy_annotations swr gen annotations (order annotations) Map.empty = Inr cp"
    using assms(1) by (auto simp: NewSliceAssignment_def and_then_Inr_iff split: if_splits)
  then have sa: "load_ok load" "sa = \<lparr>sa_SliceWithResources = swr, sa_Generation = gen,
      sa_SubsliceAnnotationsByResource = cp, sa_PrimaryRateLoadOpt = load\<rparr>"
    using assms(1) by (auto simp: NewSliceAssignment_def load_ok_def split: if_splits option.splits)
  have "check_resource swr gen r l = Inr ()" if "cp r = Some l" for r l
    using cp that by (auto simp: copy_annotations_Inr_iff restrict_map_def split: if_splits)
  then show ?thesis
    using gen sa assms(2) by (simp add: valid_slice_assignment_def sa_Resources_def)
qed

lemma slice_assignment_from_proto_valid:
  assumes "slice_assignment_from_proto env sqs sap = Inr sa"
  shows "valid_slice_assignment sa \<and> wf_slice (sa_GetSlice sa)"
proof -
  obtain s swr gen anns rs and sap' :: slice_assignment_p where step: "SliceFromProto (sap_Slice sap') = Inr s" "NewSliceWithResources s rs = Inr swr"
      "NewSliceAssignment (range_map env) swr gen anns (sap_PrimaryRateLoad sap') = Inr sa"
    using assms by (auto simp: slice_assignment_from_proto_def and_then_Inr_iff split: option.splits)
  then have "swr_Resources swr \<noteq> []" "swr_Slice swr = s"
    by (auto simp: NewSliceWithResources_def split: if_splits)
  then show ?thesis
    using NewSliceAssignment_checked [OF step(3)] SliceFromProto_wf [OF step(1)] by (simp add: sa_GetSlice_def)
qed

lemma AssignmentFromProto_valid:
  assumes "AssignmentFromProto env p = Inr a"
  shows "valid_assignment a"
proof -
  obtain gen sqs sas sm and p' :: diff_assignment_p where run: "map_result (slice_assignment_from_proto env sqs) (dap_SliceAssignments p') = Inr sas"
      "NewSliceMap sa_GetSlice sas = Inr sm"
      "NewAssignment gen (dap_IsFrozen p') ConsistencyModeEventual (Some sm) = Inr a"
    using assms by (auto simp: AssignmentFromProto_def and_then_Inr_iff split: option.splits)
  have sas: "\<forall>sa \<in> set sas. valid_slice_assignment sa \<and> wf_slice (sa_GetSlice sa)"
    using run(1) slice_assignment_from_proto_valid
    by (fastforce simp: map_result_Inr_iff list_all2_conv_all_nth in_set_conv_nth)
  then have "valid_map sa_GetSlice sm" "entries sm = sas"
    using NewSliceMap_InrD [OF run(2)] by auto
  then show ?thesis
    using NewAssignment_valid [OF run(3)] sas by simp
qed

section \<open>Properties\<close>

lemma bytes_word_word_bytes: "bytes_word (word_bytes w) = w"
proof (rule bit_eqI)
  fix n
  assume "possible_bit TYPE(64 word) n"
  then have n: "n div 8 \<le> 7" "7 - (7 - n div 8) = n div 8" by simp_all
  have byte: "ucast (drop_bit (8 * (n div 8)) v) = word_bytes v ! (7 - n div 8)" for v :: i64
  proof -
    have "word_bytes v ! (7 - n div 8) = ucast (drop_bit (8 * (7 - (7 - n div 8))) v)"
      unfolding word_bytes_def by (subst nth_map) (simp_all add: nth_upt del: upt_rec_numeral)
    then show ?thesis by (simp only: n(2))
  qed
  have "word_bytes (bytes_word (word_bytes w)) = word_bytes w"
    by (rule word_bytes_word) (simp add: word_bytes_def)
  then have "(ucast (drop_bit (8 * (n div 8)) (bytes_word (word_bytes w))) :: byte)
      = ucast (drop_bit (8 * (n div 8)) w)"
    by (simp add: byte)
  then have "bit (ucast (drop_bit (8 * (n div 8)) (bytes_word (word_bytes w))) :: byte) (n mod 8)
      = bit (ucast (drop_bit (8 * (n div 8)) w) :: byte) (n mod 8)"
    by simp
  then show "bit (bytes_word (word_bytes w)) n = bit w n"
    by (simp add: bit_simps)
qed

text \<open>
  A UUID and its pair of \<open>int64\<close> halves determine each other: \<open>uuidToInt64s\<close> and \<open>int64sToUUID\<close> are
  inverse in both directions, sign bits included.
\<close>

lemma uuid_halves_bijection:
  assumes "length u = 16"
  shows "(case uuidToInt64s u of (high, low) \<Rightarrow> int64sToUUID high low) = u
    \<and> length (int64sToUUID h l) = 16 \<and> uuidToInt64s (int64sToUUID h l) = (h, l)"
  using uuid_roundtrip [OF assms] bytes_word_word_bytes [of h] bytes_word_word_bytes [of l]
    uuidToInt64s_eq [of "int64sToUUID h l"]
  by (simp add: int64sToUUID_eq word_bytes_def)

text \<open>
  Slices, generations below the guardrail and squids with a canonical UUID survive the wire: decoding
  what \<open>SliceToProto\<close>, \<open>GenerationToProto\<close> and \<open>SquidToProto\<close> produce gives back the value.
\<close>

lemma leaf_roundtrips:
  assumes "wf_slice s" and "wf_generation g" and "canonical_squid env sq"
  shows "SliceFromProto (Some (SliceToProto s)) = Inr s
    \<and> GenerationFromProto (Some (GenerationToProto g)) = Inr g
    \<and> SquidFromProto env (Some (SquidToProto env sq)) = Inr sq"
  using slice_codec.dec_enc [OF assms(1)] generation_codec.dec_enc [OF assms(2)]
    squid_codec.dec_enc [OF assms(3)] by simp

text \<open>A UUID library that prints the sixteen bytes as sixteen characters, for the witnesses.\<close>

definition sample_runtime :: runtime where
  "sample_runtime =
     \<lparr>uuid_Parse = (\<lambda>s. if length s = 16 then Some (map of_char s) else None),
      uuid_String = map (\<lambda>b. char_of (unat b)), range_map = sample_range\<rparr>"

definition sample_uuid_squid :: squid where
  "sample_uuid_squid = \<lparr>ResourceAddress = ''a:1'', CreationTimeMillis = -5, ResourceUUID = ''0123456789abcdef''\<rparr>"

lemma sample_canonical: "canonical_squid sample_runtime sample_uuid_squid"
  by (simp add: canonical_squid_def sample_runtime_def sample_uuid_squid_def char_of_def bit_iff_odd)

text \<open>
  C8: A whole assignment survives the wire: for a valid assignment whose generations are below the
  guardrail, whose squids have canonical UUIDs, and whose pool of distinct resources has an \<open>int32\<close> index
  each, \<open>AssignmentFromProto\<close> of \<open>AssignmentToProto\<close> returns the same assignment, with its annotations
  regrouped by resource, except that the consistency mode is not transmitted and comes back as eventual.
\<close>

theorem assignment_roundtrip:
  assumes "transportable env a" and "AssignmentToProto env (Some a) = Some p"
    and "length (dap_Resources p) < 2 ^ 31"
  shows "AssignmentFromProto env (Some p) = Inr (a\<lparr>a_ConsistencyMode := ConsistencyModeEventual\<rparr>)"
  using assms by (rule AssignmentFromProto_ToProto)

definition wire_entry :: slice_assignment where
  "wire_entry =
     \<lparr>sa_SliceWithResources = \<lparr>swr_Slice = sample_slice [] InfinityKey, swr_Resources = [sample_uuid_squid]\<rparr>,
      sa_Generation = sample_generation, sa_SubsliceAnnotationsByResource = Map.empty,
      sa_PrimaryRateLoadOpt = Some 0\<rparr>"

definition wire_assignment :: assignment where
  "wire_assignment =
     \<lparr>a_Generation = sample_generation, a_IsFrozen = True, a_ConsistencyMode = ConsistencyModeStrict,
      a_SliceMap = Some \<lparr>entries = [wire_entry]\<rparr>\<rparr>"

lemma wire_transportable: "transportable sample_runtime wire_assignment"
  using sample_canonical
  by (simp add: transportable_def transportable_slice_def valid_assignment_def wire_assignment_def
      assignment_members_def wire_entry_def valid_slice_assignment_def generations_ok_def sa_Resources_def
      sa_GetSlice_def load_ok_def math_IsNaN_def math_IsInf_def f64_negative_def f64_exponent_def
      wf_generation_def guardrail_value valid_map_def ranges_over_def sample_range_def sample_runtime_def
      sample_generation_def EmptyGeneration_def)

theorem assignment_roundtrip_witness:
  "\<exists>p. AssignmentToProto sample_runtime (Some wire_assignment) = Some p
    \<and> AssignmentFromProto sample_runtime (Some p)
        = Inr (wire_assignment\<lparr>a_ConsistencyMode := ConsistencyModeEventual\<rparr>)"
proof -
  obtain p where p: "AssignmentToProto sample_runtime (Some wire_assignment) = Some p"
    by (simp add: AssignmentToProto_def split_beta Let_def)
  have "dap_Resources p = [Some (SquidToProto sample_runtime sample_uuid_squid)]"
    using p by (auto simp: AssignmentToProto_def wire_assignment_def wire_entry_def sm_Entries_def
        slice_assignment_to_proto_def sa_Resources_def getResourceIndex_def sample_runtime_def sample_range_def)
  then show ?thesis
    using assignment_roundtrip [OF wire_transportable p] p by simp
qed

text \<open>
  C12: Decoding is a gate: whatever message arrives, every assignment \<open>AssignmentFromProto\<close> returns is valid,
  with a complete slice map, checked annotations and consistent generations, so a later lookup cannot panic.
\<close>

theorem decoded_assignment_valid:
  assumes "AssignmentFromProto env p = Inr a"
  shows "valid_assignment a \<and> (\<exists>sa. assignment_LookUp a (NewSliceKey k) = Inr sa)"
  using AssignmentFromProto_valid [OF assms]
    assignment_directory.look_up_finds [OF AssignmentFromProto_valid [OF assms], of "NewSliceKey k"] by auto

theorem decoded_assignment_valid_witness:
  "\<exists>sa. assignment_LookUp (wire_assignment\<lparr>a_ConsistencyMode := ConsistencyModeEventual\<rparr>) (NewSliceKey [9]) = Inr sa"
proof -
  obtain p where p: "AssignmentToProto sample_runtime (Some wire_assignment) = Some p"
    by (simp add: AssignmentToProto_def split_beta Let_def)
  have "dap_Resources p = [Some (SquidToProto sample_runtime sample_uuid_squid)]"
    using p by (auto simp: AssignmentToProto_def wire_assignment_def wire_entry_def sm_Entries_def
        slice_assignment_to_proto_def sa_Resources_def getResourceIndex_def sample_runtime_def sample_range_def)
  then show ?thesis
    using decoded_assignment_valid [OF AssignmentFromProto_ToProto [OF wire_transportable p]] by simp
qed

section \<open>When decoding panics\<close>

text \<open>
  What a message must not contain: an incarnation outside the guardrail, a nil element, a negative index.
  Everything else that can be wrong with a message is answered with an error.
\<close>

lemma guardrail_sint: "(w :: i64) < UpperBoundFatFingerGuardrail \<longleftrightarrow> 0 \<le> sint w \<and> sint w < 5 * 2 ^ 48"
proof -
  have "(sint w + 2 ^ 64) mod 2 ^ 64 = sint w + 2 ^ 64" if "sint w < 0"
    using that sint_ge [of w] by (intro mod_pos_pos_trivial) auto
  moreover have "sint w mod 2 ^ 64 = sint w" if "\<not> sint w < 0"
    using that sint_lt [of w] by (intro mod_pos_pos_trivial) auto
  ultimately have "uint w = (if sint w < 0 then sint w + 2 ^ 64 else sint w)"
    using uint_sint [of w] by (simp add: take_bit_eq_mod)
  then show ?thesis
    using sint_ge [of w] by (simp add: word_less_def guardrail_value split: if_splits)
qed

definition gen_safe :: "generation_p option \<Rightarrow> bool" where
  "gen_safe p \<longleftrightarrow>
     (case p of None \<Rightarrow> True | Some g \<Rightarrow> 0 \<le> sint (gp_Incarnation g) \<and> sint (gp_Incarnation g) < 5 * 2 ^ 48)"

definition annotation_safe :: "subslice_annotation_p option \<Rightarrow> bool" where
  "annotation_safe p \<longleftrightarrow>
     (case p of
        None \<Rightarrow> False
      | Some ap \<Rightarrow> 0 \<le> sint (ap_ResourceId ap)
          \<and> (case ap_StateTransfer ap of None \<Rightarrow> True | Some t \<Rightarrow> 0 \<le> sint (tp_FromResourceId t)))"

definition slice_safe :: "slice_assignment_p option \<Rightarrow> bool" where
  "slice_safe p \<longleftrightarrow>
     (case p of
        None \<Rightarrow> False
      | Some sap \<Rightarrow> gen_safe (sap_Generation sap) \<and> list_all (\<lambda>idx. 0 \<le> sint idx) (sap_ResourceIndices sap)
          \<and> list_all annotation_safe (sap_SubsliceAnnotations sap))"

definition wire_safe :: "diff_assignment_p \<Rightarrow> bool" where
  "wire_safe p \<longleftrightarrow> gen_safe (dap_Generation p) \<and> list_all slice_safe (dap_SliceAssignments p)"

lemma panics_GenerationFromProto [simp]: "panics (GenerationFromProto p) \<longleftrightarrow> \<not> gen_safe p"
  by (auto simp: GenerationFromProto_def gen_safe_def panics_and_then MustNewIncarnation_cases guardrail_sint
      split: option.splits)

lemma panics_pool_get [simp]: "panics (pool_get e resources idx) \<longleftrightarrow> sint idx < 0"
  by (auto simp: pool_get_def)

lemma panics_SliceFromProto [simp]: "\<not> panics (SliceFromProto p)"
  by (auto simp: SliceFromProto_def NewSlice_def Let_def split: option.splits)

lemma panics_SquidFromProto [simp]: "\<not> panics (SquidFromProto env p)"
  by (auto simp: SquidFromProto_def Let_def split: option.splits prod.splits)

lemma panics_map_result: "panics (map_result f xs) \<Longrightarrow> \<exists>x \<in> set xs. panics (f x)"
  by (induction xs) (auto simp: panics_and_then)

lemma panics_annotation_from_proto: "annotation_safe p \<Longrightarrow> \<not> panics (annotation_from_proto resources p)"
  by (auto simp: annotation_from_proto_def annotation_safe_def panics_and_then split: option.splits)

lemma panics_annotations_from_proto:
  "list_all annotation_safe ps \<Longrightarrow> \<not> panics (annotations_from_proto resources ps m)"
  by (induction ps arbitrary: m) (auto simp: panics_and_then panics_annotation_from_proto)

lemma panics_check_annotations [simp]: "\<not> panics (check_annotations gen resource prevHigh ps)"
  by (induction ps arbitrary: prevHigh) auto

lemma panics_copy_annotations [simp]: "\<not> panics (copy_annotations swr gen annotations resources m)"
  by (induction resources arbitrary: m) (auto simp: panics_and_then check_resource_def split: option.splits)

lemma panics_slice_assignment_from_proto: "slice_safe p \<Longrightarrow> \<not> panics (slice_assignment_from_proto env resources p)"
  by (auto simp: slice_assignment_from_proto_def slice_safe_def panics_and_then NewSliceWithResources_def
      NewSliceAssignment_def panics_annotations_from_proto list_all_iff dest!: panics_map_result split: option.splits)

lemma panics_NewSliceMap [simp]: "\<not> panics (NewSliceMap get es)"
  by (simp add: NewSliceMap_def panics_and_then ValidateCompleteSlices_no_panic)

lemma panics_check_generations [simp]: "\<not> panics (check_generations sas gen)"
  by (induction sas) (auto simp: panics_and_then CheckAssignmentGeneration_def)

lemma panics_AssignmentFromProto: "wire_safe p \<Longrightarrow> \<not> panics (AssignmentFromProto env (Some p))"
  by (auto simp: AssignmentFromProto_def wire_safe_def panics_and_then NewAssignment_def list_all_iff
      panics_slice_assignment_from_proto dest!: panics_map_result)

text \<open>
  C34: When decoding panics instead of failing with an error: never on a message without nil elements and
  negative indices whose incarnations are all between 0 and \<open>5 * 2 ^ 48\<close>, however malformed it is
  otherwise. But an incarnation of the message outside that range panics whatever the rest of the message
  is, a negative index passes the bounds check and panics in the indexing, for every list of resources,
  and the two leaf conversions panic in no other case.
\<close>

theorem decoding_panics:
  "(wire_safe p \<longrightarrow> \<not> panics (AssignmentFromProto env (Some p)))
   \<and> (\<not> gen_safe (dap_Generation p) \<longrightarrow>
      AssignmentFromProto env (Some p) = Inl (Panic IncarnationTooLarge))
   \<and> (panics (GenerationFromProto g) \<longleftrightarrow> \<not> gen_safe g)
   \<and> (panics (pool_get e resources idx) \<longleftrightarrow> sint idx < 0)"
proof -
  have "MustNewIncarnation (gp_Incarnation g) = Inl (Panic IncarnationTooLarge)"
    if "dap_Generation p = Some g" "\<not> gen_safe (Some g)" for g
    using that by (auto simp: MustNewIncarnation_cases guardrail_sint gen_safe_def)
  then have "\<not> gen_safe (dap_Generation p) \<longrightarrow> AssignmentFromProto env (Some p) = Inl (Panic IncarnationTooLarge)"
    by (cases "dap_Generation p") (auto simp: AssignmentFromProto_def GenerationFromProto_def gen_safe_def)
  then show ?thesis
    using panics_AssignmentFromProto by simp
qed

theorem decoding_panics_witness:
  "AssignmentFromProto sample_runtime (Some \<lparr>dap_Generation = Some \<lparr>gp_Incarnation = -1, gp_Number = 0\<rparr>,
     dap_SliceAssignments = [], dap_Resources = [], dap_IsFrozen = False\<rparr>) = Inl (Panic IncarnationTooLarge)
   \<and> panics (pool_get ResourceIndexOutOfBounds [sample_squid] (-1))
   \<and> \<not> panics (AssignmentFromProto sample_runtime (Some \<lparr>dap_Generation = None,
     dap_SliceAssignments = [], dap_Resources = [None], dap_IsFrozen = False\<rparr>))"
  using decoding_panics [of "\<lparr>dap_Generation = Some \<lparr>gp_Incarnation = -1, gp_Number = 0\<rparr>,
      dap_SliceAssignments = [], dap_Resources = [], dap_IsFrozen = False\<rparr>"
      sample_runtime None ResourceIndexOutOfBounds "[sample_squid]" "-1"]
    decoding_panics [of "\<lparr>dap_Generation = None,
     dap_SliceAssignments = [], dap_Resources = [None], dap_IsFrozen = False\<rparr>" sample_runtime None
      ResourceIndexOutOfBounds "[sample_squid]" "-1"]
  by (simp add: gen_safe_def wire_safe_def)

end
