(* ===== verification/Floats.thy ===== *)
theory Floats
  imports Squids
begin

text \<open>
  The floating-point arithmetic of the backoff in \<open>pkg/client/state_machine.go\<close>: \<open>float64\<close> values are kept
  as exact integers over a fixed power of two, and every operation rounds to 53 significant bits, to
  nearest with ties to even. The exponents that occur are far inside the range of a \<open>float64\<close>.
\<close>

section \<open>Rounding to 53 bits\<close>

fun bit_len :: "nat \<Rightarrow> nat" where
  "bit_len n = (if n = 0 then 0 else Suc (bit_len (n div 2)))"

declare bit_len.simps [simp del]

definition round53 :: "nat \<Rightarrow> nat" where
  "round53 m =
     (let k = bit_len m - 53; q = m div 2 ^ k; r = m mod 2 ^ k
      in if k = 0 then m
         else if 2 * r > 2 ^ k \<or> (2 * r = 2 ^ k \<and> odd q) then (q + 1) * 2 ^ k
         else q * 2 ^ k)"

definition representable :: "nat \<Rightarrow> bool" where
  "representable m \<longleftrightarrow> (\<exists>c e. c < 2 ^ 53 \<and> m = c * 2 ^ e)"

lemma bit_len_bounds: "0 < n \<Longrightarrow> 2 ^ (bit_len n - 1) \<le> n \<and> n < 2 ^ bit_len n"
proof (induction n rule: bit_len.induct)
  case (1 n)
  show ?case
  proof (cases "n = 1")
    case True
    then show ?thesis by (simp add: bit_len.simps)
  next
    case False
    then have half: "0 < n div 2" using "1.prems" by simp
    then have "bit_len (n div 2) \<noteq> 0" by (simp add: bit_len.simps)
    then obtain k where k: "bit_len (n div 2) = Suc k" by (cases "bit_len (n div 2)") auto
    have "2 ^ k \<le> n div 2" "n div 2 < 2 ^ Suc k"
      using "1.IH" [OF _ half] "1.prems" k by auto
    then have "2 * 2 ^ k \<le> n" "n < 2 * 2 ^ Suc k" by linarith+
    then show ?thesis
      using "1.prems" k by (simp add: bit_len.simps [of n])
  qed
qed

lemma round53_small: "m < 2 ^ 53 \<Longrightarrow> round53 m = m"
proof -
  assume m: "m < 2 ^ 53"
  have "bit_len m \<le> 53"
  proof (rule ccontr)
    assume "\<not> bit_len m \<le> 53"
    then have len: "53 \<le> bit_len m - 1" "bit_len m \<noteq> 0" by simp_all
    then have big: "(2 :: nat) ^ 53 \<le> 2 ^ (bit_len m - 1)"
      by (intro power_increasing) simp_all
    from len have "0 < m" by (cases m) (simp_all add: bit_len.simps [of 0])
    then have "2 ^ (bit_len m - 1) \<le> m" using bit_len_bounds by blast
    with big m show False by linarith
  qed
  then show ?thesis by (simp add: round53_def)
qed

text \<open>For a number of more than 53 bits: the quotient has 53 bits, and the result is one of its neighbours.\<close>

lemma round53_large:
  assumes "2 ^ 53 \<le> m"
  obtains k q where "0 < k" "q = m div 2 ^ k" "2 ^ 52 \<le> q" "round53 m = q * 2 ^ k \<or> round53 m = (q + 1) * 2 ^ k"
    "m = q * 2 ^ k \<longrightarrow> round53 m = m"
proof -
  define k where "k = bit_len m - 53"
  have pos: "0 < m" using assms by (cases m) auto
  have "\<not> bit_len m \<le> 53"
  proof
    assume "bit_len m \<le> 53"
    then have "(2 :: nat) ^ bit_len m \<le> 2 ^ 53" by (intro power_increasing) auto
    then show False using bit_len_bounds [OF pos] assms by linarith
  qed
  then have k: "0 < k" "bit_len m - 1 = 52 + k" by (simp_all add: k_def)
  have "2 ^ (bit_len m - 1) \<le> m"
    using bit_len_bounds [OF pos] by blast
  then have "2 ^ 52 * 2 ^ k \<le> m"
    by (simp only: k(2) power_add)
  then have "2 ^ 52 \<le> m div 2 ^ k"
    by (simp add: less_eq_div_iff_mult_less_eq)
  moreover have "round53 m = m div 2 ^ k * 2 ^ k \<or> round53 m = (m div 2 ^ k + 1) * 2 ^ k"
    using k(1) by (simp add: round53_def Let_def k_def [symmetric])
  moreover have "round53 m = m" if "m = m div 2 ^ k * 2 ^ k"
  proof -
    have "m mod 2 ^ k = 0" using that by (metis mod_mult_self2_is_0)
    then show ?thesis using k(1) that by (simp add: round53_def Let_def k_def [symmetric])
  qed
  ultimately show ?thesis using that [of k "m div 2 ^ k"] k(1) by blast
qed

lemma representable_cases:
  assumes "representable a"
  shows "2 ^ k dvd a \<or> a < 2 ^ 52 * 2 ^ k"
proof -
  obtain c e where c: "c < 2 ^ 53" "a = c * 2 ^ e"
    using assms by (auto simp: representable_def)
  show ?thesis
  proof (cases "k \<le> e")
    case True
    then show ?thesis by (simp add: c(2) le_imp_power_dvd)
  next
    case False
    then have "(2 :: nat) ^ Suc e \<le> 2 ^ k" by (intro power_increasing) auto
    then have "2 ^ 52 * 2 ^ Suc e \<le> 2 ^ 52 * (2 ^ k :: nat)" by (rule mult_le_mono2)
    moreover have "c * 2 ^ e < 2 ^ 53 * 2 ^ e" using c(1) by simp
    moreover have "2 ^ 53 * 2 ^ e = 2 ^ 52 * (2 ^ Suc e :: nat)" by simp
    ultimately have "c * 2 ^ e < 2 ^ 52 * 2 ^ k" by linarith
    then show ?thesis by (simp only: c(2) simp_thms)
  qed
qed

lemma representableI: "c < 2 ^ 53 \<Longrightarrow> representable (c * 2 ^ e)"
  by (auto simp only: representable_def)

text \<open>Rounding never crosses a representable number.\<close>

lemma round53_lower:
  assumes "representable a" and "a \<le> m"
  shows "a \<le> round53 m"
proof (cases "m < 2 ^ 53")
  case True
  then show ?thesis using assms by (simp add: round53_small)
next
  case False
  then obtain k q where q: "q = m div 2 ^ k" "2 ^ 52 \<le> q"
      "round53 m = q * 2 ^ k \<or> round53 m = (q + 1) * 2 ^ k"
    by (metis round53_large not_less)
  have "a \<le> q * 2 ^ k"
  proof (cases "2 ^ k dvd a")
    case True
    then obtain d where "a = d * 2 ^ k" by (metis dvd_def mult.commute)
    then show ?thesis using assms(2) q(1) by (simp add: less_eq_div_iff_mult_less_eq)
  next
    case False
    then have "a < 2 ^ 52 * 2 ^ k" using representable_cases [OF assms(1)] by blast
    also have "\<dots> \<le> q * 2 ^ k" using q(2) by (rule mult_le_mono1)
    finally show ?thesis by simp
  qed
  then show ?thesis using q(3) by auto
qed

lemma round53_upper:
  assumes "representable b" and "m \<le> b"
  shows "round53 m \<le> b"
proof (cases "m < 2 ^ 53")
  case True
  then show ?thesis using assms by (simp add: round53_small)
next
  case False
  then obtain k q where q: "q = m div 2 ^ k" "2 ^ 52 \<le> q"
      "round53 m = q * 2 ^ k \<or> round53 m = (q + 1) * 2 ^ k" "m = q * 2 ^ k \<longrightarrow> round53 m = m"
    by (metis round53_large not_less)
  have below: "q * 2 ^ k \<le> m" by (simp add: q(1))
  have "2 ^ k dvd b"
  proof (rule ccontr)
    assume "\<not> 2 ^ k dvd b"
    then have "b < 2 ^ 52 * 2 ^ k" using representable_cases [OF assms(1)] by blast
    also have "\<dots> \<le> q * 2 ^ k" using q(2) by (rule mult_le_mono1)
    finally show False using below assms(2) by simp
  qed
  then obtain d where d: "b = d * 2 ^ k" by (metis dvd_def mult.commute)
  show ?thesis
  proof (cases "m = q * 2 ^ k")
    case True
    then show ?thesis using q(4) assms(2) by simp
  next
    case False
    then have "q * 2 ^ k < d * 2 ^ k" using below assms(2) d by linarith
    then have "q * 2 ^ k \<le> b" "q + 1 \<le> d" using d by simp_all
    moreover from this have "(q + 1) * 2 ^ k \<le> b" unfolding d by (intro mult_le_mono1)
    ultimately show ?thesis using q(3) by metis
  qed
qed

section \<open>The jitter\<close>

text \<open>
  \<open>sm.rng.Float64()\<close> returns a number in \<open>[0, 1)\<close>; the generator itself is a parameter, a draw is the
  numerator of that number over \<open>2 ^ 63\<close>. The code computes \<open>time.Duration(float64(delay) * (0.5 + draw))\<close>:
  an addition, a conversion and a multiplication that round, then a conversion that truncates towards
  zero. A result outside \<open>int64\<close> is converted to the least \<open>int64\<close> (as on amd64).
\<close>

definition jitterFactor :: "nat \<Rightarrow> nat" where
  "jitterFactor draw = round53 (2 ^ 62 + draw)"

definition jittered :: "duration \<Rightarrow> nat \<Rightarrow> duration" where
  "jittered delay draw =
     (let magnitude = round53 (round53 (nat \<bar>sint delay\<bar>) * jitterFactor draw) div 2 ^ 63
      in if magnitude \<ge> 2 ^ 63 then word_of_int (- (2 ^ 63))
         else if sint delay < 0 then - word_of_nat magnitude else word_of_nat magnitude)"

lemma jittered_bounds:
  assumes "0 \<le> sint delay" and "sint delay < 2 ^ 51" and "draw < 2 ^ 63"
  shows "sint delay div 2 \<le> sint (jittered delay draw)
    \<and> sint (jittered delay draw) \<le> 3 * sint delay div 2"
proof -
  define d where "d = nat (sint delay)"
  have d: "d < 2 ^ 51" "sint delay = int d" "nat \<bar>sint delay\<bar> = d"
    using assms(1,2) by (simp_all add: d_def nat_less_iff)
  define p where "p = d * jitterFactor draw"
  have rep: "representable (2 ^ 62)" "representable (3 * 2 ^ 62)"
      "representable (d * 2 ^ 62)" "representable (3 * d * 2 ^ 62)"
    using representableI [of 1 62] representableI [of 3 62] representableI [of d 62]
      representableI [of "3 * d" 62] d(1) by simp_all
  have "2 ^ 62 \<le> jitterFactor draw" "jitterFactor draw \<le> 3 * 2 ^ 62"
    unfolding jitterFactor_def using assms(3)
    by (intro round53_lower round53_upper rep; simp)+
  then have "d * 2 ^ 62 \<le> p" "p \<le> 3 * d * 2 ^ 62"
    by (auto simp: p_def intro: order_trans [OF mult_le_mono2])
  then have "d * 2 ^ 62 \<le> round53 p" "round53 p \<le> 3 * d * 2 ^ 62"
    using round53_lower [OF rep(3)] round53_upper [OF rep(4)] by blast+
  then have m: "d div 2 \<le> round53 p div 2 ^ 63" "round53 p div 2 ^ 63 \<le> 3 * d div 2"
    using div_le_mono [of "d * 2 ^ 62" "round53 p" "2 ^ 63"] div_le_mono [of "round53 p" "3 * d * 2 ^ 62" "2 ^ 63"]
    by simp_all
  moreover have "3 * d div 2 < 2 ^ 53"
    using d(1) by simp
  ultimately have small: "round53 p div 2 ^ 63 < 2 ^ 53" by linarith
  have "jittered delay draw = word_of_nat (round53 p div 2 ^ 63)"
    using assms(1) small d(1,3) by (simp add: jittered_def p_def Let_def round53_small)
  moreover have "sint (word_of_nat (round53 p div 2 ^ 63) :: duration) = int (round53 p div 2 ^ 63)"
    using small by (simp add: signed_of_nat signed_take_bit_int_eq_self)
  ultimately show ?thesis
    using m zdiv_int [of d 2] zdiv_int [of "3 * d" 2] by (simp add: d(2) flip: of_nat_le_iff [where 'a = int])
qed

end
