(* ===== verification/SyncStateMachine.thy ===== *)
theory SyncStateMachine
  imports ProtoConverter Floats
begin

text \<open>
  \<open>pkg/client/state_machine.go\<close>: the passive state machine that decides when to ask the assigner for the
  current assignment, what to tell it, and what to do with its answers. Every operation takes the current
  time and returns the new state with the actions for the driver. A panic unwinds the goroutine and ends
  the process, so no state is returned with one.
\<close>

section \<open>Data\<close>

record redirect =
  rd_Address :: "string option"
  rd_Token :: "byte list"

definition redirect_IsEmpty :: "redirect \<Rightarrow> bool" where
  "redirect_IsEmpty r \<longleftrightarrow> (case rd_Address r of None \<Rightarrow> True | Some a \<Rightarrow> a = [])"

definition EmptyRedirect :: redirect where
  "EmptyRedirect = \<lparr>rd_Address = None, rd_Token = []\<rparr>"

text \<open>\<open>Event\<close> and \<open>DriverAction\<close> are sealed by an unexported method; the values passed are of these types.\<close>

datatype event =
    EventReadSuccess "string option" i64 "client_response_p option"
  | EventReadFailure i64
  | EventCancel

datatype driver_action =
    ActionUseAssignment assignment
  | ActionSendRequest redirect i64 sync_assignment_state_p duration

record config =
  DefaultWatchAddress :: string
  WatchRPCTimeout :: duration
  MinRetryDelay :: duration
  MaxRetryDelay :: duration

definition Second :: duration where
  "Second = 1000000000"

definition DefaultStateMachineConfig :: config where
  "DefaultStateMachineConfig =
     \<lparr>DefaultWatchAddress = ''localhost:50051'', WatchRPCTimeout = 30 * Second,
      MinRetryDelay = 50 * Millisecond, MaxRetryDelay = 2 * Second\<rparr>"

record read_state =
  rs_opID :: i64
  rs_deadline :: go_time

record remote_known =
  rk_address :: "string option"
  rk_generation :: generation

text \<open>The field \<open>rng\<close> is the stream of numbers the generator will draw.\<close>

record state_machine =
  sm_config :: config
  sm_rng :: "nat \<Rightarrow> nat"
  isCancelled :: bool
  sm_assignment :: "assignment option"
  lastOpID :: i64
  latestReadState :: "read_state option"
  sm_redirect :: redirect
  remoteKnown :: remote_known
  watchRPCTimeout :: duration
  inBackoff :: bool
  currentBackoffWait :: duration
  scheduledReadTime :: go_time

definition default_if_not_positive :: "duration \<Rightarrow> duration \<Rightarrow> duration" where
  "default_if_not_positive d x = (if sint x \<le> 0 then d else x)"

definition NewAssignmentSyncStateMachine :: "config \<Rightarrow> (nat \<Rightarrow> nat) \<Rightarrow> state_machine" where
  "NewAssignmentSyncStateMachine cfg rng =
     (let cfg = cfg\<lparr>WatchRPCTimeout := default_if_not_positive (30 * Second) (WatchRPCTimeout cfg),
                    MinRetryDelay := default_if_not_positive (50 * Millisecond) (MinRetryDelay cfg),
                    MaxRetryDelay := default_if_not_positive (2 * Second) (MaxRetryDelay cfg)\<rparr>
      in \<lparr>sm_config = cfg, sm_rng = rng, isCancelled = False, sm_assignment = None, lastOpID = 0,
          latestReadState = None, sm_redirect = EmptyRedirect,
          remoteKnown = \<lparr>rk_address = None, rk_generation = EmptyGeneration\<rparr>,
          watchRPCTimeout = WatchRPCTimeout cfg, inBackoff = False,
          currentBackoffWait = MinRetryDelay cfg, scheduledReadTime = zero_Time\<rparr>)"

definition IsCancelled :: "state_machine \<Rightarrow> bool" where
  "IsCancelled sm = isCancelled sm"

definition IsInBackoff :: "state_machine \<Rightarrow> bool" where
  "IsInBackoff sm = inBackoff sm"

definition CurrentAssignment :: "state_machine \<Rightarrow> assignment option" where
  "CurrentAssignment sm = sm_assignment sm"

section \<open>Operations\<close>

text \<open>\<open>Time.Add\<close>.\<close>

definition time_Add :: "go_time \<Rightarrow> duration \<Rightarrow> go_time" where
  "time_Add t d = t + sint d"

definition setupRetry :: "go_time \<Rightarrow> state_machine \<Rightarrow> state_machine" where
  "setupRetry now sm =
     (let actualDelay = jittered (currentBackoffWait sm) (sm_rng sm 0);
          nextWait = currentBackoffWait sm * 2
      in sm\<lparr>latestReadState := None, sm_redirect := EmptyRedirect, inBackoff := True,
            sm_rng := (\<lambda>i. sm_rng sm (Suc i)),
            scheduledReadTime := time_Add now actualDelay,
            currentBackoffWait :=
              (if sint nextWait > sint (MaxRetryDelay (sm_config sm)) then MaxRetryDelay (sm_config sm)
               else nextWait)\<rparr>)"

definition resetBackoff :: "state_machine \<Rightarrow> state_machine" where
  "resetBackoff sm = sm\<lparr>inBackoff := False, currentBackoffWait := MinRetryDelay (sm_config sm)\<rparr>"

definition sameAddress :: "string option \<Rightarrow> string option \<Rightarrow> bool" where
  "sameAddress a b \<longleftrightarrow>
     (case (a, b) of
        (None, None) \<Rightarrow> True
      | (Some x, Some y) \<Rightarrow> x = y
      | _ \<Rightarrow> False)"

text \<open>The sync state of the next request.\<close>

definition next_sync_state :: "runtime \<Rightarrow> state_machine \<Rightarrow> sync_assignment_state_p" where
  "next_sync_state env sm =
     (if (case sm_assignment sm of
            None \<Rightarrow> False
          | Some a \<Rightarrow> gen_Compare (a_Generation a) (rk_generation (remoteKnown sm)) > 0)
         \<and> sameAddress (rd_Address (sm_redirect sm)) (rk_address (remoteKnown sm))
      then \<lparr>ss_State = Some (KnownAssignment (AssignmentToProto env (sm_assignment sm)))\<rparr>
      else
        let knownGen = (case sm_assignment sm of None \<Rightarrow> EmptyGeneration | Some a \<Rightarrow> a_Generation a)
        in \<lparr>ss_State = Some (KnownGeneration (Some (GenerationToProto knownGen)))\<rparr>)"

definition onAdvanceInternal ::
  "runtime \<Rightarrow> go_time \<Rightarrow> state_machine \<Rightarrow> state_machine \<times> driver_action list" where
  "onAdvanceInternal env now sm =
     (let sm1 = (case latestReadState sm of
                   Some rs \<Rightarrow> if \<not> now < rs_deadline rs then setupRetry now sm else sm
                 | None \<Rightarrow> sm)
      in if latestReadState sm1 \<noteq> None then (sm1, [])
         else if \<not> now < scheduledReadTime sm1 then
           let opID = lastOpID sm1 + 1;
               deadline = time_Add now (watchRPCTimeout sm1);
               sm2 = sm1\<lparr>inBackoff := False, lastOpID := opID,
                          latestReadState := Some \<lparr>rs_opID = opID, rs_deadline = deadline\<rparr>\<rparr>
           in (sm2, [ActionSendRequest (sm_redirect sm2) opID (next_sync_state env sm2) (watchRPCTimeout sm2)])
         else (sm1, []))"

definition incorporateSyncState ::
  "runtime \<Rightarrow> sync_assignment_state_p option \<Rightarrow> state_machine \<Rightarrow>
     (bool \<times> state_machine \<times> driver_action list) result" where
  "incorporateSyncState env syncState sm =
     (case syncState of
        None \<Rightarrow> Inr (False, sm, [])
      | Some ss \<Rightarrow>
          (case GetKnownAssignment ss of
             None \<Rightarrow> Inr (False, sm, [])
           | Some assignmentProto \<Rightarrow>
               (case AssignmentFromProto env (Some assignmentProto) of
                  Inl (Panic e) \<Rightarrow> Inl (Panic e)
                | Inl (Error e) \<Rightarrow> Inr (False, sm, [])
                | Inr newAssignment \<Rightarrow>
                    if (case sm_assignment sm of
                          None \<Rightarrow> True
                        | Some a \<Rightarrow> gen_Compare (a_Generation newAssignment) (a_Generation a) > 0)
                    then Inr (True, sm\<lparr>sm_assignment := Some newAssignment\<rparr>, [ActionUseAssignment newAssignment])
                    else Inr (False, sm, []))))"

text \<open>\<open>respGen\<close>: the generation the responder says it knows.\<close>

definition response_generation :: "sync_assignment_state_p option \<Rightarrow> generation result" where
  "response_generation syncState =
     (case syncState of
        None \<Rightarrow> Inr EmptyGeneration
      | Some ss \<Rightarrow>
          (case ss_State ss of
             Some (KnownGeneration g) \<Rightarrow> GenerationFromProto g
           | Some (KnownAssignment (Some a)) \<Rightarrow> GenerationFromProto (dap_Generation a)
           | _ \<Rightarrow> Inr EmptyGeneration))"

definition suggest_timeout :: "client_response_p \<Rightarrow> state_machine \<Rightarrow> state_machine" where
  "suggest_timeout resp sm =
     (if sint (crp_SuggestedRpcTimeoutMillis resp) > 0
      then sm\<lparr>watchRPCTimeout := crp_SuggestedRpcTimeoutMillis resp * Millisecond\<rparr> else sm)"

definition onReadSuccess ::
  "runtime \<Rightarrow> go_time \<Rightarrow> string option \<Rightarrow> i64 \<Rightarrow> client_response_p option \<Rightarrow> state_machine \<Rightarrow>
     (state_machine \<times> driver_action list) result" where
  "onReadSuccess env now address opID resp sm =
     (case resp of
        None \<Rightarrow> Inr (sm, [])
      | Some resp \<Rightarrow>
          and_then (incorporateSyncState env (crp_SyncAssignmentState resp) sm) (\<lambda>(isNew, sm1, actions).
          let sm2 = sm1\<lparr>sm_redirect := (case crp_Redirect resp of
                          Some r \<Rightarrow> \<lparr>rd_Address = Some (rp_Address r), rd_Token = rp_RedirectToken r\<rparr>
                        | None \<Rightarrow> EmptyRedirect)\<rparr>
          in and_then (response_generation (crp_SyncAssignmentState resp)) (\<lambda>respGen.
             let remote = \<lparr>rk_address = address, rk_generation = respGen\<rparr>
             in if (case latestReadState sm2 of None \<Rightarrow> True | Some rs \<Rightarrow> opID \<noteq> rs_opID rs)
                then Inr ((if isNew then suggest_timeout resp (sm2\<lparr>remoteKnown := remote\<rparr>) else sm2), actions)
                else Inr ((suggest_timeout resp (resetBackoff (sm2\<lparr>latestReadState := None\<rparr>)))
                            \<lparr>remoteKnown := remote, scheduledReadTime := now\<rparr>, actions))))"

definition onReadFailure :: "go_time \<Rightarrow> i64 \<Rightarrow> state_machine \<Rightarrow> state_machine" where
  "onReadFailure now opID sm =
     (if (case latestReadState sm of None \<Rightarrow> True | Some rs \<Rightarrow> opID \<noteq> rs_opID rs) then sm
      else setupRetry now sm)"

definition OnAdvance :: "runtime \<Rightarrow> go_time \<Rightarrow> state_machine \<Rightarrow> state_machine \<times> driver_action list" where
  "OnAdvance env now sm = (if isCancelled sm then (sm, []) else onAdvanceInternal env now sm)"

definition OnEvent ::
  "runtime \<Rightarrow> go_time \<Rightarrow> event \<Rightarrow> state_machine \<Rightarrow> (state_machine \<times> driver_action list) result" where
  "OnEvent env now event sm =
     (if isCancelled sm then Inr (sm, [])
      else case event of
        EventReadSuccess address opID resp \<Rightarrow>
          and_then (onReadSuccess env now address opID resp sm) (\<lambda>(sm1, actions).
            let (sm2, more) = onAdvanceInternal env now sm1 in Inr (sm2, actions @ more))
      | EventReadFailure opID \<Rightarrow> Inr (onAdvanceInternal env now (onReadFailure now opID sm))
      | EventCancel \<Rightarrow> Inr (sm\<lparr>isCancelled := True\<rparr>, []))"

section \<open>Runs\<close>

text \<open>An input is a time with an event, or with none for a call of \<open>OnAdvance\<close>.\<close>

type_synonym sm_input = "go_time \<times> event option"

definition sm_step :: "runtime \<Rightarrow> sm_input \<Rightarrow> state_machine \<Rightarrow> (state_machine \<times> driver_action list) result" where
  "sm_step env i sm =
     (case snd i of
        None \<Rightarrow> Inr (OnAdvance env (fst i) sm)
      | Some event \<Rightarrow> OnEvent env (fst i) event sm)"

inductive sm_run :: "runtime \<Rightarrow> state_machine \<Rightarrow> sm_input list \<Rightarrow> driver_action list \<Rightarrow> state_machine \<Rightarrow> bool"
  for env :: runtime and sm :: state_machine where
  start: "sm_run env sm [] [] sm"
| step: "sm_run env sm ins acts sm' \<Longrightarrow> sm_step env i sm' = Inr (sm'', acts2) \<Longrightarrow>
    sm_run env sm (ins @ [i]) (acts @ acts2) sm''"

inductive_cases sm_run_snocE: "sm_run env sm (ins @ [i]) acts sm'"

fun uses :: "driver_action list \<Rightarrow> assignment list" where
  "uses [] = []"
| "uses (ActionUseAssignment a # acts) = a # uses acts"
| "uses (ActionSendRequest r n s d # acts) = uses acts"

fun sends :: "driver_action list \<Rightarrow> i64 list" where
  "sends [] = []"
| "sends (ActionUseAssignment a # acts) = sends acts"
| "sends (ActionSendRequest r n s d # acts) = n # sends acts"

lemma uses_append [simp]: "uses (xs @ ys) = uses xs @ uses ys"
  by (induction xs rule: uses.induct) auto

lemma sends_append [simp]: "sends (xs @ ys) = sends xs @ sends ys"
  by (induction xs rule: sends.induct) auto

subsection \<open>What each operation leaves alone\<close>

lemma setupRetry_simps [simp]:
  "sm_config (setupRetry now sm) = sm_config sm" "isCancelled (setupRetry now sm) = isCancelled sm"
  "sm_assignment (setupRetry now sm) = sm_assignment sm" "lastOpID (setupRetry now sm) = lastOpID sm"
  "latestReadState (setupRetry now sm) = None" "remoteKnown (setupRetry now sm) = remoteKnown sm"
  "watchRPCTimeout (setupRetry now sm) = watchRPCTimeout sm" "sm_redirect (setupRetry now sm) = EmptyRedirect"
  "inBackoff (setupRetry now sm)"
  by (simp_all add: setupRetry_def Let_def)

lemma resetBackoff_simps [simp]:
  "sm_config (resetBackoff sm) = sm_config sm" "isCancelled (resetBackoff sm) = isCancelled sm"
  "sm_assignment (resetBackoff sm) = sm_assignment sm" "lastOpID (resetBackoff sm) = lastOpID sm"
  "latestReadState (resetBackoff sm) = latestReadState sm" "sm_redirect (resetBackoff sm) = sm_redirect sm"
  "currentBackoffWait (resetBackoff sm) = MinRetryDelay (sm_config sm)" "\<not> inBackoff (resetBackoff sm)"
  "sm_rng (resetBackoff sm) = sm_rng sm"
  by (simp_all add: resetBackoff_def)

lemma suggest_timeout_simps [simp]:
  "sm_config (suggest_timeout resp sm) = sm_config sm" "isCancelled (suggest_timeout resp sm) = isCancelled sm"
  "sm_assignment (suggest_timeout resp sm) = sm_assignment sm" "lastOpID (suggest_timeout resp sm) = lastOpID sm"
  "latestReadState (suggest_timeout resp sm) = latestReadState sm"
  "sm_redirect (suggest_timeout resp sm) = sm_redirect sm" "remoteKnown (suggest_timeout resp sm) = remoteKnown sm"
  "currentBackoffWait (suggest_timeout resp sm) = currentBackoffWait sm"
  "inBackoff (suggest_timeout resp sm) = inBackoff sm" "sm_rng (suggest_timeout resp sm) = sm_rng sm"
  "scheduledReadTime (suggest_timeout resp sm) = scheduledReadTime sm"
  by (simp_all add: suggest_timeout_def)

text \<open>The deadline check and the sending of a request, the two halves of \<open>onAdvanceInternal\<close>.\<close>

definition check_deadline :: "go_time \<Rightarrow> state_machine \<Rightarrow> state_machine" where
  "check_deadline now sm =
     (case latestReadState sm of
        Some rs \<Rightarrow> if \<not> now < rs_deadline rs then setupRetry now sm else sm
      | None \<Rightarrow> sm)"

lemma check_deadline_simps [simp]:
  "sm_config (check_deadline now sm) = sm_config sm" "isCancelled (check_deadline now sm) = isCancelled sm"
  "sm_assignment (check_deadline now sm) = sm_assignment sm" "lastOpID (check_deadline now sm) = lastOpID sm"
  "remoteKnown (check_deadline now sm) = remoteKnown sm"
  "watchRPCTimeout (check_deadline now sm) = watchRPCTimeout sm"
  by (simp_all add: check_deadline_def split: option.splits)

definition send_request :: "runtime \<Rightarrow> go_time \<Rightarrow> state_machine \<Rightarrow> state_machine \<times> driver_action list" where
  "send_request env now sm =
     (let opID = lastOpID sm + 1;
          sm2 = sm\<lparr>inBackoff := False, lastOpID := opID,
                   latestReadState := Some \<lparr>rs_opID = opID, rs_deadline = time_Add now (watchRPCTimeout sm)\<rparr>\<rparr>
      in (sm2, [ActionSendRequest (sm_redirect sm) opID (next_sync_state env sm) (watchRPCTimeout sm)]))"

lemma onAdvanceInternal_eq:
  "onAdvanceInternal env now sm =
     (let sm1 = check_deadline now sm
      in if latestReadState sm1 = None \<and> scheduledReadTime sm1 \<le> now then send_request env now sm1
         else (sm1, []))"
  by (auto simp: onAdvanceInternal_def check_deadline_def send_request_def Let_def next_sync_state_def not_less
      split: option.splits)

lemma onAdvance_cases:
  assumes "onAdvanceInternal env now sm = (sm', acts)"
  obtains (quiet) "sm' = check_deadline now sm" "acts = []"
      "latestReadState sm' \<noteq> None \<or> now < scheduledReadTime sm'"
    | (send) "latestReadState (check_deadline now sm) = None" "scheduledReadTime (check_deadline now sm) \<le> now"
      "(sm', acts) = send_request env now (check_deadline now sm)"
  using assms unfolding onAdvanceInternal_eq Let_def
  by (auto split: if_splits)

lemma send_request_simps [simp]:
  "fst (send_request env now sm) = sm\<lparr>inBackoff := False, lastOpID := lastOpID sm + 1,
      latestReadState := Some \<lparr>rs_opID = lastOpID sm + 1, rs_deadline = time_Add now (watchRPCTimeout sm)\<rparr>\<rparr>"
  "sends (snd (send_request env now sm)) = [lastOpID sm + 1]" "uses (snd (send_request env now sm)) = []"
  by (simp_all add: send_request_def Let_def)

lemma onAdvance_frame:
  assumes "onAdvanceInternal env now sm = (sm', acts)"
  shows "uses acts = []" "sm_assignment sm' = sm_assignment sm" "isCancelled sm' = isCancelled sm"
    "sm_config sm' = sm_config sm" "remoteKnown sm' = remoteKnown sm"
  using assms by (cases rule: onAdvance_cases; auto simp: send_request_def Let_def)+

lemma onAdvance_sends:
  assumes "onAdvanceInternal env now sm = (sm', acts)"
  shows "(sends acts = [] \<and> lastOpID sm' = lastOpID sm
      \<and> (latestReadState sm' = latestReadState sm \<or> latestReadState sm' = None))
    \<or> (sends acts = [lastOpID sm + 1] \<and> lastOpID sm' = lastOpID sm + 1
      \<and> latestReadState sm' = Some \<lparr>rs_opID = lastOpID sm + 1, rs_deadline = time_Add now (watchRPCTimeout sm)\<rparr>)"
  using assms
  by (cases rule: onAdvance_cases) (auto simp: send_request_def Let_def check_deadline_def split: option.splits)

subsection \<open>Assignments\<close>

definition newer :: "assignment option \<Rightarrow> assignment \<Rightarrow> bool" where
  "newer cur a \<longleftrightarrow> (case cur of None \<Rightarrow> True | Some b \<Rightarrow> gen_Less (a_Generation b) (a_Generation a))"

definition takes_up :: "state_machine \<Rightarrow> state_machine \<Rightarrow> driver_action list \<Rightarrow> bool" where
  "takes_up sm sm' acts \<longleftrightarrow>
     (uses acts = [] \<and> sm_assignment sm' = sm_assignment sm)
     \<or> (\<exists>a. uses acts = [a] \<and> sm_assignment sm' = Some a \<and> valid_assignment a \<and> newer (sm_assignment sm) a)"

lemma incorporate_cases:
  assumes "incorporateSyncState env ss sm = Inr (isNew, sm1, acts)"
  shows "(\<not> isNew \<and> sm1 = sm \<and> acts = [])
    \<or> (\<exists>a. isNew \<and> sm1 = sm\<lparr>sm_assignment := Some a\<rparr> \<and> acts = [ActionUseAssignment a]
         \<and> valid_assignment a \<and> newer (sm_assignment sm) a)"
  using assms AssignmentFromProto_valid
  by (auto simp: incorporateSyncState_def newer_def order_simps
      split: option.splits sum.splits failure.splits if_splits)

lemma onReadSuccess_frame:
  assumes "onReadSuccess env now address opID resp sm = Inr (sm', acts)"
  shows "takes_up sm sm' acts \<and> sends acts = [] \<and> lastOpID sm' = lastOpID sm \<and> isCancelled sm' = isCancelled sm
    \<and> sm_config sm' = sm_config sm \<and> sm_rng sm' = sm_rng sm
    \<and> (latestReadState sm' = latestReadState sm \<or> latestReadState sm' = None)"
proof (cases resp)
  case None
  then show ?thesis using assms by (simp add: onReadSuccess_def takes_up_def)
next
  case (Some r)
  obtain isNew sm1 acts1 where inc: "incorporateSyncState env (crp_SyncAssignmentState r) sm = Inr (isNew, sm1, acts1)"
    using assms Some by (auto simp: onReadSuccess_def elim!: and_then_InrE)
  have "acts = acts1" "sm_assignment sm' = sm_assignment sm1" "lastOpID sm' = lastOpID sm1"
      "isCancelled sm' = isCancelled sm1" "sm_config sm' = sm_config sm1" "sm_rng sm' = sm_rng sm1"
      "latestReadState sm' = latestReadState sm1 \<or> latestReadState sm' = None"
    using assms Some inc by (auto simp: onReadSuccess_def Let_def and_then_Inr_iff split: if_splits)
  then show ?thesis
    using incorporate_cases [OF inc] by (auto simp: takes_up_def)
qed

lemma sm_step_cases:
  assumes "sm_step env i sm = Inr (sm', acts)"
  obtains (dead) "isCancelled sm" "sm' = sm" "acts = []"
    | (cancel) "\<not> isCancelled sm" "snd i = Some EventCancel" "sm' = sm\<lparr>isCancelled := True\<rparr>" "acts = []"
    | (advance) "\<not> isCancelled sm" "snd i = None" "onAdvanceInternal env (fst i) sm = (sm', acts)"
    | (failure) opID where "\<not> isCancelled sm" "snd i = Some (EventReadFailure opID)"
      "onAdvanceInternal env (fst i) (onReadFailure (fst i) opID sm) = (sm', acts)"
    | (success) address opID resp sm1 acts1 acts2 where "\<not> isCancelled sm"
      "snd i = Some (EventReadSuccess address opID resp)"
      "onReadSuccess env (fst i) address opID resp sm = Inr (sm1, acts1)"
      "onAdvanceInternal env (fst i) sm1 = (sm', acts2)" "acts = acts1 @ acts2"
proof (cases "isCancelled sm")
  case True
  then show ?thesis
    using assms dead by (auto simp: sm_step_def OnAdvance_def OnEvent_def split: option.splits)
next
  case False
  show ?thesis
  proof (cases "snd i")
    case None
    then show ?thesis using assms False advance by (auto simp: sm_step_def OnAdvance_def)
  next
    case (Some e)
    show ?thesis
    proof (cases e)
      case (EventReadSuccess address opID resp)
      then have "and_then (onReadSuccess env (fst i) address opID resp sm) (\<lambda>(sm1, actions).
            let (sm2, acts2) = onAdvanceInternal env (fst i) sm1 in Inr (sm2, actions @ acts2)) = Inr (sm', acts)"
        using assms Some False by (simp add: sm_step_def OnEvent_def)
      then obtain sm1 acts1 where one: "onReadSuccess env (fst i) address opID resp sm = Inr (sm1, acts1)"
          "(let (sm2, acts2) = onAdvanceInternal env (fst i) sm1 in Inr (sm2, acts1 @ acts2))
            = (Inr (sm', acts) :: (state_machine \<times> driver_action list) result)"
        by (auto simp: and_then_Inr_iff)
      obtain sm2 acts2 where two: "onAdvanceInternal env (fst i) sm1 = (sm2, acts2)" by fastforce
      with one(2) have "sm2 = sm'" "acts = acts1 @ acts2" by simp_all
      then show ?thesis
        using success [OF False Some [unfolded EventReadSuccess] one(1)] two by simp
    next
      case (EventReadFailure opID)
      then show ?thesis using assms Some False failure by (auto simp: sm_step_def OnEvent_def)
    next
      case EventCancel
      then show ?thesis using assms Some False cancel by (auto simp: sm_step_def OnEvent_def)
    qed
  qed
qed

lemma onReadFailure_simps [simp]:
  "sm_config (onReadFailure now opID sm) = sm_config sm" "isCancelled (onReadFailure now opID sm) = isCancelled sm"
  "sm_assignment (onReadFailure now opID sm) = sm_assignment sm" "lastOpID (onReadFailure now opID sm) = lastOpID sm"
  "remoteKnown (onReadFailure now opID sm) = remoteKnown sm"
  "watchRPCTimeout (onReadFailure now opID sm) = watchRPCTimeout sm"
  by (simp_all add: onReadFailure_def)

lemma onReadFailure_read:
  "latestReadState (onReadFailure now opID sm) = latestReadState sm \<or> latestReadState (onReadFailure now opID sm) = None"
  by (simp add: onReadFailure_def)

lemma onAdvance_takes_up:
  "onAdvanceInternal env now sm1 = (sm', acts2) \<Longrightarrow> takes_up sm sm1 acts1 \<Longrightarrow> takes_up sm sm' (acts1 @ acts2)"
  by (simp add: takes_up_def onAdvance_frame)

lemma sm_step_frame:
  assumes "sm_step env i sm = Inr (sm', acts)"
  shows "takes_up sm sm' acts \<and> sm_config sm' = sm_config sm \<and> (isCancelled sm \<longrightarrow> sm' = sm \<and> acts = [])"
  using assms
proof (cases rule: sm_step_cases)
  case advance
  then show ?thesis
    using onAdvance_takes_up [OF advance(3), of sm "[]"] onAdvance_frame(4) [OF advance(3)]
    by (simp add: takes_up_def)
next
  case (failure opID)
  then show ?thesis
    using onAdvance_takes_up [OF failure(3), of sm "[]"] onAdvance_frame(4) [OF failure(3)]
    by (simp add: takes_up_def)
next
  case (success address opID resp sm1 acts1 acts2)
  have sm1: "takes_up sm sm1 acts1" "sm_config sm1 = sm_config sm"
    using onReadSuccess_frame [OF success(3)] by simp_all
  show ?thesis
    using onAdvance_takes_up [OF success(4) sm1(1)] onAdvance_frame(4) [OF success(4)] sm1(2) success(1,5)
    by simp
qed (simp_all add: takes_up_def)

lemma sm_step_cancelled:
  assumes "sm_step env i sm = Inr (sm', acts)"
  shows "isCancelled sm' \<longleftrightarrow> isCancelled sm \<or> snd i = Some EventCancel"
  using assms
proof (cases rule: sm_step_cases)
  case advance
  then show ?thesis using onAdvance_frame(3) [OF advance(3)] by simp
next
  case (failure opID)
  then show ?thesis using onAdvance_frame(3) [OF failure(3)] by simp
next
  case (success address opID resp sm1 acts1 acts2)
  then show ?thesis
    using onAdvance_frame(3) [OF success(4)] onReadSuccess_frame [OF success(3)] by simp
qed simp_all

text \<open>Every request carries the next operation number, and only the last one sent can be outstanding.\<close>

definition op_inv :: "state_machine \<Rightarrow> bool" where
  "op_inv sm \<longleftrightarrow> (\<forall>rs. latestReadState sm = Some rs \<longrightarrow> rs_opID rs = lastOpID sm)"

lemma onAdvance_ops:
  assumes "onAdvanceInternal env now sm = (sm', acts)" and "op_inv sm"
  shows "op_inv sm' \<and> (sends acts = [] \<and> lastOpID sm' = lastOpID sm
    \<or> sends acts = [lastOpID sm'] \<and> lastOpID sm' = lastOpID sm + 1)"
  using onAdvance_sends [OF assms(1)] assms(2) by (auto simp: op_inv_def)

lemma op_inv_mono:
  "op_inv sm \<Longrightarrow> lastOpID sm' = lastOpID sm \<Longrightarrow> latestReadState sm' = latestReadState sm \<or> latestReadState sm' = None \<Longrightarrow>
     op_inv sm'"
  by (auto simp: op_inv_def)

lemma sm_step_ops:
  assumes "sm_step env i sm = Inr (sm', acts)" and "op_inv sm"
  shows "op_inv sm' \<and> (sends acts = [] \<and> lastOpID sm' = lastOpID sm
    \<or> sends acts = [lastOpID sm'] \<and> lastOpID sm' = lastOpID sm + 1)"
  using assms(1)
proof (cases rule: sm_step_cases)
  case (advance)
  then show ?thesis using onAdvance_ops assms(2) by blast
next
  case (failure opID)
  have "op_inv (onReadFailure (fst i) opID sm)"
    using op_inv_mono [OF assms(2)] onReadFailure_read by simp
  from onAdvance_ops [OF failure(3) this] show ?thesis by simp
next
  case (success address opID resp sm1 acts1 acts2)
  have sm1: "sends acts1 = []" "lastOpID sm1 = lastOpID sm" "op_inv sm1"
    using onReadSuccess_frame [OF success(3)] op_inv_mono [OF assms(2), of sm1] by simp_all
  from onAdvance_ops [OF success(4) this(3)] sm1 success(5) show ?thesis by simp
qed (use assms(2) in \<open>auto simp: op_inv_def\<close>)

lemma sm_run_assignments:
  "sm_run env sm ins acts sm' \<Longrightarrow> sm_assignment sm = None \<Longrightarrow>
     sorted_wrt (\<lambda>a b. gen_Less (a_Generation a) (a_Generation b)) (uses acts)
     \<and> (\<forall>a \<in> set (uses acts). valid_assignment a)
     \<and> sm_assignment sm' = (if uses acts = [] then None else Some (last (uses acts)))"
proof (induction rule: sm_run.induct)
  case start
  then show ?case by simp
next
  case (step ins acts sm' i sm'' acts2)
  have IH: "sorted_wrt (\<lambda>a b. gen_Less (a_Generation a) (a_Generation b)) (uses acts)"
      "\<forall>a \<in> set (uses acts). valid_assignment a"
      "sm_assignment sm' = (if uses acts = [] then None else Some (last (uses acts)))"
    using step by simp_all
  have below: "gen_Less (a_Generation b) (a_Generation a)"
    if "newer (sm_assignment sm') a" "b \<in> set (uses acts)" for a b
  proof -
    have ne: "uses acts \<noteq> []" using that(2) by auto
    then have last: "gen_Less (a_Generation (last (uses acts))) (a_Generation a)"
      using that(1) IH(3) by (simp add: newer_def)
    obtain xs where xs: "uses acts = xs @ [last (uses acts)]"
      using ne by (metis append_butlast_last_id)
    then have "b \<in> set xs \<or> b = last (uses acts)"
      using that(2) by (metis Un_iff empty_iff empty_set list.simps(15) insert_iff set_append)
    moreover have "\<forall>x \<in> set xs. gen_Less (a_Generation x) (a_Generation (last (uses acts)))"
      using IH(1) by (subst (asm) xs) (simp add: sorted_wrt_append)
    ultimately show ?thesis using last by (auto simp: order_simps)
  qed
  from sm_step_frame [OF step(2)] show ?case
    using IH below by (auto simp: takes_up_def sorted_wrt_append)
qed

lemma sm_run_sends:
  "sm_run env sm ins acts sm' \<Longrightarrow> op_inv sm \<Longrightarrow>
     op_inv sm' \<and> sends acts = map (\<lambda>k. lastOpID sm + word_of_nat (Suc k)) [0..<length (sends acts)]
     \<and> lastOpID sm' = lastOpID sm + word_of_nat (length (sends acts))"
proof (induction rule: sm_run.induct)
  case start
  then show ?case by simp
next
  case (step ins acts sm' i sm'' acts2)
  have IH: "op_inv sm'" "sends acts = map (\<lambda>k. lastOpID sm + word_of_nat (Suc k)) [0..<length (sends acts)]"
      "lastOpID sm' = lastOpID sm + word_of_nat (length (sends acts))"
    using step by simp_all
  consider "sends acts2 = []" "lastOpID sm'' = lastOpID sm'"
    | "sends acts2 = [lastOpID sm'']" "lastOpID sm'' = lastOpID sm' + 1"
    using sm_step_ops [OF step(2) IH(1)] by blast
  then show ?case
  proof cases
    case 1
    then show ?thesis using sm_step_ops [OF step(2) IH(1)] IH by simp
  next
    case 2
    have "sends (acts @ acts2) = map (\<lambda>k. lastOpID sm + word_of_nat (Suc k)) [0..<length (sends acts)]
        @ [lastOpID sm + word_of_nat (Suc (length (sends acts)))]"
      using 2 IH(2,3) by (simp add: add.assoc add.commute [of 1])
    then show ?thesis
      using sm_step_ops [OF step(2) IH(1)] 2 IH(3) by (simp add: add.assoc)
  qed
qed

subsection \<open>Backoff\<close>

definition config_ok :: "config \<Rightarrow> bool" where
  "config_ok cfg \<longleftrightarrow>
     0 < sint (MinRetryDelay cfg) \<and> sint (MinRetryDelay cfg) \<le> sint (MaxRetryDelay cfg)
     \<and> sint (MaxRetryDelay cfg) < 2 ^ 50"

definition draws_ok :: "(nat \<Rightarrow> nat) \<Rightarrow> bool" where
  "draws_ok rng \<longleftrightarrow> (\<forall>i. rng i < 2 ^ 63)"

definition backoff_inv :: "state_machine \<Rightarrow> bool" where
  "backoff_inv sm \<longleftrightarrow>
     config_ok (sm_config sm) \<and> draws_ok (sm_rng sm)
     \<and> sint (MinRetryDelay (sm_config sm)) \<le> sint (currentBackoffWait sm)
     \<and> sint (currentBackoffWait sm) \<le> sint (MaxRetryDelay (sm_config sm))"

lemma sint_double:
  assumes "0 \<le> sint (d :: duration)" and "sint d < 2 ^ 50"
  shows "sint (d * 2) = 2 * sint d"
proof -
  have "sint (d * 2) = signed_take_bit 63 (sint d * 2)"
    by (simp add: sint_word_ariths)
  then show ?thesis
    using assms by (simp add: signed_take_bit_int_eq_self)
qed

lemma setupRetry_backoff:
  assumes "backoff_inv sm"
  shows "sint (currentBackoffWait (setupRetry now sm))
      = min (2 * sint (currentBackoffWait sm)) (sint (MaxRetryDelay (sm_config sm)))"
    and "now + sint (currentBackoffWait sm) div 2 \<le> scheduledReadTime (setupRetry now sm)"
    and "scheduledReadTime (setupRetry now sm) \<le> now + 3 * sint (currentBackoffWait sm) div 2"
    and "backoff_inv (setupRetry now sm)"
proof -
  let ?w = "currentBackoffWait sm" and ?max = "MaxRetryDelay (sm_config sm)"
  have w: "0 < sint ?w" "sint ?w \<le> sint ?max" "sint ?max < 2 ^ 50" "sm_rng sm 0 < 2 ^ 63"
    using assms by (auto simp: backoff_inv_def config_ok_def draws_ok_def)
  have double: "sint (?w * 2) = 2 * sint ?w"
    using w by (intro sint_double) simp_all
  show wait: "sint (currentBackoffWait (setupRetry now sm)) = min (2 * sint ?w) (sint ?max)"
    using w by (simp add: setupRetry_def Let_def double min_def)
  show "now + sint ?w div 2 \<le> scheduledReadTime (setupRetry now sm)"
    "scheduledReadTime (setupRetry now sm) \<le> now + 3 * sint ?w div 2"
    using jittered_bounds [of ?w "sm_rng sm 0"] w by (simp_all add: setupRetry_def Let_def time_Add_def)
  have "draws_ok (sm_rng (setupRetry now sm))"
    using assms by (simp add: setupRetry_def Let_def backoff_inv_def draws_ok_def)
  then show "backoff_inv (setupRetry now sm)"
    using wait w assms by (simp add: backoff_inv_def)
qed

lemma backoff_inv_cong:
  "backoff_inv sm \<Longrightarrow> sm_config sm' = sm_config sm \<Longrightarrow> sm_rng sm' = sm_rng sm \<Longrightarrow>
     currentBackoffWait sm' = currentBackoffWait sm \<Longrightarrow> backoff_inv sm'"
  by (simp add: backoff_inv_def)

lemma backoff_inv_check: "backoff_inv sm \<Longrightarrow> backoff_inv (check_deadline now sm)"
  by (auto simp: check_deadline_def setupRetry_backoff split: option.splits)

lemma backoff_inv_advance:
  "onAdvanceInternal env now sm = (sm', acts) \<Longrightarrow> backoff_inv sm \<Longrightarrow> backoff_inv sm'"
  by (cases rule: onAdvance_cases)
    (auto simp: send_request_def Let_def intro: backoff_inv_check backoff_inv_cong [OF backoff_inv_check])

lemma backoff_inv_success:
  assumes "onReadSuccess env now address opID resp sm = Inr (sm', acts)" and "backoff_inv sm"
  shows "backoff_inv sm'"
proof (cases resp)
  case None
  then show ?thesis using assms by (simp add: onReadSuccess_def)
next
  case (Some r)
  obtain isNew sm1 acts1 where inc: "incorporateSyncState env (crp_SyncAssignmentState r) sm = Inr (isNew, sm1, acts1)"
    using assms Some by (auto simp: onReadSuccess_def elim!: and_then_InrE)
  then have "sm_config sm1 = sm_config sm" "sm_rng sm1 = sm_rng sm" "currentBackoffWait sm1 = currentBackoffWait sm"
    using incorporate_cases [OF inc] by auto
  moreover from this have "sm_rng sm' = sm_rng sm"
      "currentBackoffWait sm' = currentBackoffWait sm \<or> currentBackoffWait sm' = MinRetryDelay (sm_config sm)"
    using assms Some inc by (auto simp: onReadSuccess_def Let_def and_then_Inr_iff split: if_splits)
  ultimately show ?thesis
    using assms(2) onReadSuccess_frame [OF assms(1)] by (auto simp: backoff_inv_def config_ok_def)
qed

lemma backoff_inv_step:
  assumes "sm_step env i sm = Inr (sm', acts)" and "backoff_inv sm"
  shows "backoff_inv sm'"
  using assms(1)
proof (cases rule: sm_step_cases)
  case cancel
  then show ?thesis using assms(2) by (simp add: backoff_inv_def)
next
  case (failure opID)
  have "backoff_inv (onReadFailure (fst i) opID sm)"
    using assms(2) by (simp add: onReadFailure_def setupRetry_backoff)
  then show ?thesis using backoff_inv_advance failure(3) by blast
next
  case (success address opID resp sm1 acts1 acts2)
  then show ?thesis using backoff_inv_success backoff_inv_advance assms(2) by blast
qed (use assms(2) backoff_inv_advance in auto)

lemma backoff_inv_run: "sm_run env sm ins acts sm' \<Longrightarrow> backoff_inv sm \<Longrightarrow> backoff_inv sm'"
  by (induction rule: sm_run.induct) (auto intro: backoff_inv_step)

lemma backoff_series:
  assumes "backoff_inv sm" and "currentBackoffWait sm = MinRetryDelay (sm_config sm)"
  shows "sint (currentBackoffWait (fold setupRetry nows sm))
      = min (sint (MinRetryDelay (sm_config sm)) * 2 ^ length nows) (sint (MaxRetryDelay (sm_config sm)))
    \<and> backoff_inv (fold setupRetry nows sm) \<and> sm_config (fold setupRetry nows sm) = sm_config sm"
proof (induction nows rule: rev_induct)
  case Nil
  show ?case using assms by (simp add: backoff_inv_def config_ok_def)
next
  case (snoc now nows)
  let ?s = "fold setupRetry nows sm" and ?max = "sint (MaxRetryDelay (sm_config sm))"
  let ?w = "sint (MinRetryDelay (sm_config sm)) * 2 ^ length nows"
  have "0 < ?max" using assms(1) by (simp add: backoff_inv_def config_ok_def)
  then have "min (2 * min ?w ?max) ?max = min (2 * ?w) ?max" by (simp add: min_def)
  then show ?case
    using snoc setupRetry_backoff [of ?s now] by (simp add: mult.left_commute)
qed

lemma backoff_inv_new:
  assumes "config_ok cfg" and "draws_ok rng"
  shows "backoff_inv (NewAssignmentSyncStateMachine cfg rng)"
  using assms
  by (simp add: backoff_inv_def config_ok_def NewAssignmentSyncStateMachine_def default_if_not_positive_def Let_def)

lemma new_simps [simp]:
  "sm_assignment (NewAssignmentSyncStateMachine cfg rng) = None"
  "latestReadState (NewAssignmentSyncStateMachine cfg rng) = None"
  "lastOpID (NewAssignmentSyncStateMachine cfg rng) = 0"
  "\<not> isCancelled (NewAssignmentSyncStateMachine cfg rng)"
  "sm_redirect (NewAssignmentSyncStateMachine cfg rng) = EmptyRedirect"
  "remoteKnown (NewAssignmentSyncStateMachine cfg rng) = \<lparr>rk_address = None, rk_generation = EmptyGeneration\<rparr>"
  "scheduledReadTime (NewAssignmentSyncStateMachine cfg rng) = zero_Time"
  by (simp_all add: NewAssignmentSyncStateMachine_def Let_def)

lemma op_inv_new: "op_inv (NewAssignmentSyncStateMachine cfg rng)"
  by (simp add: op_inv_def)

subsection \<open>Progress\<close>

lemma advance_sends:
  "\<not> isCancelled sm \<Longrightarrow> latestReadState sm = None \<Longrightarrow> scheduledReadTime sm \<le> now \<Longrightarrow>
     sends (snd (OnAdvance env now sm)) = [lastOpID sm + 1]"
  by (simp add: OnAdvance_def onAdvanceInternal_eq check_deadline_def Let_def)

lemma retry_progress:
  assumes "backoff_inv sm" and "\<not> isCancelled sm"
    and "\<forall>rs. latestReadState sm = Some rs \<longrightarrow> rs_deadline rs \<le> now1"
    and "OnAdvance env now1 sm = (sm1, acts1)" and "OnAdvance env now2 sm1 = (sm2, acts2)"
    and "scheduledReadTime sm \<le> now2"
    and "now1 + 3 * sint (MaxRetryDelay (sm_config sm)) div 2 \<le> now2"
  shows "sends (acts1 @ acts2) \<noteq> []"
proof -
  have adv: "onAdvanceInternal env now1 sm = (sm1, acts1)"
    using assms(2,4) by (simp add: OnAdvance_def)
  then show ?thesis
  proof (cases rule: onAdvance_cases)
    case quiet
    have read: "latestReadState sm1 = None"
      using assms(3) quiet(1) by (auto simp: check_deadline_def split: option.splits)
    have "scheduledReadTime sm1 \<le> max (scheduledReadTime sm) (now1 + 3 * sint (currentBackoffWait sm) div 2)"
      using setupRetry_backoff(3) [OF assms(1), of now1] quiet(1)
      by (auto simp: check_deadline_def split: option.splits)
    also have "\<dots> \<le> now2"
    proof -
      have "sint (currentBackoffWait sm) \<le> sint (MaxRetryDelay (sm_config sm))"
        using assms(1) by (simp add: backoff_inv_def)
      then have "3 * sint (currentBackoffWait sm) div 2 \<le> 3 * sint (MaxRetryDelay (sm_config sm)) div 2"
        by (intro zdiv_mono1) auto
      then show ?thesis using assms(6,7) by simp
    qed
    finally have "sends (snd (OnAdvance env now2 sm1)) = [lastOpID sm1 + 1]"
      using assms(2) quiet(1) read by (intro advance_sends) auto
    then show ?thesis using assms(5) by simp
  next
    case send
    then have "acts1 = snd (send_request env now1 (check_deadline now1 sm))" by (metis snd_conv)
    then show ?thesis by simp
  qed
qed

subsection \<open>Pacing\<close>

text \<open>Nothing is sent at the moment an outstanding request is given up, nor before the schedule says so.\<close>

lemma setupRetry_waits:
  assumes "backoff_inv sm"
  shows "now + sint (MinRetryDelay (sm_config sm)) div 2 \<le> scheduledReadTime (setupRetry now sm)"
proof -
  have "sint (MinRetryDelay (sm_config sm)) div 2 \<le> sint (currentBackoffWait sm) div 2"
    using assms by (intro zdiv_mono1) (simp_all add: backoff_inv_def)
  then show ?thesis using setupRetry_backoff(2) [OF assms, of now] by simp
qed

lemma onAdvance_paced:
  assumes "onAdvanceInternal env now sm = (sm', acts)" and "backoff_inv sm"
    and "2 \<le> sint (MinRetryDelay (sm_config sm))"
  shows "sends acts \<noteq> [] \<Longrightarrow> latestReadState sm = None \<and> scheduledReadTime sm \<le> now"
    and "latestReadState sm' = None \<Longrightarrow>
      latestReadState sm = None \<and> sm' = sm \<or> now + sint (MinRetryDelay (sm_config sm)) div 2 \<le> scheduledReadTime sm'"
proof -
  have "now < scheduledReadTime (setupRetry now sm)"
    using setupRetry_waits [OF assms(2), of now] assms(3) by simp
  with assms(1) show "sends acts \<noteq> [] \<Longrightarrow> latestReadState sm = None \<and> scheduledReadTime sm \<le> now"
    by (cases rule: onAdvance_cases) (auto simp: check_deadline_def split: option.splits if_splits)
  show "latestReadState sm' = None \<Longrightarrow>
      latestReadState sm = None \<and> sm' = sm \<or> now + sint (MinRetryDelay (sm_config sm)) div 2 \<le> scheduledReadTime sm'"
    using assms(1) setupRetry_waits [OF assms(2), of now]
    by (cases rule: onAdvance_cases)
      (auto simp: check_deadline_def send_request_def Let_def split: option.splits if_splits)
qed

lemma onReadSuccess_read:
  assumes "onReadSuccess env now address opID resp sm = Inr (sm', acts)"
  obtains (stale) "latestReadState sm' = latestReadState sm" "scheduledReadTime sm' = scheduledReadTime sm"
    | (answered) rs r where "latestReadState sm = Some rs" "opID = rs_opID rs" "resp = Some r"
      "latestReadState sm' = None" "scheduledReadTime sm' = now"
proof (cases resp)
  case None
  then show ?thesis using assms stale by (simp add: onReadSuccess_def)
next
  case (Some r)
  obtain isNew sm1 acts1 where inc: "incorporateSyncState env (crp_SyncAssignmentState r) sm = Inr (isNew, sm1, acts1)"
    using assms Some by (auto simp: onReadSuccess_def elim!: and_then_InrE)
  moreover have "latestReadState sm1 = latestReadState sm" "scheduledReadTime sm1 = scheduledReadTime sm"
    using incorporate_cases [OF inc] by auto
  ultimately have "latestReadState sm' = latestReadState sm \<and> scheduledReadTime sm' = scheduledReadTime sm
      \<or> (\<exists>rs. latestReadState sm = Some rs \<and> opID = rs_opID rs) \<and> latestReadState sm' = None \<and> scheduledReadTime sm' = now"
    using assms Some by (auto simp: onReadSuccess_def Let_def and_then_Inr_iff split: if_splits option.splits)
  then show ?thesis using Some stale answered by blast
qed

lemma sm_step_paced:
  assumes "sm_step env i sm = Inr (sm', acts)" and "backoff_inv sm"
    and "2 \<le> sint (MinRetryDelay (sm_config sm))"
  shows "sends acts \<noteq> [] \<Longrightarrow> latestReadState sm = None \<and> scheduledReadTime sm \<le> fst i
      \<or> (\<exists>rs address r. latestReadState sm = Some rs
          \<and> snd i = Some (EventReadSuccess address (rs_opID rs) (Some r)))" (is "_ \<Longrightarrow> ?sent")
    and "latestReadState sm \<noteq> None \<Longrightarrow> latestReadState sm' = None \<Longrightarrow>
      fst i + sint (MinRetryDelay (sm_config sm)) div 2 \<le> scheduledReadTime sm'" (is "_ \<Longrightarrow> _ \<Longrightarrow> ?waits")
proof -
  have "(sends acts \<noteq> [] \<longrightarrow> ?sent) \<and> (latestReadState sm \<noteq> None \<longrightarrow> latestReadState sm' = None \<longrightarrow> ?waits)"
    using assms(1)
  proof (cases rule: sm_step_cases)
    case advance
    then show ?thesis using onAdvance_paced [OF advance(3) assms(2,3)] by auto
  next
    case (failure opID)
    have waits: "fst i + sint (MinRetryDelay (sm_config sm)) div 2 \<le> scheduledReadTime (setupRetry (fst i) sm)"
      using setupRetry_waits [OF assms(2)] .
    have "backoff_inv (onReadFailure (fst i) opID sm)"
      using assms(2) by (simp add: onReadFailure_def setupRetry_backoff)
    note paced = onAdvance_paced [OF failure(3) this]
    have "onReadFailure (fst i) opID sm = sm \<or> onReadFailure (fst i) opID sm = setupRetry (fst i) sm"
      by (simp add: onReadFailure_def)
    then show ?thesis
      using waits paced assms(3) by auto
  next
    case (success address opID resp sm1 acts1 acts2)
    have sm1: "backoff_inv sm1" "sm_config sm1 = sm_config sm" "sends acts1 = []"
      using backoff_inv_success [OF success(3) assms(2)] onReadSuccess_frame [OF success(3)] by simp_all
    note paced = onAdvance_paced [OF success(4) sm1(1), unfolded sm1(2), OF assms(3)]
    from success(3) show ?thesis
    proof (cases rule: onReadSuccess_read)
      case stale
      then show ?thesis using paced sm1(3) success(5) by auto
    next
      case (answered rs r)
      then have "latestReadState sm' \<noteq> None"
        using success(4) by (auto simp: onAdvanceInternal_eq check_deadline_def send_request_def Let_def)
      then show ?thesis using answered success(2) by auto
    qed
  qed auto
  then show "sends acts \<noteq> [] \<Longrightarrow> ?sent"
    "latestReadState sm \<noteq> None \<Longrightarrow> latestReadState sm' = None \<Longrightarrow> ?waits"
    by blast+
qed

lemma sm_step_early:
  assumes "sm_step env i sm = Inr (sm', acts)" and "latestReadState sm = None" and "fst i < scheduledReadTime sm"
  shows "sends acts = [] \<and> latestReadState sm' = None \<and> scheduledReadTime sm' = scheduledReadTime sm"
proof -
  have early: "sends acts2 = [] \<and> sm2 = sm1"
    if "onAdvanceInternal env (fst i) sm1 = (sm2, acts2)" "latestReadState sm1 = None"
      "scheduledReadTime sm1 = scheduledReadTime sm" for sm1 sm2 acts2
    using that assms(3) by (auto simp: onAdvanceInternal_eq check_deadline_def split: if_splits)
  from assms(1) show ?thesis
  proof (cases rule: sm_step_cases)
    case advance
    then show ?thesis using early assms(2) by blast
  next
    case (failure opID)
    then show ?thesis using early [OF failure(3)] assms(2) by (simp add: onReadFailure_def)
  next
    case (success address opID resp sm1 acts1 acts2)
    from success(3) show ?thesis
      by (cases rule: onReadSuccess_read)
        (use early [OF success(4)] onReadSuccess_frame [OF success(3)] success(5) assms(2) in auto)
  qed (use assms(2) in auto)
qed

lemma sm_run_early:
  "sm_run env sm ins acts sm' \<Longrightarrow> latestReadState sm = None \<Longrightarrow> \<forall>i \<in> set ins. fst i < scheduledReadTime sm \<Longrightarrow>
     sends acts = [] \<and> latestReadState sm' = None \<and> scheduledReadTime sm' = scheduledReadTime sm"
proof (induction rule: sm_run.induct)
  case (step ins acts sm' i sm'' acts2)
  then show ?case using sm_step_early [OF step.hyps(2)] by simp
qed simp

subsection \<open>Panics\<close>

definition state_safe :: "sync_assignment_state_p option \<Rightarrow> bool" where
  "state_safe ss \<longleftrightarrow>
     (case ss of
        None \<Rightarrow> True
      | Some x \<Rightarrow>
          (case ss_State x of
             Some (KnownGeneration g) \<Rightarrow> gen_safe g
           | Some (KnownAssignment (Some p)) \<Rightarrow> wire_safe p
           | _ \<Rightarrow> True))"

fun event_safe :: "event \<Rightarrow> bool" where
  "event_safe (EventReadSuccess address opID (Some resp)) \<longleftrightarrow> state_safe (crp_SyncAssignmentState resp)"
| "event_safe _ \<longleftrightarrow> True"

lemma incorporate_panics: "incorporateSyncState env ss sm = Inl f \<Longrightarrow> \<exists>e. f = Panic e"
  by (auto simp: incorporateSyncState_def split: option.splits sum.splits failure.splits if_splits)

lemma response_generation_panics: "response_generation ss = Inl f \<Longrightarrow> \<exists>e. f = Panic e"
  by (auto simp: response_generation_def GenerationFromProto_def and_then_Inl_iff MustNewIncarnation_cases
      split: option.splits sync_state.splits if_splits)

lemma incorporate_safe: "state_safe ss \<Longrightarrow> \<not> panics (incorporateSyncState env ss sm)"
  by (auto simp: incorporateSyncState_def state_safe_def GetKnownAssignment_def
      dest!: panics_AssignmentFromProto [where env = env]
      split: option.splits sync_state.splits sum.splits failure.splits)

lemma response_generation_safe: "state_safe ss \<Longrightarrow> \<not> panics (response_generation ss)"
  by (auto simp: response_generation_def state_safe_def wire_safe_def split: option.splits sync_state.splits)

text \<open>A decoding error is absorbed: \<open>OnEvent\<close> returns or panics, and on a safe event it returns.\<close>

lemma OnEvent_fails: "OnEvent env now event sm = Inl f \<Longrightarrow> \<exists>e. f = Panic e"
  using incorporate_panics response_generation_panics
  by (auto simp: OnEvent_def onReadSuccess_def and_then_Inl_iff Let_def split_beta
      split: if_splits event.splits option.splits)

lemma OnEvent_safe:
  assumes "event_safe event"
  shows "\<exists>sm' acts. OnEvent env now event sm = Inr (sm', acts)"
proof -
  have "\<not> panics (OnEvent env now event sm)"
    using assms by (cases event rule: event_safe.cases)
      (auto simp: OnEvent_def onReadSuccess_def panics_and_then Let_def split_beta incorporate_safe
        response_generation_safe)
  then show ?thesis
    using OnEvent_fails [of env now event sm] by (cases "OnEvent env now event sm") fastforce+
qed

lemma OnEvent_unsafe_generation:
  assumes "\<not> isCancelled sm" and "\<not> gen_safe g"
    and "crp_SyncAssignmentState resp = Some \<lparr>ss_State = Some (KnownGeneration g)\<rparr>"
  shows "\<exists>e. OnEvent env now (EventReadSuccess address opID (Some resp)) sm = Inl (Panic e)"
proof -
  have "panics (GenerationFromProto g)"
    using assms(2) by simp
  then obtain e where "GenerationFromProto g = Inl (Panic e)"
    by (auto simp: panics_def split: sum.splits failure.splits)
  then show ?thesis
    using assms(1,3) by (simp add: OnEvent_def onReadSuccess_def incorporateSyncState_def GetKnownAssignment_def
      response_generation_def)
qed

definition response_redirect :: "client_response_p \<Rightarrow> redirect" where
  "response_redirect resp =
     (case crp_Redirect resp of
        Some r \<Rightarrow> \<lparr>rd_Address = Some (rp_Address r), rd_Token = rp_RedirectToken r\<rparr>
      | None \<Rightarrow> EmptyRedirect)"

lemma sends_nonempty: "sends acts \<noteq> [] \<longleftrightarrow> (\<exists>r n s d. ActionSendRequest r n s d \<in> set acts)"
  by (induction acts rule: sends.induct) auto

lemma sm_run_config: "sm_run env sm ins acts sm' \<Longrightarrow> sm_config sm' = sm_config sm"
  by (induction rule: sm_run.induct) (auto dest: sm_step_frame)

lemma onAdvance_quiet:
  "onAdvanceInternal env now sm = (sm', acts) \<Longrightarrow> sends acts = [] \<Longrightarrow>
     latestReadState sm' = latestReadState sm \<or> latestReadState sm' = None"
  using onAdvance_sends [of env now sm sm' acts] by auto

lemma sm_step_quiet:
  assumes "sm_step env i sm = Inr (sm', acts)" and "sends acts = []"
  shows "latestReadState sm' = latestReadState sm \<or> latestReadState sm' = None"
  using assms(1)
proof (cases rule: sm_step_cases)
  case (failure opID)
  then show ?thesis
    using onAdvance_quiet [OF failure(3) assms(2)] onReadFailure_read [of "fst i" opID sm] by metis
next
  case (success address opID resp sm1 acts1 acts2)
  then show ?thesis
    using onAdvance_quiet [OF success(4)] onReadSuccess_frame [OF success(3)] assms(2) by auto
qed (use onAdvance_quiet assms(2) in auto)

lemma sm_run_quiet:
  "sm_run env sm ins acts sm' \<Longrightarrow> latestReadState sm = None \<Longrightarrow> sends acts = [] \<Longrightarrow> latestReadState sm' = None"
  by (induction rule: sm_run.induct) (auto dest: sm_step_quiet)

section \<open>Properties\<close>

text \<open>
  C5: In every run of the state machine, whatever events arrive and at whatever times, the assignments it
  tells the driver to use are valid and have strictly increasing generations, and the last of them is the
  one it holds. Responses that are old, repeated, malformed or answer an old request never take it back.
\<close>

theorem used_assignments_increase:
  assumes "sm_run env (NewAssignmentSyncStateMachine cfg rng) ins acts sm"
  shows "sorted_wrt (\<lambda>a b. gen_Less (a_Generation a) (a_Generation b)) (uses acts)
    \<and> (\<forall>a \<in> set (uses acts). valid_assignment a)
    \<and> CurrentAssignment sm = (if uses acts = [] then None else Some (last (uses acts)))"
  using sm_run_assignments [OF assms] by (simp add: CurrentAssignment_def)

definition wire_message :: diff_assignment_p where
  "wire_message = the (AssignmentToProto sample_runtime (Some wire_assignment))"

definition eventual_wire_assignment :: assignment where
  "eventual_wire_assignment = wire_assignment\<lparr>a_ConsistencyMode := ConsistencyModeEventual\<rparr>"

lemma wire_message_pool:
  "AssignmentToProto sample_runtime (Some wire_assignment) = Some wire_message"
  "length (dap_Resources wire_message) < 2 ^ 31"
proof -
  obtain p where p: "AssignmentToProto sample_runtime (Some wire_assignment) = Some p"
    by (simp add: AssignmentToProto_def split_beta Let_def)
  then have "dap_Resources p = [Some (SquidToProto sample_runtime sample_uuid_squid)]"
    by (auto simp: AssignmentToProto_def wire_assignment_def wire_entry_def sm_Entries_def
        slice_assignment_to_proto_def sa_Resources_def getResourceIndex_def sample_runtime_def sample_range_def)
  with p show "AssignmentToProto sample_runtime (Some wire_assignment) = Some wire_message"
    "length (dap_Resources wire_message) < 2 ^ 31"
    by (simp_all add: wire_message_def)
qed

lemma wire_message_decodes: "AssignmentFromProto sample_runtime (Some wire_message) = Inr eventual_wire_assignment"
  using AssignmentFromProto_ToProto [OF wire_transportable wire_message_pool] by (simp add: eventual_wire_assignment_def)

definition sample_response :: client_response_p where
  "sample_response =
     \<lparr>crp_SyncAssignmentState = Some \<lparr>ss_State = Some (KnownAssignment (Some wire_message))\<rparr>,
      crp_SuggestedRpcTimeoutMillis = 0, crp_Redirect = None\<rparr>"

lemma wire_message_generation: "GenerationFromProto (dap_Generation wire_message) = Inr sample_generation"
proof -
  have "dap_Generation wire_message = Some (GenerationToProto sample_generation)"
    by (simp add: wire_message_def AssignmentToProto_def split_beta Let_def wire_assignment_def)
  moreover have "wf_generation sample_generation"
    by (simp add: wf_generation_def sample_generation_def guardrail_value)
  ultimately show ?thesis
    using generation_codec.dec_enc by simp
qed

definition sample_machine :: state_machine where
  "sample_machine = NewAssignmentSyncStateMachine DefaultStateMachineConfig (\<lambda>_. 0)"

lemma sample_machine_simps [simp]:
  "sm_assignment sample_machine = None" "latestReadState sample_machine = None" "lastOpID sample_machine = 0"
  "\<not> isCancelled sample_machine" "scheduledReadTime sample_machine = zero_Time"
  by (simp_all add: sample_machine_def)

abbreviation first_request :: "state_machine \<times> driver_action list" where
  "first_request \<equiv> OnAdvance sample_runtime 0 sample_machine"

lemma sample_first_request:
  "first_request = (sample_machine\<lparr>lastOpID := 1,
      latestReadState := Some \<lparr>rs_opID = 1, rs_deadline = 30000000000\<rparr>, inBackoff := False\<rparr>,
    [ActionSendRequest EmptyRedirect 1 (next_sync_state sample_runtime sample_machine) 30000000000])"
  by (simp add: sample_machine_def NewAssignmentSyncStateMachine_def OnAdvance_def onAdvanceInternal_eq
      check_deadline_def send_request_def zero_Time_def DefaultStateMachineConfig_def
      default_if_not_positive_def time_Add_def Second_def Millisecond_def)

lemma sample_run:
  "\<exists>sm acts. sm_run sample_runtime sample_machine
      [(0, None), (5, Some (EventReadSuccess (Some ''a'') 1 (Some sample_response)))] acts sm
    \<and> uses acts = [eventual_wire_assignment] \<and> sends acts = [1, 2] \<and> latestReadState sm \<noteq> None"
proof -
  let ?sm1 = "fst first_request"
  have "\<exists>sm2 acts. onReadSuccess sample_runtime 5 (Some ''a'') 1 (Some sample_response) ?sm1 = Inr (sm2, acts)
      \<and> uses acts = [eventual_wire_assignment] \<and> sends acts = [] \<and> lastOpID sm2 = 1
      \<and> latestReadState sm2 = None \<and> scheduledReadTime sm2 = 5"
    by (simp add: sample_first_request onReadSuccess_def sample_response_def incorporateSyncState_def
        GetKnownAssignment_def wire_message_decodes response_generation_def wire_message_generation)
  then obtain sm2 acts where two: "onReadSuccess sample_runtime 5 (Some ''a'') 1 (Some sample_response) ?sm1 = Inr (sm2, acts)"
      "uses acts = [eventual_wire_assignment]" "sends acts = []" "lastOpID sm2 = 1"
      "latestReadState sm2 = None" "scheduledReadTime sm2 = 5"
    by blast
  let ?fin = "send_request sample_runtime 5 sm2"
  have adv: "onAdvanceInternal sample_runtime 5 sm2 = ?fin"
    using two by (simp add: onAdvanceInternal_eq check_deadline_def)
  have "\<not> isCancelled ?sm1"
    by (simp add: sample_first_request)
  then have event: "sm_step sample_runtime (5, Some (EventReadSuccess (Some ''a'') 1 (Some sample_response))) ?sm1
      = Inr (fst ?fin, acts @ snd ?fin)"
    using two(1) adv by (simp add: sm_step_def OnEvent_def split_beta)
  have "sm_step sample_runtime (0, None) sample_machine = Inr (?sm1, snd first_request)"
    by (simp add: sm_step_def)
  from sm_run.step [OF sm_run.step [OF sm_run.start this] event]
  have "sm_run sample_runtime sample_machine
      [(0, None), (5, Some (EventReadSuccess (Some ''a'') 1 (Some sample_response)))]
      (snd first_request @ acts @ snd ?fin) (fst ?fin)"
    by simp
  then show ?thesis
    using two by (intro exI [of _ "fst ?fin"] exI [of _ "snd first_request @ acts @ snd ?fin"])
      (simp add: sample_first_request)
qed

theorem used_assignments_increase_witness:
  "\<exists>sm acts. sm_run sample_runtime sample_machine
      [(0, None), (5, Some (EventReadSuccess (Some ''a'') 1 (Some sample_response)))] acts sm
    \<and> CurrentAssignment sm = Some eventual_wire_assignment"
  using sample_run used_assignments_increase [of sample_runtime DefaultStateMachineConfig "\<lambda>_. 0"]
  by (fastforce simp: sample_machine_def)

text \<open>
  C21: In every run the requests are numbered 1, 2, 3, ... without gaps or repetitions (as 64-bit numbers),
  and at most one of them is outstanding, which is the last one sent. An answer to any other request is
  recognised as old.
\<close>

theorem requests_numbered:
  assumes "sm_run env (NewAssignmentSyncStateMachine cfg rng) ins acts sm"
  shows "sends acts = map (\<lambda>k. word_of_nat (Suc k)) [0..<length (sends acts)]
    \<and> (\<forall>rs. latestReadState sm = Some rs \<longrightarrow> sends acts \<noteq> [] \<and> rs_opID rs = last (sends acts))"
proof -
  have run: "op_inv sm" "sends acts = map (\<lambda>k. word_of_nat (Suc k)) [0..<length (sends acts)]"
      "lastOpID sm = word_of_nat (length (sends acts))"
    using sm_run_sends [OF assms op_inv_new] by simp_all
  have sent: "sends acts \<noteq> []" if "latestReadState sm = Some rs" for rs
    using sm_run_quiet [OF assms] that by auto
  have "rs_opID rs = last (sends acts)" if "latestReadState sm = Some rs" "sends acts \<noteq> []" for rs
  proof -
    have "last (sends acts) = word_of_nat (length (sends acts))"
      using that(2) by (subst run(2)) (simp add: last_map flip: of_nat_Suc)
    then show ?thesis using run(1,3) that(1) by (simp add: op_inv_def)
  qed
  with run(2) sent show ?thesis by blast
qed

theorem requests_numbered_witness:
  "\<exists>sm acts. sm_run sample_runtime sample_machine
      [(0, None), (5, Some (EventReadSuccess (Some ''a'') 1 (Some sample_response)))] acts sm
    \<and> sends acts = [1, 2] \<and> (\<exists>rs. latestReadState sm = Some rs \<and> rs_opID rs = 2)"
proof -
  obtain sm acts where run: "sm_run sample_runtime sample_machine
      [(0, None), (5, Some (EventReadSuccess (Some ''a'') 1 (Some sample_response)))] acts sm"
      "sends acts = [1, 2]" "latestReadState sm \<noteq> None"
    using sample_run by blast
  then have "\<exists>rs. latestReadState sm = Some rs \<and> rs_opID rs = 2"
    using requests_numbered [OF run(1) [unfolded sample_machine_def]] by auto
  with run show ?thesis by blast
qed

text \<open>
  C19: Requests are paced. In every run a request goes out only from a live machine, and only in
  one of two situations: in the very step that receives the successful answer to the outstanding request,
  or when none is outstanding and the scheduled time has come. And whenever an outstanding request is
  given up at a time \<open>now\<close>, because it failed or because its deadline has passed, nothing at all is sent
  before \<open>now\<close> plus half the minimum delay, whatever events arrive in between, in whatever order. (The
  delay must be at least two nanoseconds, for its half to be positive.)
\<close>

theorem requests_paced:
  assumes "config_ok cfg" and "2 \<le> sint (MinRetryDelay cfg)" and "draws_ok rng"
    and "sm_run env (NewAssignmentSyncStateMachine cfg rng) ins acts sm"
    and "sm_step env (now, event) sm = Inr (sm', acts')"
  shows "(sends acts' \<noteq> [] \<longrightarrow> \<not> IsCancelled sm
      \<and> (latestReadState sm = None \<and> scheduledReadTime sm \<le> now
        \<or> (\<exists>rs address resp. latestReadState sm = Some rs
            \<and> event = Some (EventReadSuccess address (rs_opID rs) (Some resp)))))
    \<and> (latestReadState sm \<noteq> None \<and> latestReadState sm' = None \<longrightarrow>
      (\<forall>ins2 acts2 sm2. sm_run env sm' ins2 acts2 sm2
          \<and> (\<forall>i \<in> set ins2. fst i < now + sint (MinRetryDelay cfg) div 2) \<longrightarrow> sends acts2 = []))"
proof -
  have inv: "backoff_inv sm"
    using backoff_inv_run [OF assms(4) backoff_inv_new [OF assms(1,3)]] .
  have "sm_config sm = sm_config (NewAssignmentSyncStateMachine cfg rng)"
    using sm_run_config [OF assms(4)] .
  then have min: "MinRetryDelay (sm_config sm) = MinRetryDelay cfg"
    using assms(1) by (simp add: NewAssignmentSyncStateMachine_def default_if_not_positive_def config_ok_def Let_def)
  note paced = sm_step_paced [OF assms(5) inv, unfolded min fst_conv snd_conv, OF assms(2)]
  have "sends acts2 = []"
    if "latestReadState sm \<noteq> None" "latestReadState sm' = None" "sm_run env sm' ins2 acts2 sm2"
      "\<forall>i \<in> set ins2. fst i < now + sint (MinRetryDelay cfg) div 2" for ins2 acts2 sm2
    using sm_run_early [OF that(3,2)] that(4) paced(2) [OF that(1,2)] by fastforce
  moreover have "\<not> IsCancelled sm" if "sends acts' \<noteq> []"
    using sm_step_frame [OF assms(5)] that by (auto simp: IsCancelled_def)
  ultimately show ?thesis using paced(1) by blast
qed

theorem requests_paced_witness:
  "\<exists>sm'. sm_step sample_runtime (40000000000, None) (fst first_request) = Inr (sm', [])
    \<and> (\<forall>ins2 acts2 sm2. sm_run sample_runtime sm' ins2 acts2 sm2
        \<and> (\<forall>i \<in> set ins2. fst i < 40025000000) \<longrightarrow> sends acts2 = [])"
proof -
  let ?sm = "fst first_request" and ?sm' = "setupRetry 40000000000 (fst first_request)"
  have ok: "config_ok DefaultStateMachineConfig" "draws_ok (\<lambda>_. 0)"
      "2 \<le> sint (MinRetryDelay DefaultStateMachineConfig)"
    by (simp_all add: config_ok_def DefaultStateMachineConfig_def Second_def Millisecond_def draws_ok_def)
  have "backoff_inv sample_machine"
    unfolding sample_machine_def by (rule backoff_inv_new [OF ok(1,2)])
  then have inv: "backoff_inv ?sm"
    by (rule backoff_inv_cong) (simp_all add: sample_first_request)
  have "sm_config ?sm = sm_config sample_machine"
    by (simp add: sample_first_request)
  then have "sint (MinRetryDelay (sm_config ?sm)) = 50000000"
    by (simp add: sample_machine_def NewAssignmentSyncStateMachine_def DefaultStateMachineConfig_def
        default_if_not_positive_def Millisecond_def)
  then have "40000000000 < scheduledReadTime ?sm'"
    using setupRetry_waits [OF inv, of 40000000000] by simp
  moreover have "latestReadState ?sm = Some \<lparr>rs_opID = 1, rs_deadline = 30000000000\<rparr>" "\<not> isCancelled ?sm"
    by (simp_all add: sample_first_request)
  ultimately have step: "sm_step sample_runtime (40000000000, None) ?sm = Inr (?sm', [])" "latestReadState ?sm \<noteq> None"
    by (simp_all add: sm_step_def OnAdvance_def onAdvanceInternal_eq check_deadline_def)
  have "sm_step sample_runtime (0, None) sample_machine = Inr (?sm, snd first_request)"
    by (simp add: sm_step_def)
  from sm_run.step [OF sm_run.start this]
  have run: "sm_run sample_runtime (NewAssignmentSyncStateMachine DefaultStateMachineConfig (\<lambda>_. 0)) ([] @ [(0, None)])
      ([] @ snd first_request) ?sm"
    unfolding sample_machine_def .
  have "sint (MinRetryDelay DefaultStateMachineConfig) div 2 = 25000000"
    by (simp add: DefaultStateMachineConfig_def Millisecond_def)
  with requests_paced [OF ok(1,3,2) run step(1)] step show ?thesis by simp
qed

text \<open>
  C18: Exponential backoff with jitter: after \<open>n\<close> failures in a row the wait is the minimum delay times
  \<open>2 ^ n\<close>, capped at the maximum delay, and the next retry is scheduled between one half and one and a half
  times that wait after the failure. The floating-point rounding of the jitter never leaves this range
  for delays below \<open>2 ^ 50\<close> nanoseconds (13 days).
\<close>

theorem backoff_exponential:
  assumes "config_ok cfg" and "draws_ok rng"
  shows "let sm = fold setupRetry nows (NewAssignmentSyncStateMachine cfg rng);
      wait = min (sint (MinRetryDelay cfg) * 2 ^ length nows) (sint (MaxRetryDelay cfg));
      next_sm = setupRetry now sm
    in sint (currentBackoffWait sm) = wait
      \<and> now + wait div 2 \<le> scheduledReadTime next_sm \<and> scheduledReadTime next_sm \<le> now + 3 * wait div 2
      \<and> latestReadState next_sm = None \<and> IsInBackoff next_sm"
proof -
  let ?sm0 = "NewAssignmentSyncStateMachine cfg rng"
  have cfg: "MinRetryDelay (sm_config ?sm0) = MinRetryDelay cfg" "MaxRetryDelay (sm_config ?sm0) = MaxRetryDelay cfg"
      "currentBackoffWait ?sm0 = MinRetryDelay cfg"
    using assms(1) by (simp_all add: NewAssignmentSyncStateMachine_def default_if_not_positive_def config_ok_def Let_def)
  have series: "sint (currentBackoffWait (fold setupRetry nows ?sm0))
        = min (sint (MinRetryDelay cfg) * 2 ^ length nows) (sint (MaxRetryDelay cfg))"
      "backoff_inv (fold setupRetry nows ?sm0)"
    using backoff_series [OF backoff_inv_new [OF assms], of nows] cfg by simp_all
  show ?thesis
    using setupRetry_backoff(2,3) [OF series(2), of now] series(1) by (simp add: Let_def IsInBackoff_def)
qed

theorem backoff_exponential_witness:
  "sint (currentBackoffWait (fold setupRetry [0, 100, 200] sample_machine)) = 400000000"
proof -
  have "config_ok DefaultStateMachineConfig" "draws_ok (\<lambda>_. 0)"
    by (simp_all add: config_ok_def DefaultStateMachineConfig_def Second_def Millisecond_def draws_ok_def)
  from backoff_exponential [OF this, of "[0, 100, 200]" 300] show ?thesis
    by (simp add: sample_machine_def DefaultStateMachineConfig_def Second_def Millisecond_def Let_def)
qed

text \<open>
  The machine never stops asking: from every state a run can reach that is not cancelled, once the
  deadline of an outstanding request has passed, two calls of \<open>OnAdvance\<close>, the second at or after the
  scheduled time and one and a half maximum delays after the first, send a request.
\<close>

lemma request_eventually_sent:
  assumes "config_ok cfg" and "draws_ok rng"
    and "sm_run env (NewAssignmentSyncStateMachine cfg rng) ins acts sm" and "\<not> IsCancelled sm"
    and "\<forall>rs. latestReadState sm = Some rs \<longrightarrow> rs_deadline rs \<le> now1"
    and "OnAdvance env now1 sm = (sm1, acts1)" and "OnAdvance env now2 sm1 = (sm2, acts2)"
    and "scheduledReadTime sm \<le> now2" and "now1 + 3 * sint (MaxRetryDelay cfg) div 2 \<le> now2"
  shows "\<exists>r n s d. ActionSendRequest r n s d \<in> set (acts1 @ acts2)"
proof -
  have inv: "backoff_inv sm"
    using backoff_inv_run [OF assms(3) backoff_inv_new [OF assms(1,2)]] .
  have "sm_config sm = sm_config (NewAssignmentSyncStateMachine cfg rng)"
    using sm_run_config [OF assms(3)] .
  then have "MaxRetryDelay (sm_config sm) = MaxRetryDelay cfg"
    using assms(1) by (simp add: NewAssignmentSyncStateMachine_def default_if_not_positive_def config_ok_def Let_def)
  then have "sends (acts1 @ acts2) \<noteq> []"
    using retry_progress [OF inv _ assms(5-8)] assms(4,9) by (simp add: IsCancelled_def)
  then show ?thesis using sends_nonempty [of "acts1 @ acts2"] by blast
qed

text \<open>
  C28: A successful answer to the outstanding request ends the backoff, records what the responder knows,
  and sends the next request in the same call: to the redirect the answer carries (or to none), with the
  next number, and with the deadline of the timeout now in force.
\<close>

theorem read_success_continues:
  assumes "\<not> IsCancelled sm" and "latestReadState sm = Some rs"
    and "OnEvent env now (EventReadSuccess address (rs_opID rs) (Some resp)) sm = Inr (sm', acts)"
  shows "\<not> IsInBackoff sm' \<and> currentBackoffWait sm' = MinRetryDelay (sm_config sm)
    \<and> rk_address (remoteKnown sm') = address
    \<and> response_generation (crp_SyncAssignmentState resp) = Inr (rk_generation (remoteKnown sm'))
    \<and> sends acts = [lastOpID sm + 1]
    \<and> (\<exists>s. last acts = ActionSendRequest (response_redirect resp) (lastOpID sm + 1) s (watchRPCTimeout sm'))
    \<and> latestReadState sm' =
        Some \<lparr>rs_opID = lastOpID sm + 1, rs_deadline = time_Add now (watchRPCTimeout sm')\<rparr>"
proof -
  have live: "\<not> isCancelled sm" using assms(1) by (simp add: IsCancelled_def)
  obtain sm1 acts1 acts2 where run: "onReadSuccess env now address (rs_opID rs) (Some resp) sm = Inr (sm1, acts1)"
      "onAdvanceInternal env now sm1 = (sm', acts2)" "acts = acts1 @ acts2"
  proof -
    have step: "sm_step env (now, Some (EventReadSuccess address (rs_opID rs) (Some resp))) sm = Inr (sm', acts)"
      using assms(3) by (simp add: sm_step_def)
    from step show thesis
      by (cases rule: sm_step_cases) (use live that in auto)
  qed
  obtain isNew sm0 acts0 where inc: "incorporateSyncState env (crp_SyncAssignmentState resp) sm = Inr (isNew, sm0, acts0)"
    using run(1) by (auto simp: onReadSuccess_def elim!: and_then_InrE)
  have sm0: "latestReadState sm0 = Some rs" "sm_config sm0 = sm_config sm" "lastOpID sm0 = lastOpID sm" "sends acts0 = []"
    using incorporate_cases [OF inc] assms(2) by auto
  have sm1: "latestReadState sm1 = None" "scheduledReadTime sm1 = now" "acts1 = acts0" "lastOpID sm1 = lastOpID sm"
      "rk_address (remoteKnown sm1) = address" "sm_redirect sm1 = response_redirect resp"
      "response_generation (crp_SyncAssignmentState resp) = Inr (rk_generation (remoteKnown sm1))"
      "currentBackoffWait sm1 = MinRetryDelay (sm_config sm)"
    using run(1) sm0 inc
    by (auto simp: onReadSuccess_def Let_def and_then_Inr_iff response_redirect_def)
  then have "(sm', acts2) = send_request env now sm1"
    using run(2) by (simp add: onAdvanceInternal_eq check_deadline_def)
  then have "sm' = fst (send_request env now sm1)" "acts2 = snd (send_request env now sm1)"
    by (metis fst_conv, metis snd_conv)
  then show ?thesis
    using sm1 sm0 run(3) by (simp add: IsInBackoff_def) (simp add: send_request_def Let_def)
qed

theorem read_success_continues_witness:
  "\<exists>sm' acts. OnEvent sample_runtime 5 (EventReadSuccess (Some ''a'') 1
      (Some \<lparr>crp_SyncAssignmentState = None, crp_SuggestedRpcTimeoutMillis = 10, crp_Redirect = None\<rparr>))
      (fst first_request) = Inr (sm', acts)
    \<and> sends acts = [2] \<and> watchRPCTimeout sm' = 10000000"
proof -
  let ?resp = "\<lparr>crp_SyncAssignmentState = None, crp_SuggestedRpcTimeoutMillis = 10, crp_Redirect = None\<rparr>"
  let ?rs = "\<lparr>rs_opID = 1, rs_deadline = 30000000000\<rparr>"
  have live: "\<not> IsCancelled (fst first_request)" "latestReadState (fst first_request) = Some ?rs"
    by (simp_all add: sample_first_request IsCancelled_def)
  have "\<exists>sm' acts. OnEvent sample_runtime 5 (EventReadSuccess (Some ''a'') (rs_opID ?rs) (Some ?resp))
      (fst first_request) = Inr (sm', acts) \<and> watchRPCTimeout sm' = 10000000"
    by (simp add: sample_first_request OnEvent_def onReadSuccess_def incorporateSyncState_def
        response_generation_def suggest_timeout_def resetBackoff_def Millisecond_def onAdvanceInternal_eq
        check_deadline_def send_request_def)
  then obtain sm' acts where run: "OnEvent sample_runtime 5 (EventReadSuccess (Some ''a'') (rs_opID ?rs) (Some ?resp))
      (fst first_request) = Inr (sm', acts)" "watchRPCTimeout sm' = 10000000"
    by blast
  moreover have "sends acts = [lastOpID (fst first_request) + 1]"
    using read_success_continues [OF live run(1)] by blast
  ultimately show ?thesis
    by (simp add: sample_first_request)
qed

lemma stale_success:
  assumes "\<forall>rs. latestReadState sm = Some rs \<longrightarrow> opID \<noteq> rs_opID rs"
  shows "case onReadSuccess env now address opID (Some resp) sm of
         Inr (sm', acts) \<Rightarrow>
           latestReadState sm' = latestReadState sm \<and> scheduledReadTime sm' = scheduledReadTime sm
           \<and> inBackoff sm' = inBackoff sm \<and> currentBackoffWait sm' = currentBackoffWait sm
           \<and> (acts = [] \<longrightarrow> remoteKnown sm' = remoteKnown sm \<and> watchRPCTimeout sm' = watchRPCTimeout sm)
           \<and> sm_redirect sm' = response_redirect resp
       | Inl f \<Rightarrow> \<exists>e. f = Panic e"
proof (cases "incorporateSyncState env (crp_SyncAssignmentState resp) sm")
  case (Inl f)
  then show ?thesis
    using incorporate_panics [OF Inl] by (simp add: onReadSuccess_def)
next
  case (Inr r)
  obtain isNew sm1 acts1 where r: "r = (isNew, sm1, acts1)" by (cases r)
  note inc = Inr [unfolded r]
  have stale: "case latestReadState sm1 of None \<Rightarrow> True | Some rs \<Rightarrow> opID \<noteq> rs_opID rs"
    using incorporate_cases [OF inc] assms by (auto split: option.splits)
  show ?thesis
  proof (cases "response_generation (crp_SyncAssignmentState resp)")
    case (Inl f)
    then show ?thesis
      using response_generation_panics [OF Inl] inc by (simp add: onReadSuccess_def Let_def)
  next
    case (Inr g)
    then show ?thesis
      using inc stale incorporate_cases [OF inc] by (auto simp: onReadSuccess_def Let_def response_redirect_def)
  qed
qed

text \<open>
  C37: An answer to an older request neither ends the outstanding one nor the backoff, and does not change
  the schedule; a failure of an older request does nothing at all. But the redirect of an old answer does
  replace the current one: only the redirect is taken without looking at the operation number.
\<close>

theorem stale_answers:
  assumes "\<forall>rs. latestReadState sm = Some rs \<longrightarrow> opID \<noteq> rs_opID rs"
  shows "OnEvent env now (EventReadFailure opID) sm = Inr (OnAdvance env now sm)
    \<and> (case onReadSuccess env now address opID (Some resp) sm of
         Inr (sm', acts) \<Rightarrow>
           latestReadState sm' = latestReadState sm \<and> scheduledReadTime sm' = scheduledReadTime sm
           \<and> inBackoff sm' = inBackoff sm \<and> currentBackoffWait sm' = currentBackoffWait sm
           \<and> (acts = [] \<longrightarrow> remoteKnown sm' = remoteKnown sm \<and> watchRPCTimeout sm' = watchRPCTimeout sm)
           \<and> sm_redirect sm' = response_redirect resp
       | Inl f \<Rightarrow> \<exists>e. f = Panic e)"
proof
  show "OnEvent env now (EventReadFailure opID) sm = Inr (OnAdvance env now sm)"
    using assms by (auto simp: OnEvent_def OnAdvance_def onReadFailure_def split: option.splits)
qed (rule stale_success [OF assms])

theorem stale_answers_witness:
  "OnEvent sample_runtime 5 (EventReadFailure 0) (fst first_request) = Inr (OnAdvance sample_runtime 5 (fst first_request))"
proof -
  have "\<forall>rs. latestReadState (fst first_request) = Some rs \<longrightarrow> 0 \<noteq> rs_opID rs"
    by (simp add: sample_first_request)
  from stale_answers [OF this] show ?thesis by blast
qed

text \<open>
  The suggested timeout is multiplied by a million without a check: a suggestion of 9223372036855 ms, a
  positive \<open>int64\<close>, wraps to a negative timeout, so the request sent in answer carries a negative timeout
  and its deadline is already past when it is sent.
\<close>

lemma suggested_timeout_wraps:
  assumes "\<not> IsCancelled sm" and "latestReadState sm = Some rs"
  shows "\<exists>sm' acts rs' r n s d.
      OnEvent env now (EventReadSuccess address (rs_opID rs) (Some \<lparr>crp_SyncAssignmentState = None,
        crp_SuggestedRpcTimeoutMillis = 9223372036855, crp_Redirect = None\<rparr>)) sm = Inr (sm', acts)
    \<and> acts = [ActionSendRequest r n s d] \<and> sint d < 0
    \<and> latestReadState sm' = Some rs' \<and> rs_deadline rs' < now"
  using assms
  by (simp add: OnEvent_def IsCancelled_def onReadSuccess_def incorporateSyncState_def response_generation_def
      onAdvanceInternal_eq check_deadline_def send_request_def Let_def suggest_timeout_def time_Add_def
      Millisecond_def)

end
