(* ===== verification/Printing.thy ===== *)
theory Printing
  imports Assignments
begin

text \<open>
  The \<open>String\<close> methods of \<open>pkg/friend\<close> and \<open>pkg/common\<close>, with the verbs of \<open>fmt\<close> and the time format they
  use, and what can be read back from them.
\<close>

unbundle bit_operations_syntax

section \<open>Numbers\<close>

text \<open>\<open>%d\<close> of a non-negative number, and \<open>%016x\<close>.\<close>

definition decimal_digit :: "int \<Rightarrow> char" where
  "decimal_digit d = ''0123456789'' ! nat d"

function decimal :: "int \<Rightarrow> string" where
  "decimal n = (if n < 10 then [decimal_digit n] else decimal (n div 10) @ [decimal_digit (n mod 10)])"
  by pat_completeness auto
termination by (relation "measure nat") auto

declare decimal.simps [simp del]

definition uint_String :: "u64 \<Rightarrow> string" where
  "uint_String w = decimal (uint w)"

text \<open>\<open>%d\<close> of a signed number.\<close>

definition int_String :: "i64 \<Rightarrow> string" where
  "int_String w = (if sint w < 0 then ''-'' @ decimal (- sint w) else decimal (sint w))"

definition hex_digit :: "u64 \<Rightarrow> char" where
  "hex_digit d = ''0123456789abcdef'' ! unat d"

definition hex16 :: "u64 \<Rightarrow> string" where
  "hex16 w = map (\<lambda>i. hex_digit (drop_bit (4 * (15 - i)) w AND 15)) [0..<16]"

section \<open>Times and squids\<close>

text \<open>
  \<open>Time.Format(time.RFC3339Nano)\<close> of a UTC time: the civil date of the day number in the proleptic
  Gregorian calendar, the time of day, and the fraction of the second without trailing zeros.
\<close>

definition padded :: "nat \<Rightarrow> int \<Rightarrow> string" where
  "padded width n =
     (let ds = decimal \<bar>n\<bar>
      in (if n < 0 then ''-'' else '''') @ replicate (width - length ds) (CHR ''0'') @ ds)"

definition civil_date :: "int \<Rightarrow> int \<times> int \<times> int" where
  "civil_date days =
     (let z = days + 719468; era = z div 146097; doe = z mod 146097;
          yoe = (doe - doe div 1460 + doe div 36524 - doe div 146096) div 365;
          doy = doe - (365 * yoe + yoe div 4 - yoe div 100);
          mp = (5 * doy + 2) div 153;
          day = doy - (153 * mp + 2) div 5 + 1;
          month = (if mp < 10 then mp + 3 else mp - 9)
      in (yoe + era * 400 + (if month \<le> 2 then 1 else 0), month, day))"

definition fraction :: "int \<Rightarrow> string" where
  "fraction nanos =
     (if nanos = 0 then '''' else ''.'' @ rev (dropWhile (\<lambda>c. c = CHR ''0'') (rev (padded 9 nanos))))"

definition RFC3339Nano :: "go_time \<Rightarrow> string" where
  "RFC3339Nano t =
     (let secs = t div 1000000000; tod = secs mod 86400;
          (year, month, day) = civil_date (secs div 86400)
      in padded 4 year @ ''-'' @ padded 2 month @ ''-'' @ padded 2 day @ ''T''
         @ padded 2 (tod div 3600) @ '':'' @ padded 2 (tod div 60 mod 60) @ '':'' @ padded 2 (tod mod 60)
         @ fraction (t mod 1000000000) @ ''Z'')"

definition squid_String :: "squid \<Rightarrow> string" where
  "squid_String sq =
     ''['' @ ResourceAddress sq @ '' '' @ RFC3339Nano (squid_CreationTime sq) @ '' '' @ ResourceUUID sq @ '']''"

lemma RFC3339Nano_examples:
  "RFC3339Nano 0 = ''1970-01-01T00:00:00Z''"
  "RFC3339Nano 1700000000120000000 = ''2023-11-14T22:13:20.12Z''"
  "RFC3339Nano (-1000000) = ''1969-12-31T23:59:59.999Z''"
  "RFC3339Nano 951782400000000000 = ''2000-02-29T00:00:00Z''"
  by code_simp+

section \<open>Keys and slices\<close>

text \<open>The conversion \<open>string(b)\<close>.\<close>

definition bytes_string :: "byte list \<Rightarrow> string" where
  "bytes_string bs = map (\<lambda>b. char_of (unat b)) bs"

definition key_String :: "slice_key \<Rightarrow> string" where
  "key_String k =
     (if length (k_data k) = 8 then ''0x'' @ hex16 (k_bytesPrefix k) else bytes_string (k_data k))"

text \<open>The infinity sign in UTF-8.\<close>

definition high_String :: "high_slice_key \<Rightarrow> string" where
  "high_String h =
     (if h_isInfinity h then [char_of (0xE2::nat), char_of (0x88::nat), char_of (0x9E::nat)]
      else key_String (h_key h))"

definition slice_String :: "slice \<Rightarrow> string" where
  "slice_String s = ''['' @ key_String (LowInclusive s) @ '' .. '' @ high_String (HighExclusive s) @ '')''"

section \<open>Generations, annotations and modes\<close>

definition inc_Value :: "incarnation \<Rightarrow> u64" where
  "inc_Value inc = inc_value inc"

definition inc_String :: "incarnation \<Rightarrow> string" where
  "inc_String inc = uint_String (inc_value inc)"

definition gen_String :: "generation \<Rightarrow> string" where
  "gen_String g = inc_String (Incarnation g) @ ''#'' @ uint_String (Number g)"

definition annotation_String :: "subslice_annotation \<Rightarrow> string" where
  "annotation_String sa =
     (let res = slice_String (Subslice sa) @ '':'' @ uint_String (ContinuousGenerationNumber sa)
      in case StateTransfer sa of
           None \<Rightarrow> res
         | Some t \<Rightarrow> res @ '', state provider: '' @ squid_String (FromResource t))"

definition mode_String :: "consistency_mode \<Rightarrow> string" where
  "mode_String cm =
     (if cm = ConsistencyModeEventual then ''EVENTUAL''
      else if cm = ConsistencyModeStrict then ''STRICT''
      else ''UNKNOWN('' @ int_String cm @ '')'')"

section \<open>Reading back\<close>

text \<open>A printed number can be read back, and consists of digits only.\<close>

definition digit_value :: "char \<Rightarrow> int" where
  "digit_value c = int (of_char c) - 48"

definition read_decimal :: "string \<Rightarrow> int" where
  "read_decimal ds = foldl (\<lambda>n c. 10 * n + digit_value c) 0 ds"

lemma digit_cases:
  assumes "0 \<le> d" and "d < 10"
  shows "digit_value (decimal_digit d) = d \<and> CHR ''#'' \<noteq> decimal_digit d \<and> CHR ''-'' \<noteq> decimal_digit d"
proof -
  have "nat d \<in> {0..<10}" using assms by auto
  then have "nat d \<in> {0, 1, 2, 3, 4, 5, 6, 7, 8, 9}" by (auto simp: atLeast0_lessThan_Suc eval_nat_numeral)
  then have "digit_value (decimal_digit (int (nat d))) = int (nat d)
      \<and> CHR ''#'' \<noteq> decimal_digit (int (nat d)) \<and> CHR ''-'' \<noteq> decimal_digit (int (nat d))"
    by (elim insertE emptyE; simp add: decimal_digit_def digit_value_def of_char_Char)
  then show ?thesis using assms by simp
qed

lemma read_snoc: "read_decimal (ds @ [c]) = 10 * read_decimal ds + digit_value c"
  by (simp add: read_decimal_def)

lemma decimal_reads:
  "0 \<le> n \<Longrightarrow> read_decimal (decimal n) = n \<and> CHR ''#'' \<notin> set (decimal n) \<and> CHR ''-'' \<notin> set (decimal n)"
proof (induction n rule: decimal.induct)
  case (1 n)
  show ?case
  proof (cases "n < 10")
    case True
    then have "decimal n = [decimal_digit n]" by (simp add: decimal.simps [of n])
    then show ?thesis using 1 True digit_cases [of n] by (simp add: read_decimal_def)
  next
    case False
    then have "read_decimal (decimal (n div 10)) = n div 10
        \<and> CHR ''#'' \<notin> set (decimal (n div 10)) \<and> CHR ''-'' \<notin> set (decimal (n div 10))"
      using 1 by simp
    then show ?thesis
      using False digit_cases [of "n mod 10"] by (simp add: decimal.simps [of n] read_snoc)
  qed
qed

lemma uint_String_inj: "uint_String v = uint_String w \<longleftrightarrow> v = w"
  using decimal_reads [of "uint v"] decimal_reads [of "uint w"]
  unfolding uint_String_def by (metis uint_ge_0 word_uint_eq_iff)

lemma split_at: "c \<notin> set xs \<Longrightarrow> c \<notin> set ys \<Longrightarrow> xs @ c # us = ys @ c # vs \<longleftrightarrow> xs = ys \<and> us = vs"
proof (induction xs arbitrary: ys)
  case Nil
  then show ?case by (cases ys) auto
next
  case (Cons x xs)
  then show ?case by (cases ys) auto
qed

text \<open>Every consistency mode prints differently, the unknown ones included.\<close>

lemma int_String_inj: "int_String v = int_String w \<longleftrightarrow> v = w"
proof -
  have dec: "decimal m = decimal n \<longleftrightarrow> m = n" if "0 \<le> m" "0 \<le> n" for m n
    using decimal_reads that by metis
  have minus: "CHR ''-'' # xs \<noteq> decimal n" "decimal n \<noteq> CHR ''-'' # xs" if "0 \<le> n" for xs n
    using decimal_reads [OF that] by (metis list.set_intros(1))+
  have "int_String v = int_String w \<longleftrightarrow> sint v = sint w"
    using dec minus by (simp add: int_String_def)
  then show ?thesis using signed_word_eqI by auto
qed

lemma mode_String_inj: "mode_String v = mode_String w \<longleftrightarrow> v = w"
  by (auto simp: mode_String_def int_String_inj)

text \<open>Two generations print alike only if they are equal.\<close>

lemma gen_String_inj: "gen_String g = gen_String h \<longleftrightarrow> g = h"
proof -
  have "CHR ''#'' \<notin> set (uint_String w)" for w
    using decimal_reads [of "uint w"] by (simp add: uint_String_def)
  then show ?thesis
    using split_at [of "CHR ''#''" "uint_String (inc_value (Incarnation g))" "uint_String (inc_value (Incarnation h))"
        "uint_String (Number g)" "uint_String (Number h)"]
    by (auto simp: gen_String_def inc_String_def uint_String_inj)
qed

text \<open>
  Keys do not have this property: the key of the number 1 and the key of the eighteen characters it is
  printed as print alike, although they are different keys.
\<close>

lemma key_String_collides:
  "key_String (Uint64Key 1) = key_String (NewSliceKeyFromString ''0x0000000000000001'')
   \<and> \<not> key_Equal (Uint64Key 1) (NewSliceKeyFromString ''0x0000000000000001'')"
  by code_simp

end
