(* ===== verification/Router.thy ===== *)
theory Router
  imports AtomicCell Printing "HOL-Library.Multiset"
begin

text \<open>
  \<open>pkg/client/router.go\<close>: resolving a key to a server pod over the cached assignment. The
  retry logic recognises the pods already tried by their printed form.
\<close>

unbundle bit_operations_syntax

section \<open>Hashing\<close>

text \<open>\<open>fnv.New64a\<close>: FNV-1a, 64 bits.\<close>

definition fnv_step :: "byte \<Rightarrow> u64 \<Rightarrow> u64" where
  "fnv_step b h = (h XOR ucast b) * 1099511628211"

definition fnv64a :: "byte list \<Rightarrow> u64" where
  "fnv64a bs = fold fnv_step bs 14695981039346656037"

section \<open>The router\<close>

record router =
  r_cell :: cell
  rrCounters :: u64

definition NewResourceRouter :: "cell \<Rightarrow> router" where
  "NewResourceRouter c = \<lparr>r_cell = c, rrCounters = 0\<rparr>"

definition RouteAll :: "router \<Rightarrow> string \<Rightarrow> squid list result" where
  "RouteAll r key =
     (let sliceKey = NewSliceKeyFromString key
      in case cell_Get (r_cell r) of
           None \<Rightarrow> Inl (Error NoAssignmentAvailable)
         | Some assignment \<Rightarrow>
             and_then (assignment_LookUp assignment sliceKey) (\<lambda>sa.
               let resources = sa_Resources sa
               in if length resources = 0 then Inl (Error NoResourcesAssigned) else Inr resources))"

text \<open>The shared counter is advanced only when there is a choice.\<close>

definition Route :: "router \<Rightarrow> string \<Rightarrow> squid result \<times> router" where
  "Route r key =
     (case RouteAll r key of
        Inl f \<Rightarrow> (Inl f, r)
      | Inr resources \<Rightarrow>
          if length resources = 1 then (Inr (resources ! 0), r)
          else
            let counter = rrCounters r + 1;
                idx = unat counter mod length resources
            in (Inr (resources ! idx), r\<lparr>rrCounters := counter\<rparr>))"

definition RouteTwoLevel :: "router \<Rightarrow> string \<Rightarrow> string \<Rightarrow> squid result" where
  "RouteTwoLevel r primaryKey secondaryKey =
     and_then (RouteAll r primaryKey) (\<lambda>resources.
       if length resources = 1 then Inr (resources ! 0)
       else
         let hashVal = fnv64a (string_bytes secondaryKey);
             idx = unat hashVal mod length resources
         in Inr (resources ! idx))"

definition RouteWithRetry :: "router \<Rightarrow> string \<Rightarrow> squid list \<Rightarrow> squid result" where
  "RouteWithRetry r key tried =
     and_then (RouteAll r key) (\<lambda>resources.
       let triedMap = set (map squid_String tried);
           untried = filter (\<lambda>sq. squid_String sq \<notin> triedMap) resources
       in if length untried = 0 then Inl (Error AllReplicasExhausted) else Inr (untried ! 0))"

definition router_Assignment :: "router \<Rightarrow> assignment option" where
  "router_Assignment r = cell_Get (r_cell r)"

section \<open>Replicas of a directory\<close>

text \<open>A directory whose entries carry replicas, at least one each.\<close>

locale replica_directory = key_directory look_up slice_of members valid
  for look_up :: "'m \<Rightarrow> slice_key \<Rightarrow> 'e result" and slice_of :: "'e \<Rightarrow> slice"
    and members :: "'m \<Rightarrow> 'e list" and valid :: "'m \<Rightarrow> bool" +
  fixes replicas :: "'e \<Rightarrow> squid list"
  assumes replicas_nonempty: "valid m \<Longrightarrow> e \<in> set (members m) \<Longrightarrow> replicas e \<noteq> []"
begin

definition owners :: "'m \<Rightarrow> slice_key \<Rightarrow> squid set" where
  "owners m k = (\<Union>e \<in> {e \<in> set (members m). k_data k \<in> slice_keys (slice_of e)}. set (replicas e))"

lemma look_up_owners:
  assumes "valid m" and "wf_key k"
  shows "\<exists>e. look_up m k = Inr e \<and> replicas e \<noteq> [] \<and> set (replicas e) = owners m k"
proof -
  obtain e where e: "e \<in> set (members m)" "look_up m k = Inr e" "k_data k \<in> slice_keys (slice_of e)"
    using look_up_finds [OF assms] by blast
  then have "{e' \<in> set (members m). k_data k \<in> slice_keys (slice_of e')} = {e}"
    using members_disjoint [OF assms(1)] by blast
  then show ?thesis
    using e replicas_nonempty [OF assms(1) e(1)] by (auto simp: owners_def)
qed

end

interpretation assignment_replicas:
  replica_directory assignment_LookUp sa_GetSlice assignment_members valid_assignment sa_Resources
  by unfold_locales
    (auto simp: assignment_members_def valid_slice_assignment_def elim!: valid_assignmentE)

text \<open>The resources the current assignment gives a key.\<close>

definition replicas_of :: "router \<Rightarrow> string \<Rightarrow> squid list" where
  "replicas_of r key = (case RouteAll r key of Inl _ \<Rightarrow> [] | Inr resources \<Rightarrow> resources)"

lemma RouteAll_valid:
  assumes "cell_Get (r_cell r) = Some a" and "valid_assignment a"
  shows "\<exists>sa. assignment_LookUp a (NewSliceKeyFromString key) = Inr sa \<and> RouteAll r key = Inr (sa_Resources sa)
    \<and> sa_Resources sa \<noteq> []
    \<and> set (sa_Resources sa) = assignment_replicas.owners a (NewSliceKeyFromString key)"
  using assignment_replicas.look_up_owners [OF assms(2), of "NewSliceKeyFromString key"] assms(1)
  by (auto simp: RouteAll_def)

lemma RouteAll_replicas:
  assumes "cell_Get (r_cell r) = Some a" and "valid_assignment a"
  shows "RouteAll r key = Inr (replicas_of r key) \<and> replicas_of r key \<noteq> []"
  using RouteAll_valid [OF assms, of key] by (auto simp: replicas_of_def)

lemma replicas_of_assigned:
  assumes "cell_Get (r_cell r) = Some a" and "valid_assignment a"
  shows "IsAssignedKey a (NewSliceKeyFromString key) sq = Inr (sq \<in> set (replicas_of r key))"
  using RouteAll_valid [OF assms, of key] by (auto simp: replicas_of_def IsAssignedKey_def)

lemma mod_index_in: "xs \<noteq> [] \<Longrightarrow> xs ! (n mod length xs) \<in> set xs"
  by (simp add: length_greater_0_conv [symmetric] del: length_greater_0_conv)

lemma routed_by_assignment:
  assumes "cell_Get (r_cell r) = Some a" and "valid_assignment a"
  shows "\<exists>rs. RouteAll r key = Inr rs \<and> rs \<noteq> []
    \<and> (\<forall>sq. IsAssignedKey a (NewSliceKeyFromString key) sq = Inr (sq \<in> set rs))
    \<and> (\<exists>sq \<in> set rs. fst (Route r key) = Inr sq) \<and> (\<forall>key2. \<exists>sq \<in> set rs. RouteTwoLevel r key key2 = Inr sq)
    \<and> (\<forall>tried. case RouteWithRetry r key tried of
          Inr sq \<Rightarrow> sq \<in> set rs \<and> sq \<notin> set tried
        | Inl f \<Rightarrow> f = Error AllReplicasExhausted \<and> squid_String ` set rs \<subseteq> squid_String ` set tried)"
proof -
  have rs: "RouteAll r key = Inr (replicas_of r key)" "replicas_of r key \<noteq> []"
    using RouteAll_replicas [OF assms] by simp_all
  have retry: "case RouteWithRetry r key tried of
          Inr sq \<Rightarrow> sq \<in> set (replicas_of r key) \<and> sq \<notin> set tried
        | Inl f \<Rightarrow> f = Error AllReplicasExhausted
            \<and> squid_String ` set (replicas_of r key) \<subseteq> squid_String ` set tried" for tried
  proof (cases "filter (\<lambda>sq. squid_String sq \<notin> set (map squid_String tried)) (replicas_of r key)")
    case Nil
    then show ?thesis using rs(1) by (auto simp: RouteWithRetry_def Let_def filter_empty_conv)
  next
    case (Cons sq sqs)
    then have "sq \<in> set (filter (\<lambda>sq. squid_String sq \<notin> set (map squid_String tried)) (replicas_of r key))"
      by simp
    then show ?thesis using rs(1) Cons by (auto simp: RouteWithRetry_def Let_def)
  qed
  have "\<exists>sq \<in> set (replicas_of r key). fst (Route r key) = Inr sq"
    "\<exists>sq \<in> set (replicas_of r key). RouteTwoLevel r key key2 = Inr sq" for key2
    using rs mod_index_in [OF rs(2)] by (auto simp: Route_def RouteTwoLevel_def Let_def)
  then show ?thesis
    using rs retry replicas_of_assigned [OF assms, of key] by blast
qed

subsection \<open>Round robin\<close>

fun route_times :: "nat \<Rightarrow> router \<Rightarrow> string \<Rightarrow> squid result list \<times> router" where
  "route_times 0 r key = ([], r)"
| "route_times (Suc n) r key =
     (let (x, r1) = Route r key; (xs, r2) = route_times n r1 key in (x # xs, r2))"

lemma RouteAll_counter [simp]: "RouteAll (r\<lparr>rrCounters := c\<rparr>) key = RouteAll r key"
  by (simp add: RouteAll_def)

lemma route_times_many:
  assumes "RouteAll r key = Inr rs" and "length rs \<noteq> 1" and "unat (rrCounters r) + n < 2 ^ 64"
  shows "fst (route_times n r key) = map (\<lambda>i. Inr (rs ! ((unat (rrCounters r) + 1 + i) mod length rs))) [0..<n]"
  using assms
proof (induction n arbitrary: r)
  case 0
  then show ?case by simp
next
  case (Suc n)
  let ?r1 = "r\<lparr>rrCounters := rrCounters r + 1\<rparr>"
  have count: "unat (rrCounters r + 1) = unat (rrCounters r) + 1"
    using Suc.prems(3) by (simp add: unat_word_ariths(1))
  have route: "Route r key = (Inr (rs ! ((unat (rrCounters r) + 1) mod length rs)), ?r1)"
    using Suc.prems(1,2) by (simp add: Route_def count Let_def)
  have "fst (route_times n ?r1 key)
      = map (\<lambda>i. Inr (rs ! ((unat (rrCounters ?r1) + 1 + i) mod length rs))) [0..<n]"
    using Suc.prems count by (intro Suc.IH) simp_all
  then show ?case
    using route count by (simp add: split_beta Let_def upt_conv_Cons map_Suc_upt [symmetric] o_def del: upt_Suc)
qed

lemma mset_rotation: "mset (map (\<lambda>i. xs ! ((c + i) mod length xs)) [0..<length xs]) = mset xs"
proof -
  have "map (\<lambda>i. xs ! ((c + i) mod length xs)) [0..<length xs] = rotate c xs"
    by (rule nth_equalityI) (auto simp: nth_rotate)
  also have "mset (rotate c xs) = mset (drop (c mod length xs) xs) + mset (take (c mod length xs) xs)"
    by (simp add: rotate_drop_take)
  also have "\<dots> = mset (take (c mod length xs) xs @ drop (c mod length xs) xs)"
    by (simp only: mset_append add.commute)
  finally show ?thesis by simp
qed

subsection \<open>Retrying\<close>

text \<open>A caller that gives up on each replica it is handed, adding it to the list of those tried.\<close>

fun retry_loop :: "nat \<Rightarrow> router \<Rightarrow> string \<Rightarrow> squid list \<Rightarrow> squid list" where
  "retry_loop 0 r key tried = tried"
| "retry_loop (Suc n) r key tried =
     (case RouteWithRetry r key tried of
        Inl _ \<Rightarrow> tried
      | Inr sq \<Rightarrow> retry_loop n r key (tried @ [sq]))"

lemma RouteWithRetry_eq:
  assumes "RouteAll r key = Inr rs"
  shows "RouteWithRetry r key tried =
    (case [sq \<leftarrow> rs. squid_String sq \<notin> squid_String ` set tried] of
       [] \<Rightarrow> Inl (Error AllReplicasExhausted)
     | sq # _ \<Rightarrow> Inr sq)"
  using assms by (simp add: RouteWithRetry_def Let_def split: list.split)

lemma filter_suffix:
  assumes "inj_on f (set (xs @ ys))" and "distinct (xs @ ys)"
  shows "[y \<leftarrow> xs @ ys. f y \<notin> f ` set xs] = ys"
proof -
  have "f y \<notin> f ` set xs" if "y \<in> set ys" for y
    using assms that by (auto simp: inj_on_def)
  then have "[y \<leftarrow> ys. f y \<notin> f ` set xs] = ys"
    by (simp add: filter_id_conv)
  moreover have "[y \<leftarrow> xs. f y \<notin> f ` set xs] = []"
    by (simp add: filter_empty_conv)
  ultimately show ?thesis by simp
qed

lemma retry_loop_all:
  assumes "RouteAll r key = Inr (tried @ rest)" and "distinct (tried @ rest)"
    and "inj_on squid_String (set (tried @ rest))" and "length rest \<le> n"
  shows "retry_loop n r key tried = tried @ rest"
  using assms
proof (induction rest arbitrary: tried n)
  case Nil
  have "RouteWithRetry r key tried = Inl (Error AllReplicasExhausted)"
    using Nil.prems(1) filter_suffix [OF Nil.prems(3,2)] by (simp add: RouteWithRetry_eq)
  then show ?case by (cases n) simp_all
next
  case (Cons sq rest)
  have "RouteWithRetry r key tried = Inr sq"
    using filter_suffix [OF Cons.prems(3,2)] by (simp add: RouteWithRetry_eq [OF Cons.prems(1)])
  then show ?case
    using Cons.IH [of "tried @ [sq]"] Cons.prems by (cases n) simp_all
qed

text \<open>\<open>RouteTwoLevel\<close> does not depend on the calls made before; before the first assignment nothing is routed.\<close>

lemma RouteTwoLevel_stateless: "RouteTwoLevel (snd (Route r key')) key key2 = RouteTwoLevel r key key2"
  by (auto simp: RouteTwoLevel_def Route_def Let_def split: sum.splits)

lemma RouteAll_unassigned: "cell_Get (r_cell r) = None \<Longrightarrow> RouteAll r key = Inl (Error NoAssignmentAvailable)"
  by (simp add: RouteAll_def)

section \<open>Properties\<close>

definition sample_router :: router where
  "sample_router = NewResourceRouter (NewAtomicAssignmentCell (Some sample_assignment))"

lemma sample_router_cell [simp]: "cell_Get (r_cell sample_router) = Some sample_assignment"
  by (simp add: sample_router_def NewResourceRouter_def NewAtomicAssignmentCell_def cell_Get_def)

text \<open>
  C29: Round robin is fair: of \<open>n\<close> consecutive calls of \<open>Route\<close> for a key with \<open>n\<close> replicas each replica gets
  exactly one, as long as the 64-bit counter does not wrap in between.
\<close>

theorem round_robin_fair:
  assumes "cell_Get (r_cell r) = Some a" and "valid_assignment a"
    and "RouteAll r key = Inr rs" and "unat (rrCounters r) + length rs < 2 ^ 64"
  shows "mset (fst (route_times (length rs) r key)) = mset (map Inr rs)"
proof (cases "length rs = 1")
  case True
  then have "Route r key = (Inr (rs ! 0), r)" "rs = [rs ! 0]"
    using assms(3) by (simp add: Route_def) (cases rs; use True in simp)
  then have "fst (route_times (length rs) r key) = [Inr (rs ! 0)]" "map Inr rs = [Inr (rs ! 0)]"
    using True by (simp, metis list.simps(8,9))
  then show ?thesis by metis
next
  case False
  have "fst (route_times (length rs) r key)
      = map Inr (map (\<lambda>i. rs ! ((unat (rrCounters r) + 1 + i) mod length rs)) [0..<length rs])"
    using route_times_many [OF assms(3) False assms(4)] by simp
  then show ?thesis
    using mset_map [of Inr "map (\<lambda>i. rs ! ((unat (rrCounters r) + 1 + i) mod length rs)) [0..<length rs]"]
    by (simp only: mset_rotation mset_map [of Inr rs])
qed

theorem round_robin_fair_witness:
  "mset (fst (route_times 1 sample_router ''k'')) = {#Inr sample_squid#}"
proof -
  obtain rs where rs: "RouteAll sample_router ''k'' = Inr rs" "rs = [sample_squid]"
    using RouteAll_valid [OF sample_router_cell sample_assignment_valid(1), of "''k''"]
      assignment_directory.look_up_finds [OF sample_assignment_valid(1), of "NewSliceKeyFromString ''k''"]
    by auto
  then show ?thesis
    using round_robin_fair [OF sample_router_cell sample_assignment_valid(1) rs(1)]
    by (simp add: sample_router_def NewResourceRouter_def)
qed

text \<open>
  Retrying tries every replica once: if the replicas of the key print differently, a caller that starts
  with nothing tried and keeps adding the replica it was given is handed all of them, in their order, and
  then told that they are exhausted.
\<close>

lemma retry_tries_every_replica:
  assumes "RouteAll r key = Inr rs" and "distinct rs" and "inj_on squid_String (set rs)"
    and "length rs \<le> n"
  shows "retry_loop n r key [] = rs \<and> RouteWithRetry r key rs = Inl (Error AllReplicasExhausted)"
  using retry_loop_all [of r key "[]" rs n] filter_suffix [of squid_String rs "[]"] assms
  by (simp add: RouteWithRetry_eq [OF assms(1)])

definition router_with :: "squid list \<Rightarrow> router" where
  "router_with sqs =
     NewResourceRouter (NewAtomicAssignmentCell (Some (sample_assignment\<lparr>a_SliceMap := Some \<lparr>entries =
       [sample_entry\<lparr>sa_SliceWithResources := sample_swr\<lparr>swr_Resources := sqs\<rparr>\<rparr>]\<rparr>\<rparr>)))"

lemma router_with_RouteAll:
  assumes "sqs \<noteq> []"
  shows "RouteAll (router_with sqs) key = Inr sqs"
proof -
  let ?sa = "sample_entry\<lparr>sa_SliceWithResources := sample_swr\<lparr>swr_Resources := sqs\<rparr>\<rparr>"
  let ?a = "sample_assignment\<lparr>a_SliceMap := Some \<lparr>entries = [?sa]\<rparr>\<rparr>"
  have sa: "sa_GetSlice ?sa = sample_slice [] InfinityKey" "sa_Resources ?sa = sqs" "generations_ok sample_generation ?sa"
      "valid_slice_assignment ?sa"
    using assms by (simp_all add: sa_GetSlice_def sa_Resources_def generations_ok_def valid_slice_assignment_def
        load_ok_def)
  then have "valid_assignment ?a"
    by (simp add: valid_assignment_def valid_map_def sample_assignment_def)
  moreover have "cell_Get (r_cell (router_with sqs)) = Some ?a" "assignment_members ?a = [?sa]"
    by (simp_all add: router_with_def NewResourceRouter_def NewAtomicAssignmentCell_def cell_Get_def
        assignment_members_def)
  ultimately show ?thesis
    using RouteAll_valid [of "router_with sqs" ?a key] sa(2)
      assignment_directory.look_up_finds [of ?a "NewSliceKeyFromString key"] by auto
qed

text \<open>
  The retry logic recognises replicas by their printed form only, and two different squids can print
  alike when an address or a UUID contains spaces: then a failure of one makes the router skip the other,
  which has never been tried.
\<close>

lemma retry_skips_untried_replica:
  "\<exists>r s1 s2. s1 \<noteq> s2 \<and> RouteAll r ''k'' = Inr [s1, s2]
    \<and> RouteWithRetry r ''k'' [s1] = Inl (Error AllReplicasExhausted)"
proof -
  let ?t = "RFC3339Nano 0"
  let ?s1 = "\<lparr>ResourceAddress = ''a'', CreationTimeMillis = 0, ResourceUUID = ''b '' @ ?t @ '' c''\<rparr>"
  let ?s2 = "\<lparr>ResourceAddress = ''a '' @ ?t @ '' b'', CreationTimeMillis = 0, ResourceUUID = ''c''\<rparr>"
  have same: "squid_String ?s1 = squid_String ?s2" "?s1 \<noteq> ?s2"
    by (simp_all add: squid_String_def squid_CreationTime_def time_UnixMilli_def RFC3339Nano_examples(1))
  have all: "RouteAll (router_with [?s1, ?s2]) ''k'' = Inr [?s1, ?s2]"
    by (rule router_with_RouteAll) simp
  have "[sq \<leftarrow> [?s1, ?s2]. squid_String sq \<notin> squid_String ` set [?s1]] = []"
    using same(1) by (simp only: filter.simps list.set image_insert image_empty insert_iff simp_thms if_False)
  then have "RouteWithRetry (router_with [?s1, ?s2]) ''k'' [?s1] = Inl (Error AllReplicasExhausted)"
    by (simp only: RouteWithRetry_eq [OF all] list.case)
  with same(2) all show ?thesis by blast
qed

end
