(* ===== verification/SliceLookup.thy ===== *)
theory SliceLookup
  imports SyncStateMachine Router
begin

text \<open>
  \<open>pkg/client/slice_lookup.go\<close>: the watcher. One goroutine runs the loop that ticks the state machine, one
  further runs for every request in flight, and any number of client goroutines start, stop and read. Each
  step is one critical section of the mutex \<open>sl.mu\<close>, one operation on the cell, or one call of the outside
  world; between two steps any other goroutine may run.
\<close>

section \<open>Data\<close>

text \<open>
  The gRPC factory is an opaque function; what it returns is a choice of the environment. What is left to
  do for an action: the action itself, or, after the cell has been set, closing the ready channel.
\<close>

datatype grpc_factory = InsecureFactory | CustomFactory nat

datatype slice_lookup_option = WithGRPCClientFactory grpc_factory

datatype todo = Perform driver_action | CloseReady

datatype lookup_context = NotStarted | Running | Cancelled

datatype loop_pc = NoLoop | Selecting | LoopActing "todo list" | LoopDone

text \<open>A request in flight: dialing, waiting for the answer, handling actions (with or without a connection
  to clean up), or finished.\<close>

datatype call_pc = Dialing | Watching string | CallActing bool "todo list" | CallDone

record rpc_call =
  rc_Redirect :: redirect
  rc_OpID :: i64
  rc_SyncState :: sync_assignment_state_p
  rc_Timeout :: duration
  rc_pc :: call_pc

record slice_lookup =
  sl_target :: string
  sl_clientName :: string
  sl_cfg :: config
  sl_cell :: cell
  sl_counter :: u64
  sl_sm :: state_machine
  sl_grpcClientFn :: grpc_factory
  sl_ready :: bool
  sl_ctx :: lookup_context
  sl_loop :: loop_pc
  sl_calls :: "rpc_call list"

definition apply_option :: "slice_lookup_option \<Rightarrow> slice_lookup \<Rightarrow> slice_lookup" where
  "apply_option opt sl = (case opt of WithGRPCClientFactory fn \<Rightarrow> sl\<lparr>sl_grpcClientFn := fn\<rparr>)"

definition NewSliceLookup ::
  "string \<Rightarrow> string \<Rightarrow> config \<Rightarrow> slice_lookup_option list \<Rightarrow> (nat \<Rightarrow> nat) \<Rightarrow> slice_lookup" where
  "NewSliceLookup target clientName cfg opts rng =
     (let cell = NewAtomicAssignmentCell None;
          router = NewResourceRouter cell;
          sl = \<lparr>sl_target = target, sl_clientName = clientName, sl_cfg = cfg,
            sl_cell = r_cell router, sl_counter = rrCounters router,
            sl_sm = NewAssignmentSyncStateMachine cfg rng, sl_grpcClientFn = InsecureFactory,
            sl_ready = False, sl_ctx = NotStarted, sl_loop = NoLoop, sl_calls = []\<rparr>
      in fold apply_option opts sl)"

text \<open>The router of the lookup shares its cell.\<close>

definition lookup_Router :: "slice_lookup \<Rightarrow> router" where
  "lookup_Router sl = \<lparr>r_cell = sl_cell sl, rrCounters = sl_counter sl\<rparr>"

definition lookup_Cell :: "slice_lookup \<Rightarrow> cell" where
  "lookup_Cell sl = sl_cell sl"

text \<open>The ready channel: whether it is closed.\<close>

definition lookup_Ready :: "slice_lookup \<Rightarrow> bool" where
  "lookup_Ready sl = sl_ready sl"

text \<open>\<open>WaitReady\<close> in one state: the answers its \<open>select\<close> may give, none while it blocks.\<close>

datatype wait_result = WaitNil | WaitCtxErr

inductive WaitReady :: "slice_lookup \<Rightarrow> bool \<Rightarrow> wait_result \<Rightarrow> bool" where
  ready: "lookup_Ready sl \<Longrightarrow> WaitReady sl done WaitNil"
| ctx_done: "WaitReady sl True WaitCtxErr"

definition lookup_Start :: "slice_lookup \<Rightarrow> slice_lookup" where
  "lookup_Start sl =
     (if sl_ctx sl \<noteq> NotStarted then sl else sl\<lparr>sl_ctx := Running, sl_loop := Selecting\<rparr>)"

text \<open>\<open>Stop\<close> up to its wait: \<open>cancel()\<close>, if there is one.\<close>

definition lookup_cancel :: "slice_lookup \<Rightarrow> slice_lookup" where
  "lookup_cancel sl = (if sl_ctx sl = NotStarted then sl else sl\<lparr>sl_ctx := Cancelled\<rparr>)"

section \<open>Actions and requests\<close>

fun handleAction :: "todo \<Rightarrow> slice_lookup \<Rightarrow> slice_lookup \<times> todo list" where
  "handleAction (Perform (ActionUseAssignment a)) sl =
     (sl\<lparr>sl_cell := cell_put (sl_cell sl) a\<rparr>, [CloseReady])"
| "handleAction CloseReady sl = (sl\<lparr>sl_ready := True\<rparr>, [])"
| "handleAction (Perform (ActionSendRequest r n s d)) sl =
     (sl\<lparr>sl_calls := sl_calls sl @
        [\<lparr>rc_Redirect = r, rc_OpID = n, rc_SyncState = s, rc_Timeout = d, rc_pc = Dialing\<rparr>]\<rparr>, [])"

definition request_address :: "config \<Rightarrow> redirect \<Rightarrow> string" where
  "request_address cfg r =
     (if \<not> redirect_IsEmpty r then the (rd_Address r) else DefaultWatchAddress cfg)"

text \<open>\<open>Duration.Milliseconds\<close>: Go's division truncates.\<close>

definition time_Milliseconds :: "duration \<Rightarrow> i64" where
  "time_Milliseconds d =
     word_of_int (if sint d < 0 then - (- sint d div 1000000) else sint d div 1000000)"

definition build_request :: "slice_lookup \<Rightarrow> rpc_call \<Rightarrow> client_request_p" where
  "build_request sl act =
     \<lparr>crq_TargetName = sl_target sl, crq_SyncAssignmentState = rc_SyncState act,
      crq_SubscriberDebugName = sl_clientName sl,
      crq_ChosenRpcTimeoutMillis = time_Milliseconds (rc_Timeout act),
      crq_ClerkClientId = sl_clientName sl, crq_RedirectToken = rd_Token (rc_Redirect act)\<rparr>"

datatype watch_result = WatchError | WatchResponse "client_response_p option"

definition watch_event :: "string \<Rightarrow> i64 \<Rightarrow> watch_result \<Rightarrow> event" where
  "watch_event addr opID w =
     (case w of
        WatchError \<Rightarrow> EventReadFailure opID
      | WatchResponse resp \<Rightarrow> EventReadSuccess (Some addr) opID resp)"

definition set_call :: "nat \<Rightarrow> call_pc \<Rightarrow> slice_lookup \<Rightarrow> slice_lookup" where
  "set_call i p sl = sl\<lparr>sl_calls := (sl_calls sl)[i := (sl_calls sl ! i)\<lparr>rc_pc := p\<rparr>]\<rparr>"

section \<open>Steps\<close>

datatype loop_label = Tick go_time | CancelSeen go_time | LoopAct

text \<open>The goroutine of \<open>runLoop\<close>: when the context is cancelled and a tick is due, either may be chosen.\<close>

definition after_actions :: "todo list \<Rightarrow> loop_pc" where
  "after_actions ts = (if ts = [] then Selecting else LoopActing ts)"

inductive loop_step :: "runtime \<Rightarrow> slice_lookup \<Rightarrow> loop_label \<Rightarrow> slice_lookup \<Rightarrow> bool" for env :: runtime where
  tick: "sl_loop sl = Selecting \<Longrightarrow> OnAdvance env now (sl_sm sl) = (sm, acts) \<Longrightarrow>
    loop_step env sl (Tick now) (sl\<lparr>sl_sm := sm, sl_loop := after_actions (map Perform acts)\<rparr>)"
| cancel: "sl_loop sl = Selecting \<Longrightarrow> sl_ctx sl = Cancelled \<Longrightarrow>
    OnEvent env now EventCancel (sl_sm sl) = Inr (sm, acts) \<Longrightarrow>
    loop_step env sl (CancelSeen now) (sl\<lparr>sl_sm := sm, sl_loop := LoopDone\<rparr>)"
| act: "sl_loop sl = LoopActing (t # ts) \<Longrightarrow> handleAction t sl = (sl', further) \<Longrightarrow>
    loop_step env sl LoopAct (sl'\<lparr>sl_loop := after_actions (further @ ts)\<rparr>)"

text \<open>
  The goroutine of \<open>executeSendRequest\<close> for the \<open>i\<close>-th request. The outcome of dialing and the answer are
  the environment's. \<open>defer cleanup()\<close> is registered once the connection exists: \<open>CallReturn\<close> says whether
  the goroutine runs it. A panic of \<open>OnEvent\<close> ends the process: there is no step then.
\<close>

datatype call_label =
    DialFails grpc_factory string go_time
  | Watch grpc_factory string client_request_p
  | Answer go_time watch_result
  | CallAct
  | CallReturn bool

inductive call_step :: "runtime \<Rightarrow> nat \<Rightarrow> slice_lookup \<Rightarrow> call_label \<Rightarrow> slice_lookup \<Rightarrow> bool"
  for env :: runtime and i :: nat where
  dial_fails: "i < length (sl_calls sl) \<Longrightarrow> call = sl_calls sl ! i \<Longrightarrow> rc_pc call = Dialing \<Longrightarrow>
    OnEvent env now (EventReadFailure (rc_OpID call)) (sl_sm sl) = Inr (sm, acts) \<Longrightarrow>
    call_step env i sl (DialFails (sl_grpcClientFn sl) (request_address (sl_cfg sl) (rc_Redirect call)) now)
      (set_call i (CallActing False (map Perform acts)) (sl\<lparr>sl_sm := sm\<rparr>))"
| watch: "i < length (sl_calls sl) \<Longrightarrow> call = sl_calls sl ! i \<Longrightarrow> rc_pc call = Dialing \<Longrightarrow>
    addr = request_address (sl_cfg sl) (rc_Redirect call) \<Longrightarrow>
    call_step env i sl (Watch (sl_grpcClientFn sl) addr (build_request sl call)) (set_call i (Watching addr) sl)"
| answer: "i < length (sl_calls sl) \<Longrightarrow> call = sl_calls sl ! i \<Longrightarrow> rc_pc call = Watching addr \<Longrightarrow>
    OnEvent env now (watch_event addr (rc_OpID call) w) (sl_sm sl) = Inr (sm, acts) \<Longrightarrow>
    call_step env i sl (Answer now w) (set_call i (CallActing True (map Perform acts)) (sl\<lparr>sl_sm := sm\<rparr>))"
| act: "i < length (sl_calls sl) \<Longrightarrow> rc_pc (sl_calls sl ! i) = CallActing conn (t # ts) \<Longrightarrow>
    handleAction t sl = (sl', further) \<Longrightarrow>
    call_step env i sl CallAct (set_call i (CallActing conn (further @ ts)) sl')"
| return: "i < length (sl_calls sl) \<Longrightarrow> rc_pc (sl_calls sl ! i) = CallActing conn [] \<Longrightarrow>
    call_step env i sl (CallReturn conn) (set_call i CallDone sl)"

text \<open>
  What client goroutines do. \<open>Stop\<close> returns at once before the start; otherwise it waits until the loop
  has ended, which is the step \<open>Stopped\<close>.
\<close>

datatype client_label = Start | Stop | Stopped | RouteKey string "squid result" | Listen listener

inductive client_step :: "slice_lookup \<Rightarrow> client_label \<Rightarrow> slice_lookup \<Rightarrow> bool" where
  start: "client_step sl Start (lookup_Start sl)"
| stop: "client_step sl Stop (lookup_cancel sl)"
| stopped: "sl_loop sl = LoopDone \<Longrightarrow> client_step sl Stopped sl"
| route: "Route (lookup_Router sl) key = (x, r) \<Longrightarrow>
    client_step sl (RouteKey key x) (sl\<lparr>sl_counter := rrCounters r\<rparr>)"
| listen: "client_step sl (Listen l) (sl\<lparr>sl_cell := AddListener (sl_cell sl) l\<rparr>)"

datatype lookup_label = InLoop loop_label | InCall nat call_label | Client client_label

inductive lk_step :: "runtime \<Rightarrow> slice_lookup \<Rightarrow> lookup_label \<Rightarrow> slice_lookup \<Rightarrow> bool" for env :: runtime where
  in_loop: "loop_step env sl l sl' \<Longrightarrow> lk_step env sl (InLoop l) sl'"
| in_call: "call_step env i sl c sl' \<Longrightarrow> lk_step env sl (InCall i c) sl'"
| client: "client_step sl c sl' \<Longrightarrow> lk_step env sl (Client c) sl'"

inductive_cases lk_stepE: "lk_step env sl l sl'"
inductive_simps lk_step_simps:
  "lk_step env sl (InLoop l) sl'" "lk_step env sl (InCall i c) sl'" "lk_step env sl (Client d) sl'"

abbreviation lk_run :: "runtime \<Rightarrow> slice_lookup \<Rightarrow> lookup_label list \<Rightarrow> slice_lookup \<Rightarrow> bool" where
  "lk_run env \<equiv> run_of (lk_step env)"

lemmas lk_run_nil = run_of.run_nil [of "lk_step env" for env]
  and lk_run_snoc = run_of.run_snoc [of "lk_step env" for env]
  and lk_run_step = run_step [of "lk_step env" for env]
  and lk_run_trans = run_trans [of "lk_step env" for env]

end
