(* ===== verification/LookupInvariants.thy ===== *)
theory LookupInvariants
  imports SliceLookup
begin

text \<open>
  What holds of a slice lookup in every interleaving of its goroutines: how the cell follows the state
  machine, what being ready means, what is sent to which address, and how the lookup winds down after it
  has been stopped.
\<close>

section \<open>A cell that is behind its source\<close>

text \<open>
  A source issues values of increasing versions; values that are issued but not yet put into the cell are
  pending, and any of them may be put next.
\<close>

context versioned_cell begin

definition follows :: "'c \<Rightarrow> 'a option \<Rightarrow> 'a set \<Rightarrow> bool" where
  "follows c cur pend \<longleftrightarrow>
     (\<forall>a. a \<in> pend \<or> get c = Some a \<longrightarrow> (\<exists>b. cur = Some b \<and> (a = b \<or> version a < version b)))
     \<and> (\<forall>b. cur = Some b \<longrightarrow> b \<in> pend \<or> get c = Some b)"

lemma follows_put:
  assumes "follows c cur pend" and "a \<in> pend" and "pend - {a} \<subseteq> pend'" and "pend' \<subseteq> pend"
  shows "follows (put c a) cur pend'"
proof -
  obtain b where b: "cur = Some b" "a = b \<or> version a < version b"
    using assms(1,2) by (auto simp: follows_def)
  have "\<exists>b. cur = Some b \<and> (x = b \<or> version x < version b)" if "x \<in> pend' \<or> get (put c a) = Some x" for x
    using that assms put_cases [of c a] by (auto simp: follows_def)
  moreover have "b \<in> pend' \<or> get (put c a) = Some b"
  proof (cases "a = b")
    case True
    have "get c \<noteq> Some x \<or> \<not> version a < version x" for x
      using assms(1) b True by (auto simp: follows_def)
    then show ?thesis using True by (auto simp: get_put split: option.split)
  next
    case False
    then have "b \<in> pend' \<or> get c = Some b"
      using assms b(1) by (auto simp: follows_def)
    then show ?thesis using b False by (auto simp: get_put)
  qed
  ultimately show ?thesis using b(1) by (auto simp: follows_def)
qed

lemma follows_issue:
  assumes "follows c cur pend" and "\<And>b. cur = Some b \<Longrightarrow> version b < version a"
  shows "follows c (Some a) (insert a pend)"
  using assms by (fastforce simp: follows_def)

lemma follows_quiet: "follows c cur {} \<Longrightarrow> get c = cur"
  by (cases cur; cases "get c") (auto simp: follows_def)

end

section \<open>Accounting\<close>

lemma sum_list_update:
  fixes f :: "'a \<Rightarrow> 'b::comm_monoid_add"
  shows "i < length xs \<Longrightarrow> sum_list (map f (xs[i := y])) + f (xs ! i) = sum_list (map f xs) + f y"
proof (induction xs arbitrary: i)
  case (Cons x xs)
  show ?case
  proof (cases i)
    case 0
    then show ?thesis by (simp add: ac_simps)
  next
    case (Suc j)
    with Cons have "f x + (sum_list (map f (xs[j := y])) + f (xs ! j)) = f x + (sum_list (map f xs) + f y)"
      by simp
    with Suc show ?thesis by (simp add: ac_simps)
  qed
qed simp

fun loop_todos :: "loop_pc \<Rightarrow> todo list" where
  "loop_todos (LoopActing ts) = ts"
| "loop_todos _ = []"

fun call_todos :: "call_pc \<Rightarrow> todo list" where
  "call_todos (CallActing conn ts) = ts"
| "call_todos _ = []"

definition pending :: "slice_lookup \<Rightarrow> todo multiset" where
  "pending sl = mset (loop_todos (sl_loop sl)) + sum_list (map (\<lambda>c. mset (call_todos (rc_pc c))) (sl_calls sl))"

definition waiting_uses :: "todo multiset \<Rightarrow> assignment set" where
  "waiting_uses todos = {a. Perform (ActionUseAssignment a) \<in># todos}"

lemma waiting_uses_simps [simp]:
  "waiting_uses {#} = {}" "waiting_uses (M + N) = waiting_uses M \<union> waiting_uses N"
  "waiting_uses (add_mset (Perform (ActionUseAssignment a)) M) = insert a (waiting_uses M)"
  "waiting_uses (add_mset (Perform (ActionSendRequest r n s d)) M) = waiting_uses M"
  "waiting_uses (add_mset CloseReady M) = waiting_uses M"
  by (auto simp: waiting_uses_def)

lemma waiting_uses_acts [simp]: "waiting_uses (image_mset Perform (mset acts)) = set (uses acts)"
  by (induction acts rule: uses.induct) auto

lemma CloseReady_acts [simp]: "CloseReady \<notin> Perform ` A"
  by auto

lemma loop_todos_after [simp]: "loop_todos (after_actions ts) = ts"
  by (simp add: after_actions_def)

lemma pending_set_call:
  "i < length (sl_calls sl) \<Longrightarrow>
     pending (set_call i p sl) + mset (call_todos (rc_pc (sl_calls sl ! i))) = pending sl + mset (call_todos p)"
  using sum_list_update [of i "sl_calls sl" "\<lambda>c. mset (call_todos (rc_pc c))" "(sl_calls sl ! i)\<lparr>rc_pc := p\<rparr>"]
  by (simp add: pending_def set_call_def ac_simps)

section \<open>The abstract watcher\<close>

text \<open>
  The specification forgets which goroutine does what: a state machine, a cell, the ready flag, a bag of
  things still to be done, in no order, and the requests sent. \<open>answering\<close> is the set of addresses that may
  answer.
\<close>

record watch_spec =
  ws_sm :: state_machine
  ws_cell :: cell
  ws_ready :: bool
  ws_todo :: "todo multiset"
  ws_sent :: "(redirect \<times> sync_assignment_state_p) list"

fun answered_by :: "event option \<Rightarrow> string set \<Rightarrow> bool" where
  "answered_by (Some (EventReadSuccess address opID resp)) answering
     \<longleftrightarrow> (case address of None \<Rightarrow> False | Some a \<Rightarrow> a \<in> answering)"
| "answered_by _ answering \<longleftrightarrow> True"

inductive ws_step :: "runtime \<Rightarrow> string set \<Rightarrow> watch_spec \<Rightarrow> watch_spec \<Rightarrow> bool"
  for env :: runtime and answering :: "string set" where
  skip: "ws_step env answering w w"
| listen: "ws_step env answering w (w\<lparr>ws_cell := AddListener (ws_cell w) l\<rparr>)"
| input: "sm_step env i (ws_sm w) = Inr (sm, acts) \<Longrightarrow> answered_by (snd i) answering \<Longrightarrow>
    ws_step env answering w (w\<lparr>ws_sm := sm, ws_todo := ws_todo w + mset (map Perform acts)\<rparr>)"
| set: "ws_todo w = add_mset (Perform (ActionUseAssignment a)) rest \<Longrightarrow>
    ws_step env answering w (w\<lparr>ws_cell := cell_put (ws_cell w) a, ws_todo := add_mset CloseReady rest\<rparr>)"
| close: "ws_todo w = add_mset CloseReady rest \<Longrightarrow>
    ws_step env answering w (w\<lparr>ws_ready := True, ws_todo := rest\<rparr>)"
| send: "ws_todo w = add_mset (Perform (ActionSendRequest r n s d)) rest \<Longrightarrow>
    ws_step env answering w (w\<lparr>ws_todo := rest, ws_sent := ws_sent w @ [(r, s)]\<rparr>)"

definition watching :: "slice_lookup \<Rightarrow> string set" where
  "watching sl = {addr. \<exists>c \<in> set (sl_calls sl). rc_pc c = Watching addr}"

definition spec_with :: "slice_lookup \<Rightarrow> todo multiset \<Rightarrow> watch_spec" where
  "spec_with sl todos = \<lparr>ws_sm = sl_sm sl, ws_cell = sl_cell sl, ws_ready = sl_ready sl, ws_todo = todos,
     ws_sent = map (\<lambda>c. (rc_Redirect c, rc_SyncState c)) (sl_calls sl)\<rparr>"

definition spec_of :: "slice_lookup \<Rightarrow> watch_spec" where
  "spec_of sl = spec_with sl (pending sl)"

lemma spec_of_simps [simp]:
  "ws_sm (spec_of sl) = sl_sm sl" "ws_cell (spec_of sl) = sl_cell sl" "ws_ready (spec_of sl) = sl_ready sl"
  "ws_todo (spec_of sl) = pending sl"
  "ws_sent (spec_of sl) = map (\<lambda>c. (rc_Redirect c, rc_SyncState c)) (sl_calls sl)"
  by (simp_all add: spec_of_def spec_with_def)

lemma set_call_simps [simp]:
  "sl_sm (set_call i p sl) = sl_sm sl" "sl_cell (set_call i p sl) = sl_cell sl"
  "sl_ready (set_call i p sl) = sl_ready sl" "sl_loop (set_call i p sl) = sl_loop sl"
  "sl_ctx (set_call i p sl) = sl_ctx sl" "sl_cfg (set_call i p sl) = sl_cfg sl"
  "sl_target (set_call i p sl) = sl_target sl" "sl_clientName (set_call i p sl) = sl_clientName sl"
  "sl_grpcClientFn (set_call i p sl) = sl_grpcClientFn sl"
  "length (sl_calls (set_call i p sl)) = length (sl_calls sl)"
  by (simp_all add: set_call_def)

lemma sent_set_call [simp]:
  "map (\<lambda>c. (rc_Redirect c, rc_SyncState c)) (sl_calls (set_call i p sl))
    = map (\<lambda>c. (rc_Redirect c, rc_SyncState c)) (sl_calls sl)"
  by (cases "i < length (sl_calls sl)")
    (auto simp: set_call_def map_update list_update_beyond intro: list_update_same_conv [THEN iffD2])

text \<open>One handled action is one step of the specification.\<close>

lemma handle_step:
  assumes "handleAction t sl = (sl', new)"
  shows "ws_step env answering (spec_with sl (add_mset t rest)) (spec_with sl' (rest + mset new))"
proof (cases "(t, sl)" rule: handleAction.cases)
  case (1 a)
  then show ?thesis
    using assms ws_step.set [of "spec_with sl (add_mset t rest)" a rest env answering]
    by (auto simp: spec_with_def)
next
  case 2
  then show ?thesis
    using assms ws_step.close [of "spec_with sl (add_mset t rest)" rest env answering]
    by (auto simp: spec_with_def)
next
  case (3 r n s d)
  then show ?thesis
    using assms ws_step.send [of "spec_with sl (add_mset t rest)" r n s d rest env answering]
    by (auto simp: spec_with_def)
qed

lemma handle_frame:
  assumes "handleAction t sl = (sl', new)"
  shows "sl_loop sl' = sl_loop sl" "sl_sm sl' = sl_sm sl" "sl_ctx sl' = sl_ctx sl" "sl_cfg sl' = sl_cfg sl"
    "sl_grpcClientFn sl' = sl_grpcClientFn sl" "pending sl' = pending sl"
    "\<exists>cs. sl_calls sl' = sl_calls sl @ cs \<and> (\<forall>c \<in> set cs. rc_pc c = Dialing)"
  using assms by (cases "(t, sl)" rule: handleAction.cases; auto simp: pending_def)+

lemma spec_set_call:
  assumes "i < length (sl_calls sl)" and "mset (call_todos (rc_pc (sl_calls sl ! i))) = todos"
    and "pending sl = todos + rest"
  shows "spec_of (set_call i p sl) = spec_with sl (mset (call_todos p) + rest)"
proof -
  have "pending (set_call i p sl) = mset (call_todos p) + rest"
    using pending_set_call [OF assms(1), of p] assms(2,3) by (simp add: ac_simps)
  then show ?thesis by (simp add: spec_of_def spec_with_def del: map_map)
qed

lemma pending_call:
  assumes "i < length (sl_calls sl)"
  obtains rest where "pending sl = mset (call_todos (rc_pc (sl_calls sl ! i))) + rest"
  using pending_set_call [OF assms, of CallDone] that [of "pending (set_call i CallDone sl)"]
  by (simp add: ac_simps)

lemma call_refines:
  assumes "call_step env i sl c sl'"
  shows "ws_step env (watching sl) (spec_of sl) (spec_of sl')"
  using assms
proof (cases rule: call_step.cases)
  case (dial_fails call now sm acts)
  have "ws_step env (watching sl) (spec_of sl)
      ((spec_of sl)\<lparr>ws_sm := sm, ws_todo := pending sl + mset (map Perform acts)\<rparr>)"
    using ws_step.input [of env "(now, Some (EventReadFailure (rc_OpID call)))" "spec_of sl" sm acts] dial_fails(6)
    by (simp add: sm_step_def spec_of_def spec_with_def)
  moreover have "spec_of sl' = (spec_of sl)\<lparr>ws_sm := sm, ws_todo := pending sl + mset (map Perform acts)\<rparr>"
    using dial_fails spec_set_call [of i "sl\<lparr>sl_sm := sm\<rparr>" "{#}" "pending sl"]
    by (simp add: spec_of_def spec_with_def pending_def ac_simps)
  ultimately show ?thesis by simp
next
  case (watch call addr)
  then have "spec_of sl' = spec_of sl"
    using spec_set_call [of i sl "{#}" "pending sl"] by (simp add: spec_of_def)
  then show ?thesis by (simp add: ws_step.skip)
next
  case (answer call addr now w sm acts)
  have "addr \<in> watching sl"
    using answer(3-5) by (auto simp: watching_def)
  then have "ws_step env (watching sl) (spec_of sl)
      ((spec_of sl)\<lparr>ws_sm := sm, ws_todo := pending sl + mset (map Perform acts)\<rparr>)"
    using ws_step.input [of env "(now, Some (watch_event addr (rc_OpID call) w))" "spec_of sl" sm acts] answer(6)
    by (simp add: sm_step_def spec_of_def spec_with_def watch_event_def split: watch_result.splits)
  moreover have "spec_of sl' = (spec_of sl)\<lparr>ws_sm := sm, ws_todo := pending sl + mset (map Perform acts)\<rparr>"
    using answer spec_set_call [of i "sl\<lparr>sl_sm := sm\<rparr>" "{#}" "pending sl"]
    by (simp add: spec_of_def spec_with_def pending_def ac_simps)
  ultimately show ?thesis by simp
next
  case (act conn t ts sl1 new)
  obtain rest where rest: "pending sl = add_mset t (mset ts) + rest"
    using pending_call [OF act(3)] act(4) by (metis call_todos.simps(1) mset.simps(2))
  have frame: "i < length (sl_calls sl1)" "sl_calls sl1 ! i = sl_calls sl ! i" "pending sl1 = pending sl"
    using handle_frame [OF act(5)] act(3) by (auto simp: nth_append)
  then have "spec_of sl' = spec_with sl1 (mset (new @ ts) + rest)"
    using act(2,4) rest spec_set_call [of i sl1 "add_mset t (mset ts)" rest "CallActing conn (new @ ts)"] by simp
  then show ?thesis
    using handle_step [OF act(5), of env "watching sl" "mset ts + rest"] rest
    by (simp add: spec_of_def ac_simps)
next
  case (return conn)
  then have "spec_of sl' = spec_of sl"
    using spec_set_call [of i sl "{#}" "pending sl"] by (simp add: spec_of_def)
  then show ?thesis by (simp add: ws_step.skip)
qed

lemma pending_loop: "pending (sl\<lparr>sl_loop := p\<rparr>) + mset (loop_todos (sl_loop sl)) = pending sl + mset (loop_todos p)"
  by (simp add: pending_def ac_simps)

lemma loop_refines:
  assumes "loop_step env sl l sl'"
  shows "ws_step env answering (spec_of sl) (spec_of sl')"
  using assms
proof (cases rule: loop_step.cases)
  case (tick now sm acts)
  then show ?thesis
    using ws_step.input [of env "(now, None)" "spec_of sl" sm acts answering]
    by (simp add: sm_step_def spec_of_def spec_with_def pending_def ac_simps)
next
  case (cancel now sm acts)
  then have "acts = []" by (auto simp: OnEvent_def split: if_splits)
  then show ?thesis
    using cancel ws_step.input [of env "(now, Some EventCancel)" "spec_of sl" sm acts answering]
    by (simp add: sm_step_def spec_of_def spec_with_def pending_def)
next
  case (act t ts sl1 new)
  define rest where "rest = sum_list (map (\<lambda>c. mset (call_todos (rc_pc c))) (sl_calls sl))"
  have "pending sl = add_mset t (mset ts + rest)"
    using act(3) by (simp add: pending_def rest_def)
  moreover have "spec_of sl' = spec_with sl1 (mset ts + rest + mset new)"
    using act(2,3) handle_frame(1,6) [OF act(4)]
    by (simp add: spec_of_def spec_with_def pending_def rest_def ac_simps)
  ultimately show ?thesis
    using handle_step [OF act(4), of env answering "mset ts + rest"] by (simp add: spec_of_def)
qed

lemma client_refines:
  assumes "client_step sl c sl'" and "sl_ctx sl = NotStarted \<Longrightarrow> sl_loop sl = NoLoop"
  shows "ws_step env answering (spec_of sl) (spec_of sl')"
proof -
  have "spec_of sl' = spec_of sl \<or> (\<exists>l. spec_of sl' = (spec_of sl)\<lparr>ws_cell := AddListener (ws_cell (spec_of sl)) l\<rparr>)"
    using assms
    by (cases rule: client_step.cases)
      (auto simp: spec_of_def spec_with_def pending_def lookup_Start_def lookup_cancel_def)
  then show ?thesis using ws_step.skip ws_step.listen by metis
qed

subsection \<open>The life of the loop\<close>

definition life_inv :: "slice_lookup \<Rightarrow> bool" where
  "life_inv sl \<longleftrightarrow>
     (sl_loop sl = NoLoop \<longleftrightarrow> sl_ctx sl = NotStarted)
     \<and> (sl_loop sl = LoopDone \<longrightarrow> sl_ctx sl = Cancelled)
     \<and> (sl_loop sl = LoopDone \<longleftrightarrow> isCancelled (sl_sm sl))
     \<and> sl_loop sl \<noteq> LoopActing []"

lemma after_actions_cases [simp]:
  "after_actions ts \<noteq> NoLoop" "after_actions ts \<noteq> LoopDone" "after_actions ts \<noteq> LoopActing []"
  by (simp_all add: after_actions_def)

lemma OnEvent_cancelled:
  "OnEvent env now e sm = Inr (sm', acts) \<Longrightarrow> isCancelled sm \<Longrightarrow> sm' = sm \<and> acts = []"
  by (simp add: OnEvent_def)

lemma OnEvent_cancel:
  "OnEvent env now EventCancel sm = Inr (sm', acts) \<longleftrightarrow> sm' = sm\<lparr>isCancelled := True\<rparr> \<and> acts = []"
  by (cases sm) (auto simp: OnEvent_def)

lemma OnAdvance_live: "OnAdvance env now sm = (sm', acts) \<Longrightarrow> isCancelled sm' \<longleftrightarrow> isCancelled sm"
  using sm_step_cancelled [of env "(now, None)" sm sm' acts] by (simp add: sm_step_def)

lemma OnEvent_live:
  "OnEvent env now e sm = Inr (sm', acts) \<Longrightarrow> e \<noteq> EventCancel \<Longrightarrow> isCancelled sm' \<longleftrightarrow> isCancelled sm"
  using sm_step_cancelled [of env "(now, Some e)" sm sm' acts] by (simp add: sm_step_def)

lemma watch_event_not_cancel [simp]: "watch_event addr opID w \<noteq> EventCancel"
  by (simp add: watch_event_def split: watch_result.splits)

lemma life_inv_step:
  assumes "lk_step env sl l sl'" and "life_inv sl"
  shows "life_inv sl'"
  using assms(1)
proof (cases rule: lk_step.cases)
  case (in_loop x)
  from in_loop(2) show ?thesis
    using assms(2)
    by (cases rule: loop_step.cases) (auto simp: life_inv_def OnEvent_cancel handle_frame OnAdvance_live)
next
  case (in_call i c)
  from in_call(2) show ?thesis
    using assms(2)
    by (cases rule: call_step.cases) (auto simp: life_inv_def handle_frame dest: OnEvent_live)
next
  case (client c)
  from client(2) show ?thesis
    using assms(2)
    by (cases rule: client_step.cases) (auto simp: life_inv_def lookup_Start_def lookup_cancel_def)
qed

lemma lk_refines:
  assumes "lk_step env sl l sl'" and "life_inv sl"
  shows "ws_step env (watching sl) (spec_of sl) (spec_of sl')"
  using assms
  by (cases rule: lk_step.cases)
    (auto intro: loop_refines call_refines client_refines simp: life_inv_def)

lemma apply_option_WithGRPC [simp]:
  "apply_option (WithGRPCClientFactory fn) sl = sl\<lparr>sl_grpcClientFn := fn\<rparr>"
  by (simp add: apply_option_def)

lemma fold_apply_option:
  "fold apply_option opts sl = sl\<lparr>sl_grpcClientFn := sl_grpcClientFn (fold apply_option opts sl)\<rparr>"
proof (induction opts arbitrary: sl)
  case (Cons opt opts)
  have "fold apply_option (opt # opts) sl
      = (apply_option opt sl)\<lparr>sl_grpcClientFn := sl_grpcClientFn (fold apply_option opts (apply_option opt sl))\<rparr>"
    using Cons [of "apply_option opt sl"] by simp
  then show ?case by (cases opt) simp
qed simp

lemma NewSliceLookup_simps [simp]:
  "sl_target (NewSliceLookup t n cfg opts rng) = t" "sl_clientName (NewSliceLookup t n cfg opts rng) = n"
  "sl_cfg (NewSliceLookup t n cfg opts rng) = cfg"
  "sl_cell (NewSliceLookup t n cfg opts rng) = NewAtomicAssignmentCell None"
  "sl_sm (NewSliceLookup t n cfg opts rng) = NewAssignmentSyncStateMachine cfg rng"
  "\<not> sl_ready (NewSliceLookup t n cfg opts rng)" "sl_ctx (NewSliceLookup t n cfg opts rng) = NotStarted"
  "sl_loop (NewSliceLookup t n cfg opts rng) = NoLoop" "sl_calls (NewSliceLookup t n cfg opts rng) = []"
  by (simp_all add: NewSliceLookup_def NewResourceRouter_def Let_def, (subst fold_apply_option, simp)+)

lemma life_inv_new: "life_inv (NewSliceLookup t n cfg opts rng)"
  by (simp add: life_inv_def)

lemma life_inv_run: "lk_run env sl ls sl' \<Longrightarrow> life_inv sl \<Longrightarrow> life_inv sl'"
  by (erule run_invariant) (auto intro: life_inv_step)


subsection \<open>The cell follows the state machine\<close>

definition ws_inv :: "watch_spec \<Rightarrow> bool" where
  "ws_inv w \<longleftrightarrow>
     assignment_cell.follows (ws_cell w) (sm_assignment (ws_sm w)) (waiting_uses (ws_todo w))
     \<and> (\<forall>a. a \<in> waiting_uses (ws_todo w) \<or> cell_Get (ws_cell w) = Some a \<longrightarrow> valid_assignment a)
     \<and> (ws_ready w \<or> CloseReady \<in># ws_todo w \<longleftrightarrow> cell_Get (ws_cell w) \<noteq> None)"

lemma cell_Get_AddListener [simp]: "cell_Get (AddListener c l) = cell_Get c"
  by (simp add: cell_Get_def AddListener_def)

lemma follows_AddListener [simp]:
  "assignment_cell.follows (AddListener c l) cur pend \<longleftrightarrow> assignment_cell.follows c cur pend"
  by (simp add: assignment_cell.follows_def)

lemma newer_rank: "newer cur a \<longleftrightarrow> (\<forall>b. cur = Some b \<longrightarrow> a_rank b < a_rank a)"
  by (simp add: newer_def a_rank_def order_simps split: option.split)

lemma ws_inv_step: "ws_step env answering w w' \<Longrightarrow> ws_inv w \<Longrightarrow> ws_inv w'"
proof (induction rule: ws_step.induct)
  case (input i w sm acts)
  have inv: "assignment_cell.follows (ws_cell w) (sm_assignment (ws_sm w)) (waiting_uses (ws_todo w))"
    using input.prems by (simp add: ws_inv_def)
  have "takes_up (ws_sm w) sm acts"
    using sm_step_frame [OF input.hyps(1)] by blast
  then consider "uses acts = []" "sm_assignment sm = sm_assignment (ws_sm w)"
    | a where "uses acts = [a]" "sm_assignment sm = Some a" "valid_assignment a" "newer (sm_assignment (ws_sm w)) a"
    by (auto simp: takes_up_def)
  then show ?case
  proof cases
    case 1
    then show ?thesis using input.prems by (simp add: ws_inv_def)
  next
    case 2
    then show ?thesis
      using input.prems assignment_cell.follows_issue [OF inv, of a] by (auto simp: ws_inv_def newer_rank)
  qed
next
  case (set w a rest)
  have "assignment_cell.follows (cell_put (ws_cell w) a) (sm_assignment (ws_sm w)) (waiting_uses rest)"
    by (rule assignment_cell.follows_put [where pend = "waiting_uses (ws_todo w)" and a = a])
      (use set in \<open>auto simp: ws_inv_def\<close>)
  moreover have "valid_assignment x" if "cell_Get (cell_put (ws_cell w) a) = Some x" for x
    using set that assignment_cell.put_cases [of "ws_cell w" a] by (auto simp: ws_inv_def)
  ultimately show ?case
    using set assignment_cell.put_get_some [of "ws_cell w" a] by (auto simp: ws_inv_def)
qed (auto simp: ws_inv_def)

lemma ws_inv_new: "ws_inv (spec_of (NewSliceLookup t n cfg opts rng))"
  by (simp add: ws_inv_def assignment_cell.follows_def cell_Get_def NewAtomicAssignmentCell_def pending_def)

lemma ws_inv_run: "lk_run env sl ls sl' \<Longrightarrow> life_inv sl \<Longrightarrow> ws_inv (spec_of sl) \<Longrightarrow> ws_inv (spec_of sl')"
  by (induction rule: run_of.induct) (auto intro: ws_inv_step lk_refines life_inv_run)

lemmas lookup_inv = life_inv_run [OF _ life_inv_new] ws_inv_run [OF _ life_inv_new ws_inv_new]

text \<open>The cell never goes back.\<close>

lemma ws_cell_step:
  "ws_step env answering w w' \<Longrightarrow> cell_Get (ws_cell w) = Some a \<Longrightarrow>
     \<exists>b. cell_Get (ws_cell w') = Some b \<and> a_rank a \<le> a_rank b"
  by (induction rule: ws_step.induct) (use assignment_cell.put_version in auto)

lemma lk_run_cell:
  "lk_run env sl ls sl' \<Longrightarrow> life_inv sl \<Longrightarrow> cell_Get (sl_cell sl) = Some a \<Longrightarrow>
     \<exists>b. cell_Get (sl_cell sl') = Some b \<and> a_rank a \<le> a_rank b"
proof (induction rule: run_of.induct)
  case (run_snoc ls sl' l sl'')
  then obtain b where b: "cell_Get (sl_cell sl') = Some b" "a_rank a \<le> a_rank b" by blast
  obtain c where "cell_Get (sl_cell sl'') = Some c" "a_rank b \<le> a_rank c"
    using ws_cell_step [OF lk_refines [OF run_snoc.hyps(2)], of b] life_inv_run [OF run_snoc.hyps(1) run_snoc.prems(1)] b(1)
    by auto
  with b show ?case by auto
qed auto

lemma ws_ready_step: "ws_step env answering w w' \<Longrightarrow> ws_ready w \<Longrightarrow> ws_ready w'"
  by (induction rule: ws_step.induct) auto

lemma lk_run_ready: "lk_run env sl ls sl' \<Longrightarrow> life_inv sl \<Longrightarrow> sl_ready sl \<Longrightarrow> sl_ready sl'"
proof (induction rule: run_of.induct)
  case (run_snoc ls sl' l sl'')
  then show ?case
    using ws_ready_step [OF lk_refines [OF run_snoc.hyps(2)]] life_inv_run by fastforce
qed

subsection \<open>Where the assignment is pushed\<close>

text \<open>
  \<open>asked\<close> is a set of addresses that have been watched. The last responder is one of them, and known when there
  is an assignment; so a request that carries the assignment has a redirect to one of them.
\<close>

definition responder_asked :: "string set \<Rightarrow> state_machine \<Rightarrow> bool" where
  "responder_asked asked sm \<longleftrightarrow>
     (sm_assignment sm \<noteq> None \<longrightarrow> rk_address (remoteKnown sm) \<noteq> None)
     \<and> (\<forall>addr. rk_address (remoteKnown sm) = Some addr \<longrightarrow> addr \<in> asked)"

definition push_ok :: "string set \<Rightarrow> redirect \<Rightarrow> sync_assignment_state_p \<Rightarrow> bool" where
  "push_ok asked r s \<longleftrightarrow> ((\<exists>a. ss_State s = Some (KnownAssignment a)) \<longrightarrow> (\<exists>addr \<in> asked. rd_Address r = Some addr))"

fun pushes_ok :: "string set \<Rightarrow> driver_action \<Rightarrow> bool" where
  "pushes_ok asked (ActionUseAssignment a) \<longleftrightarrow> True"
| "pushes_ok asked (ActionSendRequest r n s d) \<longleftrightarrow> push_ok asked r s"

lemma next_sync_state_push: "responder_asked asked sm \<Longrightarrow> push_ok asked (sm_redirect sm) (next_sync_state env sm)"
  by (auto simp: next_sync_state_def responder_asked_def push_ok_def sameAddress_def Let_def split: option.splits)

lemma sends_none_ok: "sends acts = [] \<Longrightarrow> list_all (pushes_ok asked) acts"
  by (induction acts rule: sends.induct) auto

lemma push_ok_mono: "push_ok asked r s \<Longrightarrow> asked \<subseteq> asked' \<Longrightarrow> push_ok asked' r s"
  by (auto simp: push_ok_def)

lemma pushes_ok_mono: "pushes_ok asked act \<Longrightarrow> asked \<subseteq> asked' \<Longrightarrow> pushes_ok asked' act"
  by (cases act) (auto intro: push_ok_mono)

lemma onAdvance_push:
  assumes "onAdvanceInternal env now sm = (sm', acts)" and "responder_asked asked sm"
  shows "responder_asked asked sm' \<and> list_all (pushes_ok asked) acts"
proof
  show "responder_asked asked sm'"
    using assms onAdvance_frame [OF assms(1)] by (simp add: responder_asked_def)
  show "list_all (pushes_ok asked) acts"
    using assms(1)
  proof (cases rule: onAdvance_cases)
    case send
    have "responder_asked asked (check_deadline now sm)"
      using assms(2) by (simp add: responder_asked_def)
    then show ?thesis
      using send(3) next_sync_state_push [of asked "check_deadline now sm" env]
      by (simp add: send_request_def Let_def)
  qed simp
qed

lemma onReadSuccess_push:
  assumes "onReadSuccess env now (Some addr) opID resp sm = Inr (sm', acts)" and "addr \<in> asked"
    and "responder_asked asked sm"
  shows "responder_asked asked sm' \<and> list_all (pushes_ok asked) acts"
proof (cases resp)
  case None
  then show ?thesis using assms by (simp add: onReadSuccess_def)
next
  case (Some r)
  obtain isNew sm1 acts1 where inc: "incorporateSyncState env (crp_SyncAssignmentState r) sm = Inr (isNew, sm1, acts1)"
    using assms Some by (auto simp: onReadSuccess_def elim!: and_then_InrE)
  have "list_all (pushes_ok asked) acts"
    using onReadSuccess_frame [OF assms(1)] by (intro sends_none_ok) simp
  moreover have "responder_asked asked sm'"
    using assms Some inc incorporate_cases [OF inc]
    by (auto simp: onReadSuccess_def Let_def and_then_Inr_iff responder_asked_def split: if_splits)
  ultimately show ?thesis by simp
qed

lemma sm_step_push:
  assumes "sm_step env i sm = Inr (sm', acts)" and "answered_by (snd i) asked" and "responder_asked asked sm"
  shows "responder_asked asked sm' \<and> list_all (pushes_ok asked) acts"
  using assms(1)
proof (cases rule: sm_step_cases)
  case (failure opID)
  have "responder_asked asked (onReadFailure (fst i) opID sm)"
    using assms(3) by (simp add: responder_asked_def)
  with failure(3) show ?thesis by (rule onAdvance_push)
next
  case (success address opID resp sm1 acts1 acts2)
  obtain addr where "address = Some addr" "addr \<in> asked"
    using success(2) assms(2) by (auto split: option.splits)
  then have "responder_asked asked sm1 \<and> list_all (pushes_ok asked) acts1"
    using onReadSuccess_push success(3) assms(3) by blast
  then show ?thesis
    using onAdvance_push [OF success(4)] success(5) by simp
next
  case advance
  from onAdvance_push [OF advance(3) assms(3)] show ?thesis .
qed (use assms(3) in \<open>simp_all add: responder_asked_def\<close>)

definition push_inv :: "string set \<Rightarrow> watch_spec \<Rightarrow> bool" where
  "push_inv asked w \<longleftrightarrow> responder_asked asked (ws_sm w)
     \<and> (\<forall>act. Perform act \<in># ws_todo w \<longrightarrow> pushes_ok asked act)
     \<and> (\<forall>(r, s) \<in> set (ws_sent w). push_ok asked r s)"

lemma push_inv_mono: "push_inv asked w \<Longrightarrow> asked \<subseteq> asked' \<Longrightarrow> push_inv asked' w"
  by (force simp: push_inv_def responder_asked_def intro: push_ok_mono pushes_ok_mono)

lemma push_inv_step: "ws_step env asked w w' \<Longrightarrow> push_inv asked w \<Longrightarrow> push_inv asked w'"
proof (induction rule: ws_step.induct)
  case (input i w sm acts)
  then have "responder_asked asked sm \<and> list_all (pushes_ok asked) acts"
    using sm_step_push [OF input.hyps] by (simp add: push_inv_def)
  then show ?case using input.prems by (auto simp: push_inv_def list_all_iff)
qed (auto simp: push_inv_def)

lemma ws_step_mono: "ws_step env answering w w' \<Longrightarrow> answering \<subseteq> answering' \<Longrightarrow> ws_step env answering' w w'"
proof (induction rule: ws_step.induct)
  case (input i w sm acts)
  then have "answered_by (snd i) answering'"
    by (cases "(snd i, answering)" rule: answered_by.cases) (auto split: option.splits)
  with input.hyps(1) show ?case by (rule ws_step.input)
qed (auto intro: ws_step.intros)

text \<open>The addresses a run has watched, in its trace.\<close>

definition watched :: "lookup_label list \<Rightarrow> string set" where
  "watched ls = {addr. \<exists>i f rq. InCall i (Watch f addr rq) \<in> set ls}"

lemma watched_simps [simp]: "watched [] = {}" "watched (ls @ ls') = watched ls \<union> watched ls'"
  by (auto simp: watched_def)

lemma watching_set_call: "watching (set_call i p sl) \<subseteq> watching sl \<union> {addr. p = Watching addr}"
  by (cases "i < length (sl_calls sl)")
    (auto simp: watching_def set_call_def list_update_beyond dest!: set_update_subset_insert [THEN subsetD])

lemma watching_handle: "handleAction t sl = (sl', new) \<Longrightarrow> watching sl' = watching sl"
  using handle_frame(7) [of t sl sl' new] by (auto simp: watching_def)

lemma watching_step:
  assumes "lk_step env sl l sl'"
  shows "watching sl' \<subseteq> watching sl \<union> watched [l] \<and> sl_cfg sl' = sl_cfg sl"
  using assms
proof (cases rule: lk_step.cases)
  case (in_loop x)
  from in_loop(2) show ?thesis
  proof (cases rule: loop_step.cases)
    case (act t ts sl1 new)
    then show ?thesis
      using watching_handle [OF act(4)] handle_frame(4) [OF act(4)] by (simp add: watching_def)
  qed (auto simp: watching_def)
next
  case (in_call i c)
  from in_call(2) show ?thesis
  proof (cases rule: call_step.cases)
    case (dial_fails call now sm acts)
    then show ?thesis
      using watching_set_call [of i "CallActing False (map Perform acts)" "sl\<lparr>sl_sm := sm\<rparr>"]
      by (auto simp: watching_def)
  next
    case (watch call addr)
    then have "addr \<in> watched [l]"
      using in_call(1) by (auto simp: watched_def)
    then show ?thesis
      using watch(2) watching_set_call [of i "Watching addr" sl] by auto
  next
    case (answer call addr now w sm acts)
    then show ?thesis
      using watching_set_call [of i "CallActing True (map Perform acts)" "sl\<lparr>sl_sm := sm\<rparr>"]
      by (auto simp: watching_def)
  next
    case (act conn t ts sl1 new)
    then show ?thesis
      using watching_set_call [of i "CallActing conn (new @ ts)" sl1] watching_handle [OF act(5)]
        handle_frame(4) [OF act(5)] by auto
  next
    case (return conn)
    then show ?thesis
      using watching_set_call [of i CallDone sl] by auto
  qed
next
  case (client c)
  from client(2) show ?thesis
    by (cases rule: client_step.cases) (auto simp: watching_def lookup_Start_def lookup_cancel_def)
qed

lemma push_inv_run:
  assumes "lk_run env (NewSliceLookup t n cfg opts rng) ls sl"
  shows "push_inv (watched ls) (spec_of sl) \<and> watching sl \<subseteq> watched ls \<and> sl_cfg sl = cfg"
  using assms
proof (induction rule: run_of.induct)
  case run_nil
  show ?case
    by (simp add: push_inv_def responder_asked_def watching_def pending_def)
next
  case (run_snoc ls sl' l sl'')
  have "ws_step env (watched (ls @ [l])) (spec_of sl') (spec_of sl'')"
    using run_snoc.IH by (intro ws_step_mono [OF lk_refines [OF run_snoc.hyps(2) lookup_inv(1) [OF run_snoc.hyps(1)]]]) auto
  moreover have "push_inv (watched (ls @ [l])) (spec_of sl')"
    using push_inv_mono [of "watched ls"] run_snoc.IH by simp
  ultimately show ?case
    using push_inv_step watching_step [OF run_snoc.hyps(2)] run_snoc.IH by auto
qed

lemma watched_nonempty:
  assumes "lk_run env (NewSliceLookup t n cfg opts rng) ls sl" and "DefaultWatchAddress cfg \<noteq> []"
  shows "[] \<notin> watched ls"
  using assms(1)
proof (induction rule: run_of.induct)
  case (run_snoc ls sl' l sl'')
  have "sl_cfg sl' = cfg" using push_inv_run [OF run_snoc.hyps(1)] by simp
  then have "[] \<notin> watched [l]"
    using run_snoc.hyps(2) assms(2)
    by (auto simp: watched_def request_address_def redirect_IsEmpty_def elim!: lk_step.cases call_step.cases split: option.splits if_splits)
  then show ?case using run_snoc.IH by simp
qed simp

section \<open>What a lookup keeps\<close>

lemma handle_identity:
  "handleAction t sl = (sl', new) \<Longrightarrow> sl_target sl' = sl_target sl \<and> sl_clientName sl' = sl_clientName sl"
  by (cases "(t, sl)" rule: handleAction.cases) auto

lemma lk_step_identity:
  assumes "lk_step env sl l sl'"
  shows "sl_target sl' = sl_target sl \<and> sl_clientName sl' = sl_clientName sl \<and> sl_cfg sl' = sl_cfg sl
    \<and> (sl_ctx sl \<noteq> NotStarted \<longrightarrow> sl_ctx sl' \<noteq> NotStarted) \<and> (sl_ctx sl = Cancelled \<longrightarrow> sl_ctx sl' = Cancelled)"
  using assms
proof (cases rule: lk_step.cases)
  case (in_loop x)
  from in_loop(2) show ?thesis
    by (cases rule: loop_step.cases) (auto simp: handle_frame dest!: handle_identity)
next
  case (in_call i c)
  from in_call(2) show ?thesis
    by (cases rule: call_step.cases) (auto simp: handle_frame dest!: handle_identity)
next
  case (client c)
  from client(2) show ?thesis
    by (cases rule: client_step.cases) (auto simp: lookup_Start_def lookup_cancel_def)
qed

lemma lk_run_identity:
  "lk_run env sl ls sl' \<Longrightarrow> sl_target sl' = sl_target sl \<and> sl_cfg sl' = sl_cfg sl
    \<and> (sl_ctx sl \<noteq> NotStarted \<longrightarrow> sl_ctx sl' \<noteq> NotStarted) \<and> (sl_ctx sl = Cancelled \<longrightarrow> sl_ctx sl' = Cancelled)"
  by (induction rule: run_of.induct) (auto dest: lk_step_identity)

section \<open>Winding down\<close>

fun todo_work :: "todo \<Rightarrow> nat" where
  "todo_work (Perform (ActionUseAssignment a)) = 2"
| "todo_work CloseReady = 1"
| "todo_work (Perform (ActionSendRequest r n s d)) = 4"

fun call_work :: "call_pc \<Rightarrow> nat" where
  "call_work Dialing = 3"
| "call_work (Watching addr) = 2"
| "call_work (CallActing conn ts) = Suc (sum_list (map todo_work ts))"
| "call_work CallDone = 0"

definition work_left :: "slice_lookup \<Rightarrow> nat" where
  "work_left sl = sum_list (map (\<lambda>c. call_work (rc_pc c)) (sl_calls sl))"

lemma work_set_call:
  "i < length (sl_calls sl) \<Longrightarrow>
     work_left (set_call i p sl) + call_work (rc_pc (sl_calls sl ! i)) = work_left sl + call_work p"
  using sum_list_update [of i "sl_calls sl" "\<lambda>c. call_work (rc_pc c)" "(sl_calls sl ! i)\<lparr>rc_pc := p\<rparr>"]
  by (simp add: work_left_def set_call_def)

lemma work_handle:
  "handleAction t sl = (sl', new) \<Longrightarrow> work_left sl' + sum_list (map todo_work new) < work_left sl + todo_work t"
  by (cases "(t, sl)" rule: handleAction.cases) (auto simp: work_left_def)

lemma work_sm [simp]: "work_left (sl\<lparr>sl_sm := sm\<rparr>) = work_left sl"
  by (simp add: work_left_def)

lemma call_step_done:
  assumes "call_step env i sl c sl'" and "isCancelled (sl_sm sl)"
  shows "sl_sm sl' = sl_sm sl \<and> sl_loop sl' = sl_loop sl \<and> work_left sl' < work_left sl"
  using assms(1)
proof (cases rule: call_step.cases)
  case (dial_fails call now sm acts)
  then have "sm = sl_sm sl" "acts = []" using OnEvent_cancelled assms(2) by blast+
  then show ?thesis
    using dial_fails work_set_call [of i "sl\<lparr>sl_sm := sm\<rparr>" "CallActing False []"] by simp
next
  case (watch call addr)
  then show ?thesis using work_set_call [of i sl "Watching addr"] by simp
next
  case (answer call addr now w sm acts)
  then have "sm = sl_sm sl" "acts = []" using OnEvent_cancelled assms(2) by blast+
  then show ?thesis
    using answer work_set_call [of i "sl\<lparr>sl_sm := sm\<rparr>" "CallActing True []"] by simp
next
  case (act conn t ts sl1 new)
  have "i < length (sl_calls sl1)" "sl_calls sl1 ! i = sl_calls sl ! i"
    using handle_frame(7) [OF act(5)] act(3) by (auto simp: nth_append)
  then have "work_left (set_call i (CallActing conn (new @ ts)) sl1) + sum_list (map todo_work (t # ts))
      = work_left sl1 + sum_list (map todo_work (new @ ts))"
    using work_set_call [of i sl1 "CallActing conn (new @ ts)"] act(4) by simp
  then show ?thesis
    using act(2) work_handle [OF act(5)] handle_frame(1,2) [OF act(5)] by simp
next
  case (return conn)
  then show ?thesis using work_set_call [of i sl CallDone] by simp
qed

fun background :: "lookup_label \<Rightarrow> bool" where
  "background (Client c) \<longleftrightarrow> False"
| "background _ \<longleftrightarrow> True"

lemma done_step:
  assumes "lk_step env sl l sl'" and "life_inv sl" and "sl_loop sl = LoopDone"
  shows "sl_sm sl' = sl_sm sl \<and> sl_loop sl' = LoopDone
    \<and> (if background l then work_left sl' < work_left sl else work_left sl' = work_left sl)"
  using assms(1)
proof (cases rule: lk_step.cases)
  case (in_loop x)
  from in_loop(2) show ?thesis using assms(3) by (cases rule: loop_step.cases) auto
next
  case (in_call i c)
  then show ?thesis using call_step_done assms(2,3) by (auto simp: life_inv_def)
next
  case (client c)
  from client(2) have "sl_sm sl' = sl_sm sl \<and> sl_loop sl' = LoopDone \<and> work_left sl' = work_left sl"
    using assms(2,3)
    by (cases rule: client_step.cases) (auto simp: life_inv_def lookup_Start_def lookup_cancel_def work_left_def)
  with client(1) show ?thesis by simp
qed

lemma done_run:
  "lk_run env sl ls sl' \<Longrightarrow> life_inv sl \<Longrightarrow> sl_loop sl = LoopDone \<Longrightarrow>
     sl_sm sl' = sl_sm sl \<and> sl_loop sl' = LoopDone \<and> work_left sl' + length (filter background ls) \<le> work_left sl"
proof (induction rule: run_of.induct)
  case (run_snoc ls sl' l sl'')
  then show ?case
    using done_step [OF run_snoc.hyps(2) life_inv_run [OF run_snoc.hyps(1)]] by (auto split: if_splits)
qed simp

text \<open>A request that has not finished can always take its next step.\<close>

lemma call_enabled:
  assumes i: "i < length (sl_calls sl)" and "rc_pc (sl_calls sl ! i) \<noteq> CallDone"
  shows "\<exists>l sl'. call_step env i sl l sl'"
proof (cases "rc_pc (sl_calls sl ! i)")
  case Dialing
  then show ?thesis using call_step.watch [OF i refl] by blast
next
  case (Watching addr)
  obtain sm acts where "OnEvent env 0 (watch_event addr (rc_OpID (sl_calls sl ! i)) WatchError) (sl_sm sl) = Inr (sm, acts)"
    using OnEvent_safe [of "EventReadFailure (rc_OpID (sl_calls sl ! i))" env 0 "sl_sm sl"] by (auto simp: watch_event_def)
  then show ?thesis using call_step.answer [OF i refl Watching] by blast
next
  case (CallActing conn ts)
  show ?thesis
  proof (cases ts)
    case Nil
    then show ?thesis using CallActing call_step.return [OF i] by blast
  next
    case (Cons t ts')
    obtain sl1 new where "handleAction t sl = (sl1, new)" by fastforce
    then show ?thesis using CallActing Cons call_step.act [OF i] by blast
  qed
qed (use assms(2) in simp)

lemma finishes:
  "life_inv sl \<Longrightarrow> sl_loop sl = LoopDone \<Longrightarrow>
     \<exists>ls sl'. lk_run env sl ls sl' \<and> (\<forall>c \<in> set (sl_calls sl'). rc_pc c = CallDone)"
proof (induction "work_left sl" arbitrary: sl rule: less_induct)
  case less
  show ?case
  proof (cases "\<forall>c \<in> set (sl_calls sl). rc_pc c = CallDone")
    case True
    then show ?thesis using lk_run_nil by blast
  next
    case False
    then obtain i l sl1 where "call_step env i sl l sl1"
      using call_enabled by (metis in_set_conv_nth)
    then have step: "lk_step env sl (InCall i l) sl1" by (rule lk_step.in_call)
    have "life_inv sl1" "sl_loop sl1 = LoopDone" "work_left sl1 < work_left sl"
      using done_step [OF step less.prems] life_inv_step [OF step less.prems(1)] by simp_all
    then obtain ls sl' where "lk_run env sl1 ls sl'" "\<forall>c \<in> set (sl_calls sl'). rc_pc c = CallDone"
      using less.hyps by blast
    then show ?thesis
      using lk_run_trans lk_run_snoc [OF lk_run_nil step] by blast
  qed
qed

text \<open>A cancelled loop can always come to its end, so a \<open>Stop\<close> can always return.\<close>

lemma loop_ends:
  assumes "life_inv sl" and "sl_ctx sl = Cancelled"
  shows "\<exists>ls sl'. lk_run env sl ls sl' \<and> sl_loop sl' = LoopDone"
  using assms
proof (induction "sum_list (map todo_work (loop_todos (sl_loop sl)))" arbitrary: sl rule: less_induct)
  case less
  show ?case
  proof (cases "sl_loop sl")
    case NoLoop
    then show ?thesis using less.prems by (simp add: life_inv_def)
  next
    case Selecting
    have "OnEvent env 0 EventCancel (sl_sm sl) = Inr ((sl_sm sl)\<lparr>isCancelled := True\<rparr>, [])"
      by (simp add: OnEvent_cancel)
    from lk_run_snoc [OF lk_run_nil lk_step.in_loop [OF loop_step.cancel [OF Selecting less.prems(2) this]]]
    show ?thesis by fastforce
  next
    case (LoopActing ts)
    show ?thesis
    proof (cases ts)
      case Nil
      then show ?thesis using less.prems LoopActing by (simp add: life_inv_def)
    next
      case (Cons t ts')
      obtain sl1 new where h: "handleAction t sl = (sl1, new)" by fastforce
      let ?sl2 = "sl1\<lparr>sl_loop := after_actions (new @ ts')\<rparr>"
      have step: "lk_step env sl (InLoop LoopAct) ?sl2"
        using LoopActing Cons h by (intro lk_step.in_loop loop_step.act) simp_all
      have "sum_list (map todo_work new) < todo_work t"
        using h by (cases "(t, sl)" rule: handleAction.cases) auto
      then have "sum_list (map todo_work (loop_todos (sl_loop ?sl2))) < sum_list (map todo_work (loop_todos (sl_loop sl)))"
        using LoopActing Cons by simp
      moreover have "life_inv ?sl2" "sl_ctx ?sl2 = Cancelled"
        using life_inv_step [OF step less.prems(1)] lk_step_identity [OF step] less.prems(2) by simp_all
      ultimately obtain ls sl' where "lk_run env ?sl2 ls sl'" "sl_loop sl' = LoopDone"
        using less.hyps by blast
      then show ?thesis
        using lk_run_trans lk_run_snoc [OF lk_run_nil step] by blast
    qed
  next
    case LoopDone
    then show ?thesis using lk_run_nil by blast
  qed
qed

end
