(* ===== verification/LookupProgress.thy ===== *)
theory LookupProgress
  imports LookupInvariants
begin

text \<open>
  What a slice lookup can always still do: carry out its pending actions, let every goroutine take its next
  step, get a request out to the server, and close every connection it has opened.
\<close>

section \<open>Pending actions can be carried out\<close>

fun acting :: "lookup_label \<Rightarrow> bool" where
  "acting (InLoop LoopAct) \<longleftrightarrow> True"
| "acting (InCall i CallAct) \<longleftrightarrow> True"
| "acting _ \<longleftrightarrow> False"

fun todo_size :: "todo \<Rightarrow> nat" where
  "todo_size (Perform (ActionUseAssignment a)) = 2"
| "todo_size CloseReady = 1"
| "todo_size (Perform (ActionSendRequest r n s d)) = 1"

definition backlog :: "slice_lookup \<Rightarrow> nat" where
  "backlog sl = (\<Sum>t \<in># pending sl. todo_size t)"

lemma handle_size: "handleAction t sl = (sl', new) \<Longrightarrow> sum_list (map todo_size new) < todo_size t"
  by (cases "(t, sl)" rule: handleAction.cases) auto

lemma sum_mset_list [simp]: "(\<Sum>t \<in># mset ts. todo_size t) = sum_list (map todo_size ts)"
  by (metis mset_map sum_mset_sum_list)

lemma sum_list_nonempty: "sum_list (map f xs) \<noteq> {#} \<Longrightarrow> \<exists>x \<in> set xs. f x \<noteq> {#}"
  by (induction xs) auto

lemma backlog_step:
  assumes "pending sl \<noteq> {#}"
  shows "\<exists>l sl'. lk_step env sl l sl' \<and> acting l \<and> backlog sl' < backlog sl"
proof (cases "loop_todos (sl_loop sl)")
  case (Cons t ts)
  obtain sl1 new where h: "handleAction t sl = (sl1, new)" by fastforce
  let ?sl' = "sl1\<lparr>sl_loop := after_actions (new @ ts)\<rparr>"
  have "sl_loop sl = LoopActing (t # ts)"
    using Cons by (cases "sl_loop sl") auto
  then have "lk_step env sl (InLoop LoopAct) ?sl'"
    using h by (intro lk_step.in_loop loop_step.act)
  moreover have "pending ?sl' + mset (t # ts) = pending sl + mset (new @ ts)"
    using pending_loop [where sl = sl1 and p = "after_actions (new @ ts)"] handle_frame(1,6) [OF h] Cons by simp
  then have "backlog ?sl' < backlog sl"
    using handle_size [OF h] arg_cong [of "pending ?sl' + mset (t # ts)" "pending sl + mset (new @ ts)"
      "\<lambda>M. \<Sum>t \<in># M. todo_size t"] by (simp add: backlog_def)
  ultimately show ?thesis using acting.simps(1) by blast
next
  case Nil
  then have "sum_list (map (\<lambda>c. mset (call_todos (rc_pc c))) (sl_calls sl)) \<noteq> {#}"
    using assms by (simp add: pending_def)
  then obtain c where "c \<in> set (sl_calls sl)" "call_todos (rc_pc c) \<noteq> []"
    using sum_list_nonempty by fastforce
  then obtain i t ts where i: "i < length (sl_calls sl)" "call_todos (rc_pc (sl_calls sl ! i)) = t # ts"
    by (metis in_set_conv_nth list.exhaust)
  then obtain conn where pc: "rc_pc (sl_calls sl ! i) = CallActing conn (t # ts)"
    by (cases "rc_pc (sl_calls sl ! i)") auto
  obtain sl1 new where h: "handleAction t sl = (sl1, new)" by fastforce
  let ?sl' = "set_call i (CallActing conn (new @ ts)) sl1"
  have frame: "i < length (sl_calls sl1)" "sl_calls sl1 ! i = sl_calls sl ! i" "pending sl1 = pending sl"
    using handle_frame [OF h] i(1) by (auto simp: nth_append)
  have "lk_step env sl (InCall i CallAct) ?sl'"
    using call_step.act [OF i(1) pc h] by (rule lk_step.in_call)
  moreover have "pending ?sl' + mset (t # ts) = pending sl + mset (new @ ts)"
    using pending_set_call [OF frame(1), of "CallActing conn (new @ ts)"] frame(2,3) i(2) by simp
  then have "backlog ?sl' < backlog sl"
    using handle_size [OF h] arg_cong [of "pending ?sl' + mset (t # ts)" "pending sl + mset (new @ ts)"
      "\<lambda>M. \<Sum>t \<in># M. todo_size t"] by (simp add: backlog_def)
  ultimately show ?thesis using acting.simps(2) by blast
qed

lemma pending_drains: "\<exists>ls sl'. lk_run env sl ls sl' \<and> list_all acting ls \<and> pending sl' = {#}"
proof (induction "backlog sl" arbitrary: sl rule: less_induct)
  case less
  show ?case
  proof (cases "pending sl = {#}")
    case True
    then show ?thesis using lk_run_nil list.pred_inject(1) by blast
  next
    case False
    then obtain l sl1 where step: "lk_step env sl l sl1" "acting l" "backlog sl1 < backlog sl"
      using backlog_step by blast
    then obtain ls sl' where "lk_run env sl1 ls sl'" "list_all acting ls" "pending sl' = {#}"
      using less.hyps by blast
    with step show ?thesis
      by (intro exI [of _ "l # ls"] exI [of _ sl']) (simp add: lk_run_step)
  qed
qed

text \<open>Carrying out an action touches neither the state machine nor the requests already on their way.\<close>

definition is_request :: "todo \<Rightarrow> bool" where
  "is_request t \<longleftrightarrow> (\<exists>r n s d. t = Perform (ActionSendRequest r n s d))"

definition requests_due :: "slice_lookup \<Rightarrow> nat" where
  "requests_due sl = size (filter_mset is_request (pending sl))"

definition keeps_dialing :: "slice_lookup \<Rightarrow> slice_lookup \<Rightarrow> bool" where
  "keeps_dialing sl sl' \<longleftrightarrow> length (sl_calls sl) \<le> length (sl_calls sl')
     \<and> (\<forall>j < length (sl_calls sl'). j < length (sl_calls sl) \<longrightarrow> rc_pc (sl_calls sl ! j) = Dialing \<longrightarrow>
          rc_pc (sl_calls sl' ! j) = Dialing)
     \<and> (\<forall>j < length (sl_calls sl'). length (sl_calls sl) \<le> j \<longrightarrow> rc_pc (sl_calls sl' ! j) = Dialing)"

lemma keeps_dialing_refl [simp]: "keeps_dialing sl sl"
  by (simp add: keeps_dialing_def)

lemma keeps_dialing_trans: "keeps_dialing sl sl1 \<Longrightarrow> keeps_dialing sl1 sl2 \<Longrightarrow> keeps_dialing sl sl2"
  unfolding keeps_dialing_def by (meson le_trans not_less less_le_trans)

lemma handle_requests:
  assumes "handleAction t sl = (sl', new)"
  shows "length (sl_calls sl') + size (filter_mset is_request (mset new))
      = length (sl_calls sl) + (if is_request t then 1 else 0)"
    and "keeps_dialing sl sl'"
  using assms
  by (cases "(t, sl)" rule: handleAction.cases; auto simp: is_request_def keeps_dialing_def nth_append)+

definition acted :: "slice_lookup \<Rightarrow> slice_lookup \<Rightarrow> bool" where
  "acted sl sl' \<longleftrightarrow> sl_sm sl' = sl_sm sl \<and> sl_ctx sl' = sl_ctx sl \<and> keeps_dialing sl sl'
     \<and> length (sl_calls sl') + requests_due sl' = length (sl_calls sl) + requests_due sl"

lemma acted_step:
  assumes "lk_step env sl l sl'" and "acting l"
  shows "acted sl sl'"
proof -
  have due: "length (sl_calls sl') + requests_due sl' = length (sl_calls sl) + requests_due sl"
    if h: "handleAction t sl = (sl1, new)" and "length (sl_calls sl') = length (sl_calls sl1)"
      and todo: "pending sl' + mset (t # ts) = pending sl + mset (new @ ts)" for t sl1 new ts
    using handle_requests(1) [OF h] that(2) arg_cong [OF todo, of "\<lambda>M. size (filter_mset is_request M)"]
    by (simp add: requests_due_def split: if_splits)
  from assms(2) show ?thesis
  proof (cases l rule: acting.cases)
    case 1
    with assms(1) have "loop_step env sl LoopAct sl'" by (simp add: lk_step_simps)
    then show ?thesis
    proof (cases rule: loop_step.cases)
      case (act t ts sl1 new)
      have "pending sl' + mset (t # ts) = pending sl + mset (new @ ts)"
        using pending_loop [where sl = sl1 and p = "after_actions (new @ ts)"] handle_frame(1,6) [OF act(3)] act(1,2)
        by simp
      then show ?thesis
        using due [OF act(3)] handle_frame [OF act(3)] handle_requests(2) [OF act(3)] act(1)
        by (simp add: acted_def keeps_dialing_def)
    qed
  next
    case (2 i)
    with assms(1) have "call_step env i sl CallAct sl'" by (simp add: lk_step_simps)
    then show ?thesis
    proof (cases rule: call_step.cases)
      case (act conn t ts sl1 new)
      have frame: "i < length (sl_calls sl1)" "sl_calls sl1 ! i = sl_calls sl ! i" "pending sl1 = pending sl"
        using handle_frame [OF act(4)] act(2) by (auto simp: nth_append)
      then have "pending sl' + mset (t # ts) = pending sl + mset (new @ ts)"
        using pending_set_call [OF frame(1), of "CallActing conn (new @ ts)"] act(1,3) by simp
      moreover have "keeps_dialing sl sl'"
        using handle_requests(2) [OF act(4)] act(1-3) frame
        by (auto simp: keeps_dialing_def set_call_def nth_list_update)
      ultimately show ?thesis
        using due [OF act(4)] handle_frame [OF act(4)] act(1) by (simp add: acted_def)
    qed
  qed simp_all
qed

lemma acted_run: "lk_run env sl ls sl' \<Longrightarrow> list_all acting ls \<Longrightarrow> acted sl sl'"
proof (induction rule: run_of.induct)
  case (run_snoc ls sl' l sl'')
  then have "acted sl sl'" "acted sl' sl''"
    using acted_step by simp_all
  then show ?case
    using keeps_dialing_trans by (auto simp: acted_def)
qed (simp add: acted_def)

section \<open>A request can always be sent\<close>

fun label_times :: "lookup_label \<Rightarrow> go_time list" where
  "label_times (InLoop (Tick now)) = [now]"
| "label_times (InLoop (CancelSeen now)) = [now]"
| "label_times (InCall i (DialFails fn addr now)) = [now]"
| "label_times (InCall i (Answer now w)) = [now]"
| "label_times _ = []"

definition times :: "lookup_label list \<Rightarrow> go_time list" where
  "times ls = concat (map label_times ls)"

text \<open>
  A cooperative environment dials successfully and answers every request with one response; no client does
  anything.
\<close>

fun cooperative :: "client_response_p \<Rightarrow> lookup_label \<Rightarrow> bool" where
  "cooperative resp (InLoop (CancelSeen now)) \<longleftrightarrow> False"
| "cooperative resp (InCall i (DialFails fn addr now)) \<longleftrightarrow> False"
| "cooperative resp (InCall i (Answer now w)) \<longleftrightarrow> w = WatchResponse (Some resp)"
| "cooperative resp (Client c) \<longleftrightarrow> False"
| "cooperative resp _ \<longleftrightarrow> True"

lemma times_simps [simp]: "times [] = []" "times (l # ls) = label_times l @ times ls" "times (ls @ ms) = times ls @ times ms"
  by (simp_all add: times_def)

lemma acting_quiet: "acting l \<Longrightarrow> label_times l = [] \<and> cooperative resp l"
  by (cases l rule: acting.cases) auto

lemma acting_quiet_run: "list_all acting ls \<Longrightarrow> times ls = [] \<and> list_all (cooperative resp) ls"
  by (induction ls) (auto simp: acting_quiet)

lemma drains:
  "\<exists>ls sl'. lk_run env sl ls sl' \<and> list_all (cooperative resp) ls \<and> times ls = [] \<and> pending sl' = {#} \<and> acted sl sl'"
proof -
  obtain ls sl' where "lk_run env sl ls sl'" "list_all acting ls" "pending sl' = {#}"
    using pending_drains by blast
  then show ?thesis using acted_run acting_quiet_run by blast
qed

lemma idle_loop_selects: "life_inv sl \<Longrightarrow> pending sl = {#} \<Longrightarrow> sl_ctx sl = Running \<Longrightarrow> sl_loop sl = Selecting"
  by (cases "sl_loop sl") (auto simp: life_inv_def pending_def)

lemma requests_due_acts: "size (filter_mset is_request (mset (map Perform acts))) = length (sends acts)"
  by (induction acts rule: sends.induct) (auto simp: is_request_def)

lemma tick_and_act:
  assumes "life_inv sl" and "pending sl = {#}" and "sl_ctx sl = Running"
    and "OnAdvance env now (sl_sm sl) = (sm, acts)"
  shows "\<exists>ls sl'. lk_run env sl ls sl' \<and> list_all (cooperative resp) ls \<and> times ls = [now]
    \<and> pending sl' = {#} \<and> sl_ctx sl' = Running \<and> sl_sm sl' = sm \<and> life_inv sl' \<and> keeps_dialing sl sl'
    \<and> length (sl_calls sl') = length (sl_calls sl) + length (sends acts)"
proof -
  let ?sl1 = "sl\<lparr>sl_sm := sm, sl_loop := after_actions (map Perform acts)\<rparr>"
  have sel: "sl_loop sl = Selecting"
    using idle_loop_selects assms(1-3) .
  have step: "lk_step env sl (InLoop (Tick now)) ?sl1"
    using lk_step.in_loop [OF loop_step.tick [OF sel assms(4)]] .
  obtain ls sl' where drained: "lk_run env ?sl1 ls sl'" "list_all (cooperative resp) ls" "times ls = []"
      "pending sl' = {#}" "acted ?sl1 sl'"
    using drains by blast
  have "pending ?sl1 = mset (map Perform acts)"
    using assms(2) sel by (simp add: pending_def)
  then have due: "requests_due ?sl1 = length (sends acts)" "requests_due sl' = 0"
    using drained(4) requests_due_acts [of acts] by (simp_all add: requests_due_def)
  have "life_inv sl'"
    using life_inv_run [OF drained(1) life_inv_step [OF step assms(1)]] .
  moreover have "lk_run env sl (InLoop (Tick now) # ls) sl'"
    using lk_run_step [OF step drained(1)] .
  ultimately show ?thesis
    using drained due assms(3)
    by (intro exI [of _ "InLoop (Tick now) # ls"] exI [of _ sl']) (auto simp: acted_def keeps_dialing_def)
qed

text \<open>The backoff invariant of the state machine holds in every reachable state of its lookup.\<close>

lemma ws_sm_step:
  "ws_step env answering w w' \<Longrightarrow> ws_sm w' = ws_sm w \<or> (\<exists>i acts. sm_step env i (ws_sm w) = Inr (ws_sm w', acts))"
  by (induction rule: ws_step.induct) auto

lemma backoff_lookup:
  assumes "lk_run env (NewSliceLookup t n cfg opts rng) ls sl" and "config_ok cfg" and "draws_ok rng"
  shows "backoff_inv (sl_sm sl)"
  using assms(1)
proof (induction rule: run_of.induct)
  case run_nil
  show ?case using backoff_inv_new [OF assms(2,3)] by simp
next
  case (run_snoc ls sl' l sl'')
  have "sl_sm sl'' = sl_sm sl' \<or> (\<exists>i acts. sm_step env i (sl_sm sl') = Inr (sl_sm sl'', acts))"
    using ws_sm_step [OF lk_refines [OF run_snoc.hyps(2) lookup_inv(1) [OF run_snoc.hyps(1)]]] by simp
  then show ?case using backoff_inv_step run_snoc.IH by auto
qed

text \<open>Two ticks, the second late enough, put a request on its way; nothing else is left to do then.\<close>

lemma request_goes_out:
  assumes "life_inv sl" and "backoff_inv (sl_sm sl)" and "sl_ctx sl = Running"
  shows "\<exists>ls sl' i now1 now2. lk_run env sl ls sl' \<and> list_all (cooperative resp) ls \<and> times ls = [now1, now2]
    \<and> t \<le> now1 \<and> now1 \<le> now2 \<and> pending sl' = {#} \<and> life_inv sl' \<and> sl_ctx sl' = Running
    \<and> i < length (sl_calls sl') \<and> rc_pc (sl_calls sl' ! i) = Dialing"
proof -
  obtain ls0 sl0 where s0: "lk_run env sl ls0 sl0" "list_all (cooperative resp) ls0" "times ls0 = []" "pending sl0 = {#}"
      "acted sl sl0"
    using drains by blast
  then have sl0: "life_inv sl0" "sl_ctx sl0 = Running" "sl_sm sl0 = sl_sm sl"
    using life_inv_run [OF s0(1) assms(1)] assms(3) by (simp_all add: acted_def)
  define now1 where "now1 = max t (case latestReadState (sl_sm sl) of Some rs \<Rightarrow> rs_deadline rs | None \<Rightarrow> t)"
  define now2 where "now2 = max (scheduledReadTime (sl_sm sl)) (now1 + 3 * sint (MaxRetryDelay (sm_config (sl_sm sl))) div 2)"
  obtain sm1 acts1 where adv1: "OnAdvance env now1 (sl_sm sl) = (sm1, acts1)" by fastforce
  obtain sm2 acts2 where adv2: "OnAdvance env now2 sm1 = (sm2, acts2)" by fastforce
  obtain ls1 sl1 where s1: "lk_run env sl0 ls1 sl1" "list_all (cooperative resp) ls1" "times ls1 = [now1]"
      "pending sl1 = {#}" "sl_ctx sl1 = Running" "sl_sm sl1 = sm1" "life_inv sl1" "keeps_dialing sl0 sl1"
      "length (sl_calls sl1) = length (sl_calls sl0) + length (sends acts1)"
    using tick_and_act [OF sl0(1) s0(4) sl0(2)] adv1 sl0(3) by metis
  obtain ls2 sl2 where s2: "lk_run env sl1 ls2 sl2" "list_all (cooperative resp) ls2" "times ls2 = [now2]"
      "pending sl2 = {#}" "sl_ctx sl2 = Running" "sl_sm sl2 = sm2" "life_inv sl2" "keeps_dialing sl1 sl2"
      "length (sl_calls sl2) = length (sl_calls sl1) + length (sends acts2)"
    using tick_and_act [OF s1(7,4,5)] adv2 s1(6) by metis
  have "\<not> isCancelled (sl_sm sl)"
    using assms(1,3) by (simp add: life_inv_def) (metis lookup_context.distinct(5))
  then have "sends (acts1 @ acts2) \<noteq> []"
    using retry_progress [OF assms(2) _ _ adv1 adv2] by (auto simp: now1_def now2_def split: option.splits)
  then have "length (sl_calls sl0) < length (sl_calls sl2)"
    using s1(9) s2(9) by simp
  moreover have "rc_pc (sl_calls sl2 ! length (sl_calls sl0)) = Dialing" if "length (sl_calls sl0) < length (sl_calls sl2)"
    using keeps_dialing_trans [OF s1(8) s2(8)] that by (simp add: keeps_dialing_def)
  moreover have "0 \<le> sint (MaxRetryDelay (sm_config (sl_sm sl)))"
    using assms(2) by (simp add: backoff_inv_def config_ok_def)
  then have "t \<le> now1" "now1 \<le> now2"
    by (simp_all add: now1_def now2_def le_max_iff_disj)
  ultimately show ?thesis
    using lk_run_trans [OF s2(1) lk_run_trans [OF s1(1) s0(1)]] s0(2,3) s1(2,3) s2(2-5,7)
    by (intro exI [of _ "(ls0 @ ls1) @ ls2"] exI [of _ sl2] exI [of _ "length (sl_calls sl0)"] exI [of _ now1]
        exI [of _ now2]) simp
qed

section \<open>Connections\<close>

text \<open>
  A request holds its connection from the successful dial until its goroutine returns, which then runs the
  cleanup.
\<close>

fun holds_connection :: "call_pc \<Rightarrow> bool" where
  "holds_connection (Watching addr) \<longleftrightarrow> True"
| "holds_connection (CallActing conn ts) \<longleftrightarrow> conn"
| "holds_connection _ \<longleftrightarrow> False"

definition connected :: "nat \<Rightarrow> slice_lookup \<Rightarrow> bool" where
  "connected i sl \<longleftrightarrow> i < length (sl_calls sl) \<and> holds_connection (rc_pc (sl_calls sl ! i))"

fun opens :: "nat \<Rightarrow> lookup_label \<Rightarrow> bool" where
  "opens i (InCall j (Watch fn addr req)) \<longleftrightarrow> i = j"
| "opens i _ \<longleftrightarrow> False"

fun cleans_up :: "nat \<Rightarrow> lookup_label \<Rightarrow> bool" where
  "cleans_up i (InCall j (CallReturn conn)) \<longleftrightarrow> i = j \<and> conn"
| "cleans_up i _ \<longleftrightarrow> False"

lemma connected_set_call [simp]:
  "i < length (sl_calls sl) \<Longrightarrow>
     connected j (set_call i p sl) \<longleftrightarrow> (if j = i then holds_connection p else connected j sl)"
  by (auto simp: connected_def set_call_def nth_list_update)

lemma connected_sm [simp]: "connected j (sl\<lparr>sl_sm := sm\<rparr>) \<longleftrightarrow> connected j sl"
  by (simp add: connected_def)

lemma connected_pc: "i < length (sl_calls sl) \<Longrightarrow> connected i sl \<longleftrightarrow> holds_connection (rc_pc (sl_calls sl ! i))"
  by (simp add: connected_def)

lemma connected_cong: "sl_calls sl' = sl_calls sl \<Longrightarrow> connected j sl' \<longleftrightarrow> connected j sl"
  by (simp add: connected_def)

lemma connected_handle:
  assumes "handleAction t sl = (sl', new)"
  shows "connected j sl' \<longleftrightarrow> connected j sl"
  using assms by (cases "(t, sl)" rule: handleAction.cases) (auto simp: connected_def nth_append less_Suc_eq)

lemma connection_step:
  assumes "lk_step env sl l sl'"
  shows "of_bool (connected j sl') + of_bool (cleans_up j l) = (of_bool (connected j sl) + of_bool (opens j l) :: nat)"
  using assms
proof (cases rule: lk_step.cases)
  case (in_loop x)
  from in_loop(2) have "connected j sl' \<longleftrightarrow> connected j sl"
    by (cases rule: loop_step.cases) (auto simp: connected_def dest: connected_handle [of _ _ _ _ j])
  then show ?thesis using in_loop(1) by simp
next
  case (in_call i c)
  from in_call(2) show ?thesis
  proof (cases rule: call_step.cases)
    case (act conn t ts sl1 new)
    have "i < length (sl_calls sl1)"
      using handle_frame(7) [OF act(5)] act(3) by auto
    moreover have "connected i sl \<longleftrightarrow> conn"
      using act(3,4) by (simp add: connected_def)
    ultimately show ?thesis
      using act(1,2) in_call(1) connected_handle [OF act(5), of j] by simp
  qed (use in_call(1) connected_pc [of i sl] in simp_all)
next
  case (client c)
  from client(2) have "sl_calls sl' = sl_calls sl"
    by (cases rule: client_step.cases) (auto simp: lookup_Start_def lookup_cancel_def)
  then show ?thesis using client(1) connected_cong [of sl' sl j] by simp
qed

lemma connections_run:
  "lk_run env sl ls sl' \<Longrightarrow>
     length (filter (opens j) ls) + of_bool (connected j sl) = length (filter (cleans_up j) ls) + of_bool (connected j sl')"
proof (induction rule: run_of.induct)
  case (run_snoc ls sl' l sl'')
  then show ?case
    using connection_step [OF run_snoc.hyps(2), of j] by (auto simp: of_bool_def split: if_splits)
qed simp

lemma connections_closed:
  assumes "lk_run env (NewSliceLookup t n cfg opts rng) ls sl" and "\<forall>c \<in> set (sl_calls sl). rc_pc c = CallDone"
  shows "length (filter (opens j) ls) = length (filter (cleans_up j) ls)"
proof -
  have "\<not> connected j (NewSliceLookup t n cfg opts rng)" "\<not> connected j sl"
    using assms(2) by (auto simp: connected_def)
  then show ?thesis using connections_run [OF assms(1), of j] by simp
qed

end
