(* ===== verification/LookupProperties.thy ===== *)
theory LookupProperties
  imports LookupProgress
begin

text \<open>
  The properties of the slice lookup, over every interleaving of its loop, its requests and its clients,
  and a sample run that receives one assignment.
\<close>

section \<open>A sample run\<close>

definition sample_lookup :: slice_lookup where
  "sample_lookup = NewSliceLookup ''target'' ''client'' DefaultStateMachineConfig [] (\<lambda>_. 0)"

abbreviation default_address :: string where
  "default_address \<equiv> ''localhost:50051''"

lemma sample_answer:
  "\<exists>sm s d. OnEvent sample_runtime 5 (EventReadSuccess (Some addr) 1 (Some sample_response)) (fst first_request)
     = Inr (sm, [ActionUseAssignment eventual_wire_assignment, ActionSendRequest EmptyRedirect 2 s d])"
proof -
  have "\<exists>sm2. onReadSuccess sample_runtime 5 (Some addr) 1 (Some sample_response) (fst first_request)
        = Inr (sm2, [ActionUseAssignment eventual_wire_assignment])
      \<and> lastOpID sm2 = 1 \<and> latestReadState sm2 = None \<and> scheduledReadTime sm2 = 5 \<and> sm_redirect sm2 = EmptyRedirect"
    by (simp add: sample_first_request onReadSuccess_def sample_response_def incorporateSyncState_def
        GetKnownAssignment_def wire_message_decodes response_generation_def wire_message_generation)
  then obtain sm2 where sm2: "onReadSuccess sample_runtime 5 (Some addr) 1 (Some sample_response) (fst first_request)
        = Inr (sm2, [ActionUseAssignment eventual_wire_assignment])"
      "lastOpID sm2 = 1" "latestReadState sm2 = None" "scheduledReadTime sm2 = 5" "sm_redirect sm2 = EmptyRedirect"
    by blast
  have "onAdvanceInternal sample_runtime 5 sm2 = send_request sample_runtime 5 sm2"
    using sm2 by (simp add: onAdvanceInternal_eq check_deadline_def)
  moreover have "\<not> isCancelled (fst first_request)" by (simp add: sample_first_request)
  ultimately show ?thesis
    using sm2 by (simp add: OnEvent_def send_request_def Let_def)
qed

abbreviation sample_call :: "call_pc \<Rightarrow> rpc_call" where
  "sample_call p \<equiv> \<lparr>rc_Redirect = EmptyRedirect, rc_OpID = 1,
     rc_SyncState = next_sync_state sample_runtime sample_machine, rc_Timeout = 30000000000, rc_pc = p\<rparr>"

abbreviation sample_state ::
  "lookup_context \<Rightarrow> loop_pc \<Rightarrow> state_machine \<Rightarrow> cell \<Rightarrow> bool \<Rightarrow> rpc_call list \<Rightarrow> slice_lookup" where
  "sample_state ctx loop sm c ready calls \<equiv>
     \<lparr>sl_target = ''target'', sl_clientName = ''client'', sl_cfg = DefaultStateMachineConfig, sl_cell = c,
      sl_counter = 0, sl_sm = sm, sl_grpcClientFn = InsecureFactory, sl_ready = ready, sl_ctx = ctx,
      sl_loop = loop, sl_calls = calls\<rparr>"

lemma sample_lookup_eq:
  "sample_lookup = sample_state NotStarted NoLoop sample_machine (NewAtomicAssignmentCell None) False []"
  by (simp add: sample_lookup_def NewSliceLookup_def NewResourceRouter_def sample_machine_def)

text \<open>After the first request has been sent.\<close>

abbreviation sample_waiting :: "call_pc \<Rightarrow> slice_lookup" where
  "sample_waiting p \<equiv>
     sample_state Running Selecting (fst first_request) (NewAtomicAssignmentCell None) False [sample_call p]"

abbreviation sample_started :: slice_lookup where
  "sample_started \<equiv> sample_state Running Selecting sample_machine (NewAtomicAssignmentCell None) False []"

lemma sample_starts: "lookup_Start sample_lookup = sample_started"
  by (simp add: lookup_Start_def sample_lookup_eq)

lemma sample_ticks:
  "lk_run sample_runtime sample_started [InLoop (Tick 0), InLoop LoopAct] (sample_waiting Dialing)"
proof -
  let ?t = "Perform (ActionSendRequest EmptyRedirect 1 (next_sync_state sample_runtime sample_machine) 30000000000)"
  let ?s1 = "sample_state Running Selecting sample_machine (NewAtomicAssignmentCell None) False []"
  let ?s2 = "sample_state Running (LoopActing [?t]) (fst first_request) (NewAtomicAssignmentCell None) False []"
  let ?s3 = "sample_state Running (LoopActing [?t]) (fst first_request) (NewAtomicAssignmentCell None) False
    [sample_call Dialing]"
  have b: "loop_step sample_runtime ?s1 (Tick 0) ?s2"
    using loop_step.tick [of ?s1 sample_runtime 0 "fst first_request" "snd first_request"]
    by (simp add: sample_first_request after_actions_def)
  have c: "loop_step sample_runtime ?s2 LoopAct (sample_waiting Dialing)"
    using loop_step.act [of ?s2 ?t "[]" ?s3 "[]" sample_runtime] by (simp add: after_actions_def)
  show ?thesis
    by (rule lk_run_step [OF lk_step.in_loop [OF b] lk_run_step [OF lk_step.in_loop [OF c] lk_run_nil]])
qed

lemma sample_start_step: "lk_step sample_runtime sample_lookup (Client Start) sample_started"
  using lk_step.client [OF client_step.start] unfolding sample_starts [symmetric] .

lemmas sample_sends = lk_run_step [OF sample_start_step sample_ticks]

lemma sample_watches:
  "\<exists>l. lk_step sample_runtime (sample_waiting Dialing) (InCall 0 l) (sample_waiting (Watching default_address))"
proof -
  have "default_address = request_address DefaultStateMachineConfig EmptyRedirect"
    by (simp add: request_address_def redirect_IsEmpty_def EmptyRedirect_def DefaultStateMachineConfig_def)
  then show ?thesis
    using lk_step.in_call [OF call_step.watch [of 0 "sample_waiting Dialing" "sample_call Dialing" default_address
      sample_runtime]] by (auto simp: set_call_def)
qed

lemma sample_receives_started:
  "\<exists>ls sl. lk_run sample_runtime sample_started ls sl \<and> sl_ready sl \<and> waiting_uses (pending sl) = {}
     \<and> cell_Get (sl_cell sl) = Some eventual_wire_assignment \<and> sl_ctx sl = Running"
proof -
  obtain sm s d where sm: "OnEvent sample_runtime 5 (EventReadSuccess (Some default_address) 1 (Some sample_response))
      (fst first_request)
     = Inr (sm, [ActionUseAssignment eventual_wire_assignment, ActionSendRequest EmptyRedirect 2 s d])"
    using sample_answer by blast
  let ?send = "Perform (ActionSendRequest EmptyRedirect 2 s d)" and ?empty = "NewAtomicAssignmentCell None"
  let ?full = "cell_put ?empty eventual_wire_assignment"
  let ?use = "Perform (ActionUseAssignment eventual_wire_assignment)"
  let ?st = "\<lambda>c r ts. sample_state Running Selecting sm c r [sample_call (CallActing True ts)]"
  let ?w = "sample_waiting (Watching default_address)"
  obtain l where watch: "lk_step sample_runtime (sample_waiting Dialing) (InCall 0 l) ?w"
    using sample_watches by blast
  have a: "call_step sample_runtime 0 ?w (Answer 5 (WatchResponse (Some sample_response))) (?st ?empty False [?use, ?send])"
    using call_step.answer [of 0 ?w "sample_call (Watching default_address)" default_address sample_runtime 5
        "WatchResponse (Some sample_response)" sm] sm
    by (simp add: watch_event_def set_call_def)
  have b: "call_step sample_runtime 0 (?st ?empty False [?use, ?send]) CallAct (?st ?full False [CloseReady, ?send])"
    using call_step.act [of 0 "?st ?empty False [?use, ?send]" True ?use "[?send]"
        "?st ?full False [?use, ?send]" "[CloseReady]" sample_runtime] by (simp add: set_call_def)
  have c: "call_step sample_runtime 0 (?st ?full False [CloseReady, ?send]) CallAct (?st ?full True [?send])"
    using call_step.act [of 0 "?st ?full False [CloseReady, ?send]" True CloseReady "[?send]"
        "?st ?full True [CloseReady, ?send]" "[]" sample_runtime] by (simp add: set_call_def)
  have "lk_run sample_runtime (sample_waiting Dialing)
      [InCall 0 l, InCall 0 (Answer 5 (WatchResponse (Some sample_response))), InCall 0 CallAct, InCall 0 CallAct]
      (?st ?full True [?send])"
    by (rule lk_run_step [OF watch lk_run_step [OF lk_step.in_call [OF a] lk_run_step [OF lk_step.in_call [OF b]
      lk_run_step [OF lk_step.in_call [OF c] lk_run_nil]]]])
  then have "\<exists>ls. lk_run sample_runtime sample_started ls (?st ?full True [?send])"
    using lk_run_trans [OF _ sample_ticks] by blast
  moreover have "cell_Get ?full = Some eventual_wire_assignment"
    using assignment_cell.get_put [of ?empty eventual_wire_assignment]
    by (simp add: cell_Get_def NewAtomicAssignmentCell_def)
  moreover have "waiting_uses (pending (?st ?full True [?send])) = {}" by (simp add: pending_def)
  ultimately show ?thesis by fastforce
qed

lemma sample_receives:
  "\<exists>ls sl. lk_run sample_runtime sample_lookup ls sl \<and> sl_ready sl \<and> waiting_uses (pending sl) = {}
     \<and> cell_Get (sl_cell sl) = Some eventual_wire_assignment \<and> sl_ctx sl = Running"
  using sample_receives_started lk_run_step [OF sample_start_step] by blast

section \<open>A sample run that pushes\<close>

text \<open>
  A server that redirects to the default address and then reports no assignment of its own is sent the
  assignment there: the redirect matters, not the address.
\<close>

lemma call_acts:
  "i < length (sl_calls sl) \<Longrightarrow> rc_pc (sl_calls sl ! i) = CallActing conn (ts @ [Perform (ActionSendRequest r n s d)]) \<Longrightarrow>
    \<forall>t \<in> set ts. \<not> is_request t \<Longrightarrow>
    \<exists>ls sl' pre. lk_run env sl ls sl' \<and> sl_sm sl' = sl_sm sl \<and> sl_cfg sl' = sl_cfg sl
      \<and> sl_calls sl' = pre @ [\<lparr>rc_Redirect = r, rc_OpID = n, rc_SyncState = s, rc_Timeout = d, rc_pc = Dialing\<rparr>]"
proof (induction "sum_list (map todo_size ts)" arbitrary: sl ts rule: less_induct)
  case less
  let ?send = "Perform (ActionSendRequest r n s d)"
  obtain t us where ts: "ts @ [?send] = t # us" by (cases ts) auto
  obtain sl1 new where h: "handleAction t sl = (sl1, new)" by fastforce
  let ?sl1 = "set_call i (CallActing conn (new @ us)) sl1"
  have step: "lk_step env sl (InCall i CallAct) ?sl1"
    using lk_step.in_call [OF call_step.act [OF less.prems(1) _ h]] less.prems(2) ts by simp
  show ?case
  proof (cases ts)
    case Nil
    then show ?thesis
      using lk_run_step [OF step lk_run_nil] h ts less.prems(1)
      by (intro exI [of _ "[InCall i CallAct]"] exI [of _ ?sl1]) (auto simp: set_call_def list_update_append)
  next
    case (Cons t' ts')
    then have t': "t' = t" "us = ts' @ [?send]" and "\<not> is_request t"
      using ts less.prems(3) by auto
    then have frame: "sl_calls sl1 = sl_calls sl" "sl_sm sl1 = sl_sm sl" "sl_cfg sl1 = sl_cfg sl" "\<forall>t \<in> set new. \<not> is_request t"
      using h by (cases "(t, sl)" rule: handleAction.cases; auto simp: is_request_def)+
    have "sum_list (map todo_size (new @ ts')) < sum_list (map todo_size ts)"
      using handle_size [OF h] Cons t'(1) by simp
    moreover have "i < length (sl_calls ?sl1)" "rc_pc (sl_calls ?sl1 ! i) = CallActing conn ((new @ ts') @ [?send])"
        "\<forall>t \<in> set (new @ ts'). \<not> is_request t"
      using less.prems(1,3) frame t' Cons by (auto simp: set_call_def)
    ultimately obtain ls sl' pre where "lk_run env ?sl1 ls sl'" "sl_sm sl' = sl_sm sl"
        "sl_cfg sl' = sl_cfg sl"
        "sl_calls sl' = pre @ [\<lparr>rc_Redirect = r, rc_OpID = n, rc_SyncState = s, rc_Timeout = d, rc_pc = Dialing\<rparr>]"
      using less.hyps [of "new @ ts'" ?sl1] frame(2,3) by (auto simp: set_call_def)
    then show ?thesis using lk_run_step [OF step] by blast
  qed
qed

lemma answered_request:
  assumes "sl_calls sl = pre @ [c]" and "rc_pc c = Dialing"
    and "OnEvent env now (EventReadSuccess (Some (request_address (sl_cfg sl) (rc_Redirect c))) (rc_OpID c) (Some resp)) (sl_sm sl)
      = Inr (sm, acts @ [ActionSendRequest r n s d])"
    and "sends acts = []"
  shows "\<exists>ls sl' pre. lk_run env sl ls sl' \<and> sl_sm sl' = sm \<and> sl_cfg sl' = sl_cfg sl
    \<and> sl_calls sl' = pre @ [\<lparr>rc_Redirect = r, rc_OpID = n, rc_SyncState = s, rc_Timeout = d, rc_pc = Dialing\<rparr>]"
proof -
  let ?i = "length pre" and ?addr = "request_address (sl_cfg sl) (rc_Redirect c)"
  let ?sl1 = "set_call ?i (Watching ?addr) sl"
  let ?todo = "map Perform acts @ [Perform (ActionSendRequest r n s d)]"
  let ?sl2 = "set_call ?i (CallActing True ?todo) (?sl1\<lparr>sl_sm := sm\<rparr>)"
  have a: "call_step env ?i sl (Watch (sl_grpcClientFn sl) ?addr (build_request sl c)) ?sl1"
    using assms(1,2) by (intro call_step.watch) simp_all
  have b: "call_step env ?i ?sl1 (Answer now (WatchResponse (Some resp))) ?sl2"
  proof -
    have calls: "sl_calls ?sl1 ! ?i = c\<lparr>rc_pc := Watching ?addr\<rparr>" "?i < length (sl_calls ?sl1)" "sl_sm ?sl1 = sl_sm sl"
      using assms(1) by (simp_all add: set_call_def)
    have "OnEvent env now (watch_event ?addr (rc_OpID (c\<lparr>rc_pc := Watching ?addr\<rparr>)) (WatchResponse (Some resp))) (sl_sm ?sl1)
        = Inr (sm, acts @ [ActionSendRequest r n s d])"
      using assms(3) calls(3) by (simp add: watch_event_def)
    from call_step.answer [OF calls(2) calls(1) [symmetric] _ this] show ?thesis by simp
  qed
  have "\<not> is_request t" if "t \<in> set (map Perform acts)" for t
    using assms(4) that by (induction acts rule: sends.induct) (auto simp: is_request_def)
  then obtain ls sl' pre' where "lk_run env ?sl2 ls sl'" "sl_sm sl' = sm" "sl_cfg sl' = sl_cfg sl"
      "sl_calls sl' = pre' @ [\<lparr>rc_Redirect = r, rc_OpID = n, rc_SyncState = s, rc_Timeout = d, rc_pc = Dialing\<rparr>]"
    using call_acts [of ?i ?sl2 True "map Perform acts" r n s d env] assms(1) by (auto simp: set_call_def)
  then show ?thesis
    using lk_run_step [OF lk_step.in_call [OF a] lk_run_step [OF lk_step.in_call [OF b]]] by blast
qed

abbreviation redirect_home :: "sync_assignment_state_p option \<Rightarrow> client_response_p" where
  "redirect_home s \<equiv> \<lparr>crp_SyncAssignmentState = s, crp_SuggestedRpcTimeoutMillis = 0,
     crp_Redirect = Some \<lparr>rp_Address = default_address, rp_RedirectToken = []\<rparr>\<rparr>"

abbreviation home_redirect :: redirect where
  "home_redirect \<equiv> \<lparr>rd_Address = Some default_address, rd_Token = []\<rparr>"

text \<open>The answer to the outstanding request makes the next one go out at once.\<close>

lemma redirected_home:
  assumes "\<not> isCancelled sm" and "latestReadState sm \<noteq> None" and "rs_opID (the (latestReadState sm)) = lastOpID sm"
    and "incorporateSyncState env ss sm = Inr (isNew, sm\<lparr>sm_assignment := a\<rparr>, acts)"
    and "response_generation ss = Inr g"
  shows "\<exists>sm' d. OnEvent env now (EventReadSuccess (Some addr) (lastOpID sm) (Some (redirect_home ss))) sm
      = Inr (sm', acts @ [ActionSendRequest home_redirect (lastOpID sm + 1) (next_sync_state env sm') d])
    \<and> \<not> isCancelled sm' \<and> latestReadState sm' \<noteq> None \<and> rs_opID (the (latestReadState sm')) = lastOpID sm'
    \<and> lastOpID sm' = lastOpID sm + 1 \<and> sm_assignment sm' = a
    \<and> remoteKnown sm' = \<lparr>rk_address = Some addr, rk_generation = g\<rparr> \<and> sm_redirect sm' = home_redirect"
proof -
  obtain sm1 where sm1: "onReadSuccess env now (Some addr) (lastOpID sm) (Some (redirect_home ss)) sm = Inr (sm1, acts)"
      "\<not> isCancelled sm1" "latestReadState sm1 = None" "lastOpID sm1 = lastOpID sm" "sm_assignment sm1 = a"
      "scheduledReadTime sm1 = now" "sm_redirect sm1 = home_redirect"
      "remoteKnown sm1 = \<lparr>rk_address = Some addr, rk_generation = g\<rparr>"
    using assms by (auto simp: onReadSuccess_def Let_def)
  let ?sm' = "fst (send_request env now sm1)"
  have "onAdvanceInternal env now sm1 = send_request env now sm1"
    using sm1 by (simp add: onAdvanceInternal_eq check_deadline_def)
  moreover have "next_sync_state env ?sm' = next_sync_state env sm1"
    by (simp add: next_sync_state_def split: option.split)
  ultimately show ?thesis
    using sm1 assms(1) by (intro exI [of _ ?sm'] exI [of _ "watchRPCTimeout sm1"]) (simp add: OnEvent_def send_request_def Let_def)
qed

lemma sample_pushes:
  "\<exists>ls sl c a. lk_run sample_runtime sample_lookup ls sl \<and> c \<in> set (sl_calls sl)
     \<and> ss_State (rc_SyncState c) = Some (KnownAssignment a) \<and> rd_Address (rc_Redirect c) = Some default_address"
proof -
  let ?sm = "fst first_request" and ?known = "Some \<lparr>ss_State = Some (KnownAssignment (Some wire_message))\<rparr>"
  have home: "request_address DefaultStateMachineConfig r = default_address" if "r = EmptyRedirect \<or> r = home_redirect" for r
    using that by (auto simp: request_address_def redirect_IsEmpty_def EmptyRedirect_def DefaultStateMachineConfig_def)
  have "incorporateSyncState sample_runtime ?known ?sm = Inr (True, ?sm\<lparr>sm_assignment := Some eventual_wire_assignment\<rparr>,
      [ActionUseAssignment eventual_wire_assignment])" "response_generation ?known = Inr sample_generation"
      "\<not> isCancelled ?sm" "latestReadState ?sm \<noteq> None" "rs_opID (the (latestReadState ?sm)) = lastOpID ?sm" "lastOpID ?sm = 1"
    by (simp_all add: sample_first_request incorporateSyncState_def GetKnownAssignment_def wire_message_decodes
        response_generation_def wire_message_generation)
  then obtain sm1 s1 d1 where sm1: "OnEvent sample_runtime 5 (EventReadSuccess (Some default_address) 1 (Some (redirect_home ?known))) ?sm
        = Inr (sm1, [ActionUseAssignment eventual_wire_assignment] @ [ActionSendRequest home_redirect 2 s1 d1])"
      "\<not> isCancelled sm1" "latestReadState sm1 \<noteq> None" "rs_opID (the (latestReadState sm1)) = lastOpID sm1"
      "lastOpID sm1 = 2" "sm_assignment sm1 = Some eventual_wire_assignment"
    using redirected_home [of ?sm sample_runtime ?known True "Some eventual_wire_assignment" _ sample_generation 5 default_address]
    by fastforce
  obtain ls1 sl1 pre1 where sl1: "lk_run sample_runtime (sample_waiting Dialing) ls1 sl1" "sl_sm sl1 = sm1"
      "sl_cfg sl1 = DefaultStateMachineConfig"
      "sl_calls sl1 = pre1 @ [\<lparr>rc_Redirect = home_redirect, rc_OpID = 2, rc_SyncState = s1, rc_Timeout = d1, rc_pc = Dialing\<rparr>]"
    using answered_request [of "sample_waiting Dialing" "[]" "sample_call Dialing" sample_runtime 5 "redirect_home ?known" sm1
        "[ActionUseAssignment eventual_wire_assignment]" home_redirect 2 s1 d1] sm1(1) home [of EmptyRedirect]
    by auto
  have "sm1\<lparr>sm_assignment := Some eventual_wire_assignment\<rparr> = sm1"
    using sm1(6) by simp
  then obtain sm2 d2 where sm2: "OnEvent sample_runtime 6 (EventReadSuccess (Some default_address) 2 (Some (redirect_home None))) sm1
        = Inr (sm2, [] @ [ActionSendRequest home_redirect 3 (next_sync_state sample_runtime sm2) d2])"
      "sm_assignment sm2 = Some eventual_wire_assignment" "sm_redirect sm2 = home_redirect"
      "remoteKnown sm2 = \<lparr>rk_address = Some default_address, rk_generation = EmptyGeneration\<rparr>"
    using redirected_home [of sm1 sample_runtime None False "Some eventual_wire_assignment" "[]" EmptyGeneration 6 default_address]
      sm1(2-5) by (auto simp: incorporateSyncState_def response_generation_def)
  obtain ls2 sl2 pre2 where sl2: "lk_run sample_runtime sl1 ls2 sl2"
      "sl_calls sl2 = pre2 @ [\<lparr>rc_Redirect = home_redirect, rc_OpID = 3, rc_SyncState = next_sync_state sample_runtime sm2,
         rc_Timeout = d2, rc_pc = Dialing\<rparr>]"
    using answered_request [OF sl1(4), of sample_runtime 6 "redirect_home None" sm2 "[]" home_redirect 3
        "next_sync_state sample_runtime sm2" d2] sm2(1) sl1(2,3) home [of home_redirect] by auto
  have "\<exists>a. ss_State (next_sync_state sample_runtime sm2) = Some (KnownAssignment a)"
    using sm2(2-4) by (simp add: next_sync_state_def sameAddress_def eventual_wire_assignment_def wire_assignment_def
      sample_generation_def EmptyGeneration_def MinIncarnation_def order_simps gen_rank_def)
  moreover have "\<exists>ls. lk_run sample_runtime sample_lookup ls sl2"
    using lk_run_trans [OF sl2(1) lk_run_trans [OF sl1(1) sample_sends]] by blast
  ultimately show ?thesis using sl2(2) by fastforce
qed

section \<open>Timeouts and publication\<close>

lemma sint_Millisecond:
  assumes "0 \<le> sint ms" and "sint (ms :: i64) \<le> 9223372036854"
  shows "sint (ms * Millisecond) = sint ms * 1000000"
proof -
  have "sint (ms * Millisecond) = signed_take_bit 63 (sint ms * 1000000)"
    by (simp add: sint_word_ariths Millisecond_def)
  then show ?thesis
    using assms by (simp add: signed_take_bit_int_eq_self)
qed

lemma Milliseconds_roundtrip:
  "0 \<le> sint ms \<Longrightarrow> sint ms \<le> 9223372036854 \<Longrightarrow> time_Milliseconds (ms * Millisecond) = ms"
  by (simp add: time_Milliseconds_def sint_Millisecond)

lemma Milliseconds_bound: "sint (time_Milliseconds d) \<le> 9223372036854"
proof -
  let ?q = "if sint d < 0 then - (- sint d div 1000000) else sint d div 1000000"
  have d: "- (2 ^ 63) \<le> sint d" "sint d < 2 ^ 63"
    using sint_ge [of d] sint_lt [of d] by simp_all
  then have q: "- 9223372036855 \<le> ?q" "?q \<le> 9223372036854" by auto
  have "sint (time_Milliseconds d) = signed_take_bit 63 ?q"
    by (simp add: time_Milliseconds_def sint_sbintrunc')
  also have "\<dots> = ?q"
    using q by (intro signed_take_bit_int_eq_self) auto
  finally show ?thesis using q(2) by simp
qed

lemma ws_machine_step:
  assumes "ws_step env answering w w'" and "sm_assignment (ws_sm w) = Some a"
  shows "\<exists>b. sm_assignment (ws_sm w') = Some b \<and> (b = a \<or> a_rank a < a_rank b)"
  using assms(1)
proof (cases rule: ws_step.cases)
  case (input i sm acts)
  then have "takes_up (ws_sm w) sm acts" using sm_step_frame by blast
  then show ?thesis
    using input(1) assms(2) by (auto simp: takes_up_def newer_rank)
qed (use assms(2) in auto)

lemma machine_run_grows:
  "lk_run env sl ls sl' \<Longrightarrow> life_inv sl \<Longrightarrow> sm_assignment (sl_sm sl) = Some a \<Longrightarrow>
     \<exists>b. sm_assignment (sl_sm sl') = Some b \<and> (b = a \<or> a_rank a < a_rank b)"
proof (induction rule: run_of.induct)
  case (run_snoc ls sl' l sl'')
  then obtain b where b: "sm_assignment (sl_sm sl') = Some b" "b = a \<or> a_rank a < a_rank b" by blast
  have "\<exists>c. sm_assignment (sl_sm sl'') = Some c \<and> (c = b \<or> a_rank b < a_rank c)"
    using ws_machine_step [OF lk_refines [OF run_snoc.hyps(2)]] life_inv_run [OF run_snoc.hyps(1) run_snoc.prems(1)] b(1)
    by auto
  with b(2) show ?case by auto
qed auto

lemma accepted_answer:
  assumes "transportable env a" and "AssignmentToProto env (Some a) = Some p"
    and "length (dap_Resources p) < 2 ^ 31" and "newer (CurrentAssignment sm) a" and "\<not> isCancelled sm"
    and "crp_SyncAssignmentState resp = Some \<lparr>ss_State = Some (KnownAssignment (Some p))\<rparr>"
  shows "\<exists>sm' acts. OnEvent env now (EventReadSuccess addr opID (Some resp)) sm
      = Inr (sm', ActionUseAssignment (a\<lparr>a_ConsistencyMode := ConsistencyModeEventual\<rparr>) # acts)
    \<and> CurrentAssignment sm' = Some (a\<lparr>a_ConsistencyMode := ConsistencyModeEventual\<rparr>)"
proof -
  let ?a = "a\<lparr>a_ConsistencyMode := ConsistencyModeEventual\<rparr>"
  have inc: "incorporateSyncState env (crp_SyncAssignmentState resp) sm
      = Inr (True, sm\<lparr>sm_assignment := Some ?a\<rparr>, [ActionUseAssignment ?a])"
    using assms(4,6) AssignmentFromProto_ToProto [OF assms(1-3)]
    by (auto simp: incorporateSyncState_def GetKnownAssignment_def newer_def CurrentAssignment_def order_simps
        split: option.splits)
  have "wf_generation (a_Generation a)" "dap_Generation p = Some (GenerationToProto (a_Generation a))"
    using assms(1,2) by (auto simp: transportable_def AssignmentToProto_def split_beta Let_def)
  then have gen: "response_generation (crp_SyncAssignmentState resp) = Inr (a_Generation a)"
    using assms(6) generation_codec.dec_enc by (simp add: response_generation_def)
  have "\<exists>sm1. onReadSuccess env now addr opID (Some resp) sm = Inr (sm1, [ActionUseAssignment ?a])
      \<and> sm_assignment sm1 = Some ?a"
    using inc gen by (simp add: onReadSuccess_def Let_def)
  then obtain sm1 where "onReadSuccess env now addr opID (Some resp) sm = Inr (sm1, [ActionUseAssignment ?a])"
      "sm_assignment sm1 = Some ?a"
    by blast
  moreover obtain sm2 acts where "onAdvanceInternal env now sm1 = (sm2, acts)" by fastforce
  ultimately show ?thesis
    using assms(5) onAdvance_frame(2) by (auto simp: OnEvent_def CurrentAssignment_def)
qed

section \<open>Readiness\<close>

text \<open>Once the ready channel is closed, every key is routed by the assignment in the cell.\<close>

lemma ready_means_routable:
  assumes "lk_run env (NewSliceLookup t n cfg opts rng) ls sl" and "lookup_Ready sl" and "lk_run env sl ls' sl'"
  shows "lookup_Ready sl' \<and> (\<exists>a. router_Assignment (lookup_Router sl') = Some a \<and> valid_assignment a)"
proof -
  have run: "lk_run env (NewSliceLookup t n cfg opts rng) (ls @ ls') sl'"
    using lk_run_trans [OF assms(3,1)] .
  have "sl_ready sl'"
    using lk_run_ready [OF assms(3) lookup_inv(1) [OF assms(1)]] assms(2) by (simp add: lookup_Ready_def)
  then show ?thesis
    using lookup_inv(2) [OF run] by (auto simp: ws_inv_def lookup_Router_def router_Assignment_def lookup_Ready_def)
qed

section \<open>Properties\<close>

text \<open>
  C4: In every interleaving, what the cell shows the readers is valid and at most as new as what the state
  machine holds; when no action to use an assignment is pending, it is exactly that. And whatever happens
  next, the cell never goes back to an older generation.
\<close>

theorem cell_follows_machine:
  assumes "lk_run env (NewSliceLookup t n cfg opts rng) ls sl"
  shows "(\<forall>c. cell_Get (lookup_Cell sl) = Some c \<longrightarrow> valid_assignment c
        \<and> (\<exists>a. CurrentAssignment (sl_sm sl) = Some a \<and> (c = a \<or> gen_Less (a_Generation c) (a_Generation a))))
    \<and> (waiting_uses (pending sl) = {} \<longrightarrow> cell_Get (lookup_Cell sl) = CurrentAssignment (sl_sm sl))
    \<and> (\<forall>ls' sl' c. lk_run env sl ls' sl' \<and> cell_Get (lookup_Cell sl) = Some c \<longrightarrow>
        (\<exists>c'. cell_Get (lookup_Cell sl') = Some c' \<and> \<not> gen_Less (a_Generation c') (a_Generation c)))"
proof -
  have inv: "ws_inv (spec_of sl)" "life_inv sl"
    using lookup_inv [OF assms] by simp_all
  then have follows: "assignment_cell.follows (sl_cell sl) (sm_assignment (sl_sm sl)) (waiting_uses (pending sl))"
    by (simp add: ws_inv_def)
  have "waiting_uses (pending sl) = {} \<longrightarrow> cell_Get (lookup_Cell sl) = CurrentAssignment (sl_sm sl)"
    using follows assignment_cell.follows_quiet by (auto simp: lookup_Cell_def CurrentAssignment_def)
  moreover have "\<forall>c. cell_Get (lookup_Cell sl) = Some c \<longrightarrow> valid_assignment c
      \<and> (\<exists>a. CurrentAssignment (sl_sm sl) = Some a \<and> (c = a \<or> gen_Less (a_Generation c) (a_Generation a)))"
    using inv(1) follows
    by (fastforce simp: ws_inv_def assignment_cell.follows_def lookup_Cell_def CurrentAssignment_def a_rank_def order_simps)
  moreover have "\<exists>c'. cell_Get (lookup_Cell sl') = Some c' \<and> \<not> gen_Less (a_Generation c') (a_Generation c)"
    if "lk_run env sl ls' sl'" "cell_Get (lookup_Cell sl) = Some c" for ls' sl' c
    using lk_run_cell [OF that(1) inv(2)] that(2) by (auto simp: lookup_Cell_def a_rank_def order_simps not_less)
  ultimately show ?thesis by blast
qed

theorem cell_follows_machine_witness:
  "\<exists>ls sl. lk_run sample_runtime sample_lookup ls sl
     \<and> CurrentAssignment (sl_sm sl) = Some eventual_wire_assignment"
proof -
  obtain ls sl where run: "lk_run sample_runtime sample_lookup ls sl" "waiting_uses (pending sl) = {}"
      "cell_Get (sl_cell sl) = Some eventual_wire_assignment"
    using sample_receives by blast
  with cell_follows_machine [OF run(1) [unfolded sample_lookup_def]] show ?thesis
    by (auto simp: lookup_Cell_def)
qed

text \<open>
  C39: The assignment is pushed only along a redirect, to a server that has been watched before: a request without
  a redirect goes to the default address and carries only the known generation; any other goes to the address
  of its redirect, and when it carries the assignment the lookup has opened a watch at that address before.
\<close>

theorem assignment_only_along_redirect:
  assumes "lk_run env (NewSliceLookup t n cfg opts rng) ls sl" and "DefaultWatchAddress cfg \<noteq> []"
    and "c \<in> set (sl_calls sl)"
  shows "if redirect_IsEmpty (rc_Redirect c)
    then request_address cfg (rc_Redirect c) = DefaultWatchAddress cfg
      \<and> (\<forall>a. ss_State (crq_SyncAssignmentState (build_request sl c)) \<noteq> Some (KnownAssignment a))
    else rd_Address (rc_Redirect c) = Some (request_address cfg (rc_Redirect c))
      \<and> (\<forall>a. ss_State (crq_SyncAssignmentState (build_request sl c)) = Some (KnownAssignment a) \<longrightarrow>
          (\<exists>i f rq. InCall i (Watch f (request_address cfg (rc_Redirect c)) rq) \<in> set ls))"
proof -
  have "push_ok (watched ls) (rc_Redirect c) (rc_SyncState c)"
    using push_inv_run [OF assms(1)] assms(3) by (fastforce simp: push_inv_def)
  moreover have "[] \<notin> watched ls"
    using watched_nonempty [OF assms(1,2)] .
  ultimately have "ss_State (rc_SyncState c) = Some (KnownAssignment a) \<Longrightarrow>
      \<exists>addr \<in> watched ls. rd_Address (rc_Redirect c) = Some addr \<and> addr \<noteq> []" for a
    unfolding push_ok_def by metis
  then show ?thesis
    by (fastforce simp: request_address_def build_request_def redirect_IsEmpty_def watched_def split: option.splits)
qed

theorem assignment_only_along_redirect_witness:
  "\<exists>ls sl c a. lk_run sample_runtime sample_lookup ls sl \<and> c \<in> set (sl_calls sl)
     \<and> ss_State (crq_SyncAssignmentState (build_request sl c)) = Some (KnownAssignment a)
     \<and> rd_Address (rc_Redirect c) = Some default_address
     \<and> (\<exists>i f rq. InCall i (Watch f default_address rq) \<in> set ls)"
proof -
  obtain ls sl c a where run: "lk_run sample_runtime sample_lookup ls sl" "c \<in> set (sl_calls sl)"
      "ss_State (rc_SyncState c) = Some (KnownAssignment a)" "rd_Address (rc_Redirect c) = Some default_address"
    using sample_pushes by blast
  moreover have "DefaultWatchAddress DefaultStateMachineConfig \<noteq> []"
    by (simp add: DefaultStateMachineConfig_def)
  moreover have "\<not> redirect_IsEmpty (rc_Redirect c)"
      "request_address DefaultStateMachineConfig (rc_Redirect c) = default_address"
    using run(4) by (simp_all add: redirect_IsEmpty_def request_address_def)
  ultimately show ?thesis
    using assignment_only_along_redirect [OF run(1) [unfolded sample_lookup_def] _ run(2)]
    by (simp add: build_request_def) blast
qed

text \<open>
  C16: Stopping is final and winds down: after a \<open>Stop\<close> has returned the state machine is cancelled and never
  changes again, the loop takes no further step, whatever clients do (starting again included), and the
  requests still in flight take at most \<open>work_left\<close> steps, after which all of them have finished; they can
  always do so. When they have, every connection that any request ever opened, before or after the stop, has
  been cleaned up, as often as it was opened.
\<close>

theorem stop_winds_down:
  assumes "lk_run env (NewSliceLookup t n cfg opts rng) ls sl0" and "client_step sl0 Stopped sl"
    and "lk_run env sl ls' sl'"
  shows "IsCancelled (sl_sm sl) \<and> sl_sm sl' = sl_sm sl \<and> sl_loop sl' = LoopDone
    \<and> length (filter background ls') \<le> work_left sl
    \<and> (\<exists>ls'' sl''. lk_run env sl' ls'' sl'' \<and> (\<forall>c \<in> set (sl_calls sl''). rc_pc c = CallDone))
    \<and> (\<forall>i. (\<forall>c \<in> set (sl_calls sl'). rc_pc c = CallDone) \<longrightarrow>
        length (filter (opens i) (ls @ ls')) = length (filter (cleans_up i) (ls @ ls')))"
proof -
  have "life_inv sl" "sl_loop sl = LoopDone"
    using lookup_inv(1) [OF assms(1)] assms(2) by (auto simp: life_inv_def elim: client_step.cases)
  moreover from this have "life_inv sl'" "sl_loop sl' = LoopDone"
    using life_inv_run [OF assms(3)] done_run [OF assms(3)] by simp_all
  moreover have "sl = sl0" using assms(2) by (cases rule: client_step.cases) simp
  with assms(1,3) have "lk_run env (NewSliceLookup t n cfg opts rng) (ls @ ls') sl'"
    using lk_run_trans by blast
  ultimately show ?thesis
    using done_run [OF assms(3)] finishes [of sl' env] connections_closed [of env t n cfg opts rng "ls @ ls'" sl']
    by (simp add: life_inv_def IsCancelled_def)
qed

abbreviation sample_stopped :: slice_lookup where
  "sample_stopped \<equiv> sample_state Cancelled LoopDone ((fst first_request)\<lparr>isCancelled := True\<rparr>)
     (NewAtomicAssignmentCell None) False [sample_call Dialing]"

lemma sample_stop_run: "\<exists>ls. lk_run sample_runtime sample_lookup ls sample_stopped"
proof -
  let ?s1 = "sample_state Cancelled Selecting (fst first_request) (NewAtomicAssignmentCell None) False [sample_call Dialing]"
  have a: "client_step (sample_waiting Dialing) Stop ?s1"
    using client_step.stop [of "sample_waiting Dialing"] by (simp add: lookup_cancel_def)
  have b: "loop_step sample_runtime ?s1 (CancelSeen 1) sample_stopped"
    using loop_step.cancel [of ?s1 sample_runtime 1 "(fst first_request)\<lparr>isCancelled := True\<rparr>" "[]"]
    by (simp add: OnEvent_cancel)
  have "lk_run sample_runtime sample_lookup ([Client Start, InLoop (Tick 0), InLoop LoopAct] @
      [Client Stop, InLoop (CancelSeen 1)]) sample_stopped"
    by (rule lk_run_trans [OF _ sample_sends])
      (rule lk_run_step [OF lk_step.client [OF a] lk_run_step [OF lk_step.in_loop [OF b] lk_run_nil]])
  then show ?thesis by blast
qed

lemma sample_stops: "\<exists>ls sl. lk_run sample_runtime sample_lookup ls sl \<and> sl_loop sl = LoopDone"
  using sample_stop_run by fastforce

theorem stop_winds_down_witness:
  "\<exists>sl0 sl. client_step sl0 Stopped sl \<and> work_left sl = 3 \<and> sl_loop sl = LoopDone
     \<and> (\<exists>ls'' sl''. lk_run sample_runtime sl ls'' sl'' \<and> (\<forall>c \<in> set (sl_calls sl''). rc_pc c = CallDone))"
proof -
  obtain ls where run: "lk_run sample_runtime sample_lookup ls sample_stopped"
    using sample_stop_run by blast
  have stopped: "client_step sample_stopped Stopped sample_stopped"
    using client_step.stopped [of sample_stopped] by simp
  from stop_winds_down [OF run [unfolded sample_lookup_def] stopped lk_run_nil]
  have "\<exists>ls'' sl''. lk_run sample_runtime sample_stopped ls'' sl'' \<and> (\<forall>c \<in> set (sl_calls sl''). rc_pc c = CallDone)"
    by blast
  moreover have "work_left sample_stopped = 3" by (simp add: work_left_def)
  ultimately show ?thesis using stopped by (intro exI [of _ sample_stopped]) simp
qed

text \<open>
  Timeouts survive the way there and back: a timeout of \<open>ms\<close> milliseconds that a server suggests is the
  timeout the next requests announce to it, for every positive value up to 9223372036854, and for no
  larger one, because the multiplication by a million wraps. Whatever the timeout, the announced value is
  at most 9223372036854.
\<close>

lemma timeout_roundtrip:
  assumes "0 < sint (crp_SuggestedRpcTimeoutMillis resp)"
    and "rc_Timeout c = watchRPCTimeout (suggest_timeout resp sm)"
  shows "(crq_ChosenRpcTimeoutMillis (build_request sl c) = crp_SuggestedRpcTimeoutMillis resp
      \<longleftrightarrow> sint (crp_SuggestedRpcTimeoutMillis resp) \<le> 9223372036854)
    \<and> sint (crq_ChosenRpcTimeoutMillis (build_request sl c')) \<le> 9223372036854"
proof -
  have "crq_ChosenRpcTimeoutMillis (build_request sl c)
      = time_Milliseconds (crp_SuggestedRpcTimeoutMillis resp * Millisecond)"
    using assms by (simp add: build_request_def suggest_timeout_def)
  moreover have "sint (crq_ChosenRpcTimeoutMillis (build_request sl c')) \<le> 9223372036854"
    by (simp add: build_request_def Milliseconds_bound)
  ultimately show ?thesis
    using Milliseconds_roundtrip [of "crp_SuggestedRpcTimeoutMillis resp"] assms(1)
      Milliseconds_bound [of "crp_SuggestedRpcTimeoutMillis resp * Millisecond"] by auto
qed

text \<open>
  An answer with a newer transportable assignment is accepted; from then on, whenever nothing is pending,
  the router works with this assignment or a newer one.
\<close>

lemma answer_accepted:
  assumes "i < length (sl_calls sl)" and "rc_pc (sl_calls sl ! i) = Watching addr" and "\<not> IsCancelled (sl_sm sl)"
    and "transportable env a" and "AssignmentToProto env (Some a) = Some p" and "length (dap_Resources p) < 2 ^ 31"
    and "newer (CurrentAssignment (sl_sm sl)) a"
    and "crp_SyncAssignmentState resp = Some \<lparr>ss_State = Some (KnownAssignment (Some p))\<rparr>"
  shows "\<exists>sl1. call_step env i sl (Answer now (WatchResponse (Some resp))) sl1"
    and "call_step env i sl (Answer now (WatchResponse (Some resp))) sl1 \<Longrightarrow>
      sm_assignment (sl_sm sl1) = Some (a\<lparr>a_ConsistencyMode := ConsistencyModeEventual\<rparr>) \<and> sl_ctx sl1 = sl_ctx sl"
proof -
  let ?c = "sl_calls sl ! i"
  obtain sm acts where ev: "OnEvent env now (watch_event addr (rc_OpID ?c) (WatchResponse (Some resp))) (sl_sm sl)
      = Inr (sm, acts)" "CurrentAssignment sm = Some (a\<lparr>a_ConsistencyMode := ConsistencyModeEventual\<rparr>)"
    using accepted_answer [OF assms(4-7) _ assms(8), of now "Some addr" "rc_OpID ?c"] assms(3)
    by (auto simp: watch_event_def IsCancelled_def)
  then show "\<exists>sl1. call_step env i sl (Answer now (WatchResponse (Some resp))) sl1"
    using call_step.answer [OF assms(1) refl assms(2)] by blast
  show "sm_assignment (sl_sm sl1) = Some (a\<lparr>a_ConsistencyMode := ConsistencyModeEventual\<rparr>) \<and> sl_ctx sl1 = sl_ctx sl"
    if "call_step env i sl (Answer now (WatchResponse (Some resp))) sl1"
    using that by (cases rule: call_step.cases) (use assms(2) ev in \<open>auto simp: CurrentAssignment_def\<close>)
qed

lemma quiet_router:
  assumes "lk_run env (NewSliceLookup t n cfg opts rng) ls sl" and "sm_assignment (sl_sm sl) = Some a"
    and "lk_run env sl ls' sl'" and "waiting_uses (pending sl') = {}"
  shows "\<exists>b. router_Assignment (lookup_Router sl') = Some b \<and> (b = a \<or> a_rank a < a_rank b) \<and> valid_assignment b"
proof -
  obtain b where b: "sm_assignment (sl_sm sl') = Some b" "b = a \<or> a_rank a < a_rank b"
    using machine_run_grows [OF assms(3) lookup_inv(1) [OF assms(1)] assms(2)] by blast
  have inv: "ws_inv (spec_of sl')"
    using lookup_inv(2) [OF lk_run_trans [OF assms(3,1)]] .
  then have "cell_Get (sl_cell sl') = sm_assignment (sl_sm sl')"
    using assms(4) assignment_cell.follows_quiet by (auto simp: ws_inv_def)
  then show ?thesis
    using b inv by (auto simp: ws_inv_def lookup_Router_def router_Assignment_def)
qed

lemma valid_routes:
  assumes "router_Assignment r = Some b" and "valid_assignment b"
  shows "\<exists>rs. RouteAll r key = Inr rs \<and> rs \<noteq> [] \<and> (\<forall>sq. IsAssignedKey b (NewSliceKeyFromString key) sq = Inr (sq \<in> set rs))"
proof -
  have b: "cell_Get (r_cell r) = Some b"
    using assms(1) by (simp add: router_Assignment_def)
  show ?thesis
    using RouteAll_replicas [OF b assms(2)] replicas_of_assigned [OF b assms(2)] by auto
qed

text \<open>
  C1: Publication, from the encoder to the router: when a live lookup waits for an answer and the server
  answers with the encoding of a transportable assignment newer than the one held, the answer is accepted
  without a panic, and in every later state of every interleaving in which no assignment is pending, every
  key is routed by that assignment (with the mode the wire loses) or by a newer one. Such a state can
  always be reached, by carrying out the pending actions.
\<close>

theorem published_assignment_routes:
  assumes "lk_run env (NewSliceLookup t n cfg opts rng) ls sl" and "i < length (sl_calls sl)"
    and "rc_pc (sl_calls sl ! i) = Watching addr" and "\<not> IsCancelled (sl_sm sl)"
    and "transportable env a" and "AssignmentToProto env (Some a) = Some p" and "length (dap_Resources p) < 2 ^ 31"
    and "newer (CurrentAssignment (sl_sm sl)) a"
    and "crp_SyncAssignmentState resp = Some \<lparr>ss_State = Some (KnownAssignment (Some p))\<rparr>"
  shows "(\<exists>sl1. call_step env i sl (Answer now (WatchResponse (Some resp))) sl1)
    \<and> (\<forall>sl1 ls' sl'. call_step env i sl (Answer now (WatchResponse (Some resp))) sl1 \<and> lk_run env sl1 ls' sl'
          \<and> waiting_uses (pending sl') = {} \<longrightarrow>
        (\<exists>b. router_Assignment (lookup_Router sl') = Some b
          \<and> (b = a\<lparr>a_ConsistencyMode := ConsistencyModeEventual\<rparr> \<or> gen_Less (a_Generation a) (a_Generation b))
          \<and> (\<forall>key. \<exists>rs. RouteAll (lookup_Router sl') key = Inr rs \<and> rs \<noteq> []
              \<and> (\<forall>sq. IsAssignedKey b (NewSliceKeyFromString key) sq = Inr (sq \<in> set rs)))))
    \<and> (\<forall>sl1. \<exists>ls' sl'. lk_run env sl1 ls' sl' \<and> waiting_uses (pending sl') = {})"
proof -
  let ?a = "a\<lparr>a_ConsistencyMode := ConsistencyModeEventual\<rparr>" and ?ans = "Answer now (WatchResponse (Some resp))"
  note accepted = answer_accepted [OF assms(2-9), of now]
  have "\<exists>b. router_Assignment (lookup_Router sl') = Some b \<and> (b = ?a \<or> gen_Less (a_Generation a) (a_Generation b))
      \<and> (\<forall>key. \<exists>rs. RouteAll (lookup_Router sl') key = Inr rs \<and> rs \<noteq> []
          \<and> (\<forall>sq. IsAssignedKey b (NewSliceKeyFromString key) sq = Inr (sq \<in> set rs)))"
    if step: "call_step env i sl ?ans sl1" and run: "lk_run env sl1 ls' sl'" and quiet: "waiting_uses (pending sl') = {}"
    for sl1 ls' sl'
  proof -
    have all: "lk_run env (NewSliceLookup t n cfg opts rng) (ls @ [InCall i ?ans]) sl1"
      using lk_run_snoc [OF assms(1) lk_step.in_call [OF step]] .
    obtain b where b: "router_Assignment (lookup_Router sl') = Some b" "b = ?a \<or> a_rank ?a < a_rank b" "valid_assignment b"
      using quiet_router [OF all _ run quiet] accepted(2) [OF step] by blast
    then show ?thesis
      using valid_routes [OF b(1,3)] by (auto simp: a_rank_def order_simps)
  qed
  moreover have "\<exists>ls' sl'. lk_run env sl1 ls' sl' \<and> waiting_uses (pending sl') = {}" for sl1
    using pending_drains [of env sl1] by fastforce
  ultimately show ?thesis using accepted(1) by blast
qed

theorem published_assignment_routes_witness:
  "\<exists>ls sl b rs. lk_run sample_runtime sample_lookup ls sl \<and> router_Assignment (lookup_Router sl) = Some b
     \<and> RouteAll (lookup_Router sl) ''k'' = Inr rs \<and> rs \<noteq> []"
proof -
  let ?w = "sample_waiting (Watching default_address)" and ?ans = "Answer 5 (WatchResponse (Some sample_response))"
  obtain l where "lk_step sample_runtime (sample_waiting Dialing) (InCall 0 l) ?w"
    using sample_watches by blast
  then have run: "lk_run sample_runtime sample_lookup ([Client Start, InLoop (Tick 0), InLoop LoopAct] @ [InCall 0 l]) ?w"
    using lk_run_snoc [OF sample_sends] by blast
  moreover have "newer (CurrentAssignment (sl_sm ?w)) wire_assignment" "\<not> IsCancelled (sl_sm ?w)"
    by (simp_all add: sample_first_request newer_def CurrentAssignment_def IsCancelled_def)
  moreover have "crp_SyncAssignmentState sample_response = Some \<lparr>ss_State = Some (KnownAssignment (Some wire_message))\<rparr>"
    by (simp add: sample_response_def)
  ultimately have routes: "(\<exists>sl1. call_step sample_runtime 0 ?w ?ans sl1)
    \<and> (\<forall>sl1 ls' sl'. call_step sample_runtime 0 ?w ?ans sl1 \<and> lk_run sample_runtime sl1 ls' sl'
          \<and> waiting_uses (pending sl') = {} \<longrightarrow>
        (\<exists>b. router_Assignment (lookup_Router sl') = Some b
          \<and> (b = wire_assignment\<lparr>a_ConsistencyMode := ConsistencyModeEventual\<rparr>
              \<or> gen_Less (a_Generation wire_assignment) (a_Generation b))
          \<and> (\<forall>key. \<exists>rs. RouteAll (lookup_Router sl') key = Inr rs \<and> rs \<noteq> []
              \<and> (\<forall>sq. IsAssignedKey b (NewSliceKeyFromString key) sq = Inr (sq \<in> set rs)))))
    \<and> (\<forall>sl1. \<exists>ls' sl'. lk_run sample_runtime sl1 ls' sl' \<and> waiting_uses (pending sl') = {})"
    using wire_transportable wire_message_pool unfolding sample_lookup_def
    by (intro published_assignment_routes [where addr = default_address and p = wire_message]) simp_all
  then obtain sl1 ls' sl' where sl': "call_step sample_runtime 0 ?w ?ans sl1" "lk_run sample_runtime sl1 ls' sl'"
      "waiting_uses (pending sl') = {}"
    by blast
  then have "lk_run sample_runtime sample_lookup (([Client Start, InLoop (Tick 0), InLoop LoopAct] @ [InCall 0 l])
      @ [InCall 0 ?ans] @ ls') sl'"
    using lk_run_trans [OF _ run] lk_run_step [OF lk_step.in_call] by simp
  then show ?thesis using routes sl' by blast
qed

fun answer_safe :: "watch_result \<Rightarrow> bool" where
  "answer_safe (WatchResponse (Some resp)) \<longleftrightarrow> state_safe (crp_SyncAssignmentState resp)"
| "answer_safe _ \<longleftrightarrow> True"

lemma answer_safe_event: "answer_safe w \<Longrightarrow> event_safe (watch_event addr n w)"
  by (cases w rule: answer_safe.cases) (simp_all add: watch_event_def)

text \<open>
  C38: No goroutine is ever stuck, and only a message that must panic is refused. In every reachable state: the
  loop can tick whenever it selects, and notice a cancellation; it can carry out its next action; every
  request that has not finished can take its next step; and a request that waits for an answer can take any
  error or safe response at any time. But on a live lookup a response whose known generation is out of range
  admits no next state: the panic in the goroutine of the request ends the process.
\<close>

theorem lookup_never_stuck:
  assumes "lk_run env (NewSliceLookup t n cfg opts rng) ls sl"
  shows "(sl_loop sl = Selecting \<longrightarrow> (\<exists>sl'. loop_step env sl (Tick now) sl')
        \<and> (sl_ctx sl = Cancelled \<longrightarrow> (\<exists>sl'. loop_step env sl (CancelSeen now) sl')))
    \<and> (\<forall>ts. sl_loop sl = LoopActing ts \<longrightarrow> (\<exists>sl'. loop_step env sl LoopAct sl'))
    \<and> (\<forall>i < length (sl_calls sl). rc_pc (sl_calls sl ! i) \<noteq> CallDone \<longrightarrow> (\<exists>l sl'. call_step env i sl l sl'))
    \<and> (\<forall>i addr w. i < length (sl_calls sl) \<and> rc_pc (sl_calls sl ! i) = Watching addr \<and> answer_safe w \<longrightarrow>
        (\<exists>sl'. call_step env i sl (Answer now w) sl'))
    \<and> (\<forall>i g resp sl'. \<not> IsCancelled (sl_sm sl) \<and> \<not> gen_safe g
        \<and> crp_SyncAssignmentState resp = Some \<lparr>ss_State = Some (KnownGeneration g)\<rparr> \<longrightarrow>
        \<not> call_step env i sl (Answer now (WatchResponse (Some resp))) sl')"
proof (intro conjI allI impI)
  show "\<exists>sl'. loop_step env sl (Tick now) sl'" if "sl_loop sl = Selecting"
    using loop_step.tick [OF that] by (metis prod.exhaust)
  show "\<exists>sl'. loop_step env sl (CancelSeen now) sl'" if "sl_loop sl = Selecting" "sl_ctx sl = Cancelled"
    using loop_step.cancel [OF that] OnEvent_cancel by blast
  show "\<exists>sl'. loop_step env sl LoopAct sl'" if acting: "sl_loop sl = LoopActing ts" for ts
  proof (cases ts)
    case Nil
    then show ?thesis using lookup_inv(1) [OF assms] acting by (simp add: life_inv_def)
  next
    case (Cons t ts')
    obtain sl1 new where "handleAction t sl = (sl1, new)" by fastforce
    then show ?thesis using loop_step.act acting Cons by blast
  qed
  show "\<exists>l sl'. call_step env i sl l sl'" if "i < length (sl_calls sl)" "rc_pc (sl_calls sl ! i) \<noteq> CallDone" for i
    using call_enabled that .
  show "\<exists>sl'. call_step env i sl (Answer now w) sl'"
    if "i < length (sl_calls sl) \<and> rc_pc (sl_calls sl ! i) = Watching addr \<and> answer_safe w" for i addr w
    using call_step.answer [of i sl "sl_calls sl ! i" addr env now w] that
      OnEvent_safe [OF answer_safe_event, of w env now addr "rc_OpID (sl_calls sl ! i)" "sl_sm sl"] by blast
  show "\<not> call_step env i sl (Answer now (WatchResponse (Some resp))) sl'"
    if "\<not> IsCancelled (sl_sm sl) \<and> \<not> gen_safe g
        \<and> crp_SyncAssignmentState resp = Some \<lparr>ss_State = Some (KnownGeneration g)\<rparr>" for i g resp sl'
  proof
    assume "call_step env i sl (Answer now (WatchResponse (Some resp))) sl'"
    then obtain addr sm acts where
      "OnEvent env now (EventReadSuccess (Some addr) (rc_OpID (sl_calls sl ! i)) (Some resp)) (sl_sm sl) = Inr (sm, acts)"
      by (cases rule: call_step.cases) (auto simp: watch_event_def)
    then show False
      using OnEvent_unsafe_generation [of "sl_sm sl" g resp env now "Some addr" "rc_OpID (sl_calls sl ! i)"] that
      by (simp add: IsCancelled_def)
  qed
qed

theorem lookup_never_stuck_witness:
  "(\<exists>sl'. call_step sample_runtime 0 (sample_waiting (Watching default_address)) (Answer 7 WatchError) sl')
   \<and> (\<nexists>sl'. call_step sample_runtime 0 (sample_waiting (Watching default_address)) (Answer 7 (WatchResponse (Some
        \<lparr>crp_SyncAssignmentState = Some \<lparr>ss_State = Some (KnownGeneration (Some \<lparr>gp_Incarnation = -1, gp_Number = 0\<rparr>))\<rparr>,
         crp_SuggestedRpcTimeoutMillis = 0, crp_Redirect = None\<rparr>))) sl')"
proof -
  let ?w = "sample_waiting (Watching default_address)"
  obtain l where "lk_step sample_runtime (sample_waiting Dialing) (InCall 0 l) ?w"
    using sample_watches by blast
  then have run: "lk_run sample_runtime sample_lookup ([Client Start, InLoop (Tick 0), InLoop LoopAct] @ [InCall 0 l]) ?w"
    using lk_run_snoc [OF sample_sends] by blast
  have "\<not> IsCancelled (sl_sm ?w)" "\<not> gen_safe (Some \<lparr>gp_Incarnation = -1, gp_Number = 0\<rparr>)"
    by (simp_all add: sample_first_request IsCancelled_def gen_safe_def)
  with lookup_never_stuck [OF run [unfolded sample_lookup_def], of 7] show ?thesis
    by fastforce
qed

lemma quiet_ready:
  assumes "lk_run env (NewSliceLookup t n cfg opts rng) ls sl" and "pending sl = {#}"
    and "router_Assignment (lookup_Router sl) = Some b"
  shows "lookup_Ready sl"
  using lookup_inv(2) [OF assms(1)] assms(2,3)
  by (simp add: ws_inv_def lookup_Ready_def router_Assignment_def lookup_Router_def)

lemma answer_gets_ready:
  assumes "lk_run env (NewSliceLookup t n cfg opts rng) ls sl"
    and "i < length (sl_calls sl)" and "rc_pc (sl_calls sl ! i) = Dialing" and "\<not> IsCancelled (sl_sm sl)"
    and "transportable env a" and "AssignmentToProto env (Some a) = Some p" and "length (dap_Resources p) < 2 ^ 31"
    and "newer (CurrentAssignment (sl_sm sl)) a"
    and "crp_SyncAssignmentState resp = Some \<lparr>ss_State = Some (KnownAssignment (Some p))\<rparr>"
  shows "\<exists>ls' sl' b. lk_run env sl ls' sl' \<and> list_all (cooperative resp) ls' \<and> times ls' = [now] \<and> pending sl' = {#}
    \<and> router_Assignment (lookup_Router sl') = Some b \<and> valid_assignment b \<and> a_rank a \<le> a_rank b"
proof -
  let ?addr = "request_address (sl_cfg sl) (rc_Redirect (sl_calls sl ! i))" and ?ans = "Answer now (WatchResponse (Some resp))"
  let ?watch = "Watch (sl_grpcClientFn sl) ?addr (build_request sl (sl_calls sl ! i))"
  let ?sl1 = "set_call i (Watching ?addr) sl"
  have step1: "lk_step env sl (InCall i ?watch) ?sl1"
    using lk_step.in_call [OF call_step.watch [OF assms(2) refl assms(3) refl]] .
  have waits: "i < length (sl_calls ?sl1)" "rc_pc (sl_calls ?sl1 ! i) = Watching ?addr" "\<not> IsCancelled (sl_sm ?sl1)"
      "newer (CurrentAssignment (sl_sm ?sl1)) a"
    using assms(2,4,8) by simp_all (simp add: set_call_def)
  note accepted = answer_accepted [OF waits(1-3) assms(5-7) waits(4) assms(9), of now]
  obtain sl2 where "call_step env i ?sl1 ?ans sl2"
    using accepted(1) by blast
  then have sl2: "lk_step env ?sl1 (InCall i ?ans) sl2"
      "sm_assignment (sl_sm sl2) = Some (a\<lparr>a_ConsistencyMode := ConsistencyModeEventual\<rparr>)"
    using accepted(2) lk_step.in_call by blast+
  obtain ls3 sl3 where sl3: "lk_run env sl2 ls3 sl3" "list_all (cooperative resp) ls3" "times ls3 = []" "pending sl3 = {#}"
    using drains by blast
  have run: "lk_run env sl [InCall i ?watch, InCall i ?ans] sl2"
    using lk_run_step [OF step1 lk_run_step [OF sl2(1) lk_run_nil]] .
  obtain b where "router_Assignment (lookup_Router sl3) = Some b" "valid_assignment b" "a_rank a \<le> a_rank b"
    using quiet_router [OF lk_run_trans [OF run assms(1)] sl2(2) sl3(1)] sl3(4) by (auto simp: a_rank_def)
  with sl3 show ?thesis
    using lk_run_trans [OF sl3(1) run]
    by (intro exI [of _ "[InCall i ?watch, InCall i ?ans] @ ls3"] exI [of _ sl3] exI [of _ b]) simp
qed

text \<open>
  C15: A running lookup can always still become ready. From every reachable state in which it has been started
  and not stopped, however often requests have failed and whatever has been received, there is a way,
  without any help of the clients, with a clock that starts at any time one likes and never goes back, and
  with nothing from the server but the one answer that encodes a transportable assignment, to a state in
  which the ready channel is closed, a waiting client is released, and every key is routed by an assignment
  not older than that one.
\<close>

theorem running_lookup_can_get_ready:
  assumes "config_ok cfg" and "draws_ok rng" and "lk_run env (NewSliceLookup t n cfg opts rng) ls sl"
    and "sl_ctx sl = Running"
    and "transportable env a" and "AssignmentToProto env (Some a) = Some p" and "length (dap_Resources p) < 2 ^ 31"
    and "crp_SyncAssignmentState resp = Some \<lparr>ss_State = Some (KnownAssignment (Some p))\<rparr>"
  shows "\<exists>ls' sl' b. lk_run env sl ls' sl' \<and> list_all (cooperative resp) ls' \<and> sorted (start # times ls')
    \<and> WaitReady sl' False WaitNil \<and> router_Assignment (lookup_Router sl') = Some b
    \<and> \<not> gen_Less (a_Generation b) (a_Generation a)
    \<and> (\<forall>key. \<exists>rs. RouteAll (lookup_Router sl') key = Inr rs \<and> rs \<noteq> [])"
proof -
  obtain ls1 sl1 i now1 now2 where sl1: "lk_run env sl ls1 sl1" "list_all (cooperative resp) ls1" "times ls1 = [now1, now2]"
      "start \<le> now1" "now1 \<le> now2" "pending sl1 = {#}" "life_inv sl1" "sl_ctx sl1 = Running"
      "i < length (sl_calls sl1)" "rc_pc (sl_calls sl1 ! i) = Dialing"
    using request_goes_out [OF lookup_inv(1) [OF assms(3)] backoff_lookup [OF assms(3,1,2)] assms(4)] by blast
  have all: "lk_run env (NewSliceLookup t n cfg opts rng) (ls @ ls1) sl1"
    using lk_run_trans [OF sl1(1) assms(3)] .
  have live: "\<not> IsCancelled (sl_sm sl1)"
    using sl1(7,8) by (simp add: life_inv_def IsCancelled_def) (metis lookup_context.distinct(5))
  obtain ls2 sl2 b where sl2: "lk_run env sl1 ls2 sl2" "list_all (cooperative resp) ls2" "times ls2 = [] \<or> times ls2 = [now2]"
      "pending sl2 = {#}" "router_Assignment (lookup_Router sl2) = Some b" "valid_assignment b" "a_rank a \<le> a_rank b"
  proof (cases "newer (CurrentAssignment (sl_sm sl1)) a")
    case True
    then show thesis
      using answer_gets_ready [OF all sl1(9,10) live assms(5-7) _ assms(8), of now2] that by blast
  next
    case False
    then obtain c where c: "sm_assignment (sl_sm sl1) = Some c" "a_rank a \<le> a_rank c"
      by (auto simp: newer_rank CurrentAssignment_def not_less)
    then obtain b where "router_Assignment (lookup_Router sl1) = Some b" "valid_assignment b" "a_rank a \<le> a_rank b"
      using quiet_router [OF all c(1) lk_run_nil] sl1(6) by auto
    then show thesis
      using that [OF lk_run_nil] sl1(6) by simp
  qed
  have "lookup_Ready sl2"
    using quiet_ready [OF lk_run_trans [OF sl2(1) all] sl2(4,5)] .
  then show ?thesis
    using lk_run_trans [OF sl2(1) sl1(1)] sl1(2-5) sl2(2,3,5,7) valid_routes [OF sl2(5,6)]
    by (intro exI [of _ "ls1 @ ls2"] exI [of _ sl2] exI [of _ b])
      (auto simp: a_rank_def order_simps not_less intro: WaitReady.ready)
qed

theorem running_lookup_can_get_ready_witness:
  "\<exists>ls' sl' b. lk_run sample_runtime sample_started ls' sl' \<and> sorted (1000 # times ls')
    \<and> router_Assignment (lookup_Router sl') = Some b \<and> WaitReady sl' False WaitNil"
proof -
  have ok: "config_ok DefaultStateMachineConfig" "draws_ok (\<lambda>_. 0)"
    by (simp_all add: config_ok_def DefaultStateMachineConfig_def Second_def Millisecond_def draws_ok_def)
  have run: "lk_run sample_runtime sample_lookup [Client Start] sample_started"
    using lk_run_step [OF sample_start_step lk_run_nil] .
  have resp: "crp_SyncAssignmentState sample_response = Some \<lparr>ss_State = Some (KnownAssignment (Some wire_message))\<rparr>"
    by (simp add: sample_response_def)
  show ?thesis
    using running_lookup_can_get_ready [OF ok run [unfolded sample_lookup_def] _ wire_transportable wire_message_pool resp,
        of 1000] by simp blast
qed

end
