(* ===== verification/LookupCache.thy ===== *)
theory LookupCache
  imports LookupProperties "HOL-Library.AList"
begin

text \<open>
  \<open>pkg/client/lookup_cache.go\<close> and \<open>pkg/client/clerk.go\<close>: the cache that shares lookups between clerks, the
  clerk, and the process in which clerks, the cache and all lookups run. A pointer to a lookup is its
  index in the store of all lookups ever made.
\<close>

section \<open>The cache\<close>

type_synonym store = "slice_lookup list"

text \<open>The Go map, as an association list with distinct keys.\<close>

record lookup_cache =
  lc_cache :: "(string \<times> nat) list"

definition NewSliceLookupCache :: lookup_cache where
  "NewSliceLookupCache = \<lparr>lc_cache = []\<rparr>"

definition cacheKey :: "string \<Rightarrow> config \<Rightarrow> string" where
  "cacheKey target cfg = target @ ''|'' @ DefaultWatchAddress cfg"

definition GetOrCreate ::
  "(nat \<Rightarrow> nat) \<Rightarrow> string \<Rightarrow> string \<Rightarrow> config \<Rightarrow> slice_lookup_option list \<Rightarrow> lookup_cache \<Rightarrow> store \<Rightarrow>
     nat \<times> lookup_cache \<times> store" where
  "GetOrCreate rng target clientName cfg opts c st =
     (let key = cacheKey target cfg
      in case map_of (lc_cache c) key of
           Some existing \<Rightarrow> (existing, c, st)
         | None \<Rightarrow>
             let lookup = lookup_Start (NewSliceLookup target clientName cfg opts rng);
                 ptr = length st
             in (ptr, c\<lparr>lc_cache := AList.update key ptr (lc_cache c)\<rparr>, st @ [lookup]))"

definition cache_Size :: "lookup_cache \<Rightarrow> nat" where
  "cache_Size c = length (lc_cache c)"

section \<open>The clerk\<close>

record clerk =
  ck_lookup :: nat

definition NewClerk ::
  "(nat \<Rightarrow> nat) \<Rightarrow> string \<Rightarrow> string \<Rightarrow> config \<Rightarrow> slice_lookup_option list \<Rightarrow> store \<Rightarrow> clerk \<times> store" where
  "NewClerk rng target clientName cfg opts st =
     (\<lparr>ck_lookup = length st\<rparr>, st @ [lookup_Start (NewSliceLookup target clientName cfg opts rng)])"

definition NewClerkWithCache ::
  "lookup_cache option \<Rightarrow> (nat \<Rightarrow> nat) \<Rightarrow> string \<Rightarrow> string \<Rightarrow> config \<Rightarrow> slice_lookup_option list \<Rightarrow> store \<Rightarrow>
     clerk \<times> lookup_cache option \<times> store" where
  "NewClerkWithCache cache rng target clientName cfg opts st =
     (case cache of
        None \<Rightarrow> let (ck, st') = NewClerk rng target clientName cfg opts st in (ck, None, st')
      | Some c \<Rightarrow>
          let (ptr, c', st') = GetOrCreate rng target clientName cfg opts c st
          in (\<lparr>ck_lookup = ptr\<rparr>, Some c', st'))"

definition clerk_Lookup :: "clerk \<Rightarrow> store \<Rightarrow> slice_lookup" where
  "clerk_Lookup ck st = st ! ck_lookup ck"

definition clerk_Ready :: "clerk \<Rightarrow> store \<Rightarrow> bool" where
  "clerk_Ready ck st = lookup_Ready (clerk_Lookup ck st)"

definition clerk_WaitReady :: "clerk \<Rightarrow> store \<Rightarrow> bool \<Rightarrow> wait_result \<Rightarrow> bool" where
  "clerk_WaitReady ck st ctxDone r = WaitReady (clerk_Lookup ck st) ctxDone r"

definition clerk_Route :: "clerk \<Rightarrow> string \<Rightarrow> store \<Rightarrow> squid result \<times> store" where
  "clerk_Route ck key st =
     (let sl = clerk_Lookup ck st; (x, r) = Route (lookup_Router sl) key
      in (x, st[ck_lookup ck := sl\<lparr>sl_counter := rrCounters r\<rparr>]))"

definition clerk_RouteAll :: "clerk \<Rightarrow> string \<Rightarrow> store \<Rightarrow> squid list result" where
  "clerk_RouteAll ck key st = RouteAll (lookup_Router (clerk_Lookup ck st)) key"

definition clerk_RouteTwoLevel :: "clerk \<Rightarrow> string \<Rightarrow> string \<Rightarrow> store \<Rightarrow> squid result" where
  "clerk_RouteTwoLevel ck primaryKey secondaryKey st =
     RouteTwoLevel (lookup_Router (clerk_Lookup ck st)) primaryKey secondaryKey"

definition clerk_RouteWithRetry :: "clerk \<Rightarrow> string \<Rightarrow> squid list \<Rightarrow> store \<Rightarrow> squid result" where
  "clerk_RouteWithRetry ck key tried st = RouteWithRetry (lookup_Router (clerk_Lookup ck st)) key tried"

definition clerk_Assignment :: "clerk \<Rightarrow> store \<Rightarrow> assignment option" where
  "clerk_Assignment ck st = router_Assignment (lookup_Router (clerk_Lookup ck st))"

text \<open>\<open>Close\<close> is \<open>Stop\<close> of the lookup, whoever else uses it.\<close>

definition clerk_Close :: "clerk \<Rightarrow> store \<Rightarrow> store \<Rightarrow> bool" where
  "clerk_Close ck st st' \<longleftrightarrow> (\<exists>sl'. client_step (clerk_Lookup ck st) Stop sl' \<and> st' = st[ck_lookup ck := sl'])"

text \<open>The operations that change a lookup are steps of it.\<close>

lemma clerk_Route_step:
  assumes "clerk_Route ck key st = (x, st')"
  shows "\<exists>sl'. client_step (clerk_Lookup ck st) (RouteKey key x) sl' \<and> st' = st[ck_lookup ck := sl']"
  using assms client_step.route by (fastforce simp: clerk_Route_def Let_def split: prod.splits)

lemma clerk_Close_step:
  "clerk_Close ck st st' \<longleftrightarrow> st' = st[ck_lookup ck := lookup_cancel (clerk_Lookup ck st)]"
  by (auto simp: clerk_Close_def elim: client_step.cases intro: client_step.stop)

section \<open>The process\<close>

text \<open>
  \<open>Close\<close> of the cache holds the cache's mutex from its first to its last step, so \<open>GetOrCreate\<close> waits for
  it; it stops the lookups one after the other, in the order in which the map is iterated, and waits for
  each.
\<close>

datatype close_pc = CacheOpen | StoppingAll "nat list" | WaitingFor nat "nat list"

record process =
  pr_store :: store
  pr_cache :: lookup_cache
  pr_close :: close_pc

definition new_process :: process where
  "new_process = \<lparr>pr_store = [], pr_cache = NewSliceLookupCache, pr_close = CacheOpen\<rparr>"

datatype process_label =
    GetLookup string config nat
  | MakeClerk nat
  | InLookup nat lookup_label
  | CloseCall "nat list"
  | CloseCancel nat
  | CloseWaited nat
  | CloseReturn

inductive proc_step :: "runtime \<Rightarrow> process \<Rightarrow> process_label \<Rightarrow> process \<Rightarrow> bool" for env :: runtime where
  get: "pr_close p = CacheOpen \<Longrightarrow>
    GetOrCreate rng target clientName cfg opts (pr_cache p) (pr_store p) = (ptr, c, st) \<Longrightarrow>
    proc_step env p (GetLookup target cfg ptr) (p\<lparr>pr_cache := c, pr_store := st\<rparr>)"
| clerk: "NewClerk rng target clientName cfg opts (pr_store p) = (ck, st) \<Longrightarrow>
    proc_step env p (MakeClerk (ck_lookup ck)) (p\<lparr>pr_store := st\<rparr>)"
| inner: "i < length (pr_store p) \<Longrightarrow> lk_step env (pr_store p ! i) l sl' \<Longrightarrow>
    proc_step env p (InLookup i l) (p\<lparr>pr_store := (pr_store p)[i := sl']\<rparr>)"
| close_call: "pr_close p = CacheOpen \<Longrightarrow> mset ptrs = mset (map snd (lc_cache (pr_cache p))) \<Longrightarrow>
    proc_step env p (CloseCall ptrs) (p\<lparr>pr_close := StoppingAll ptrs\<rparr>)"
| close_cancel: "pr_close p = StoppingAll (i # ptrs) \<Longrightarrow>
    proc_step env p (CloseCancel i)
      (p\<lparr>pr_store := (pr_store p)[i := lookup_cancel (pr_store p ! i)], pr_close := WaitingFor i ptrs\<rparr>)"
| close_waited: "pr_close p = WaitingFor i ptrs \<Longrightarrow>
    sl_ctx (pr_store p ! i) = NotStarted \<or> sl_loop (pr_store p ! i) = LoopDone \<Longrightarrow>
    proc_step env p (CloseWaited i) (p\<lparr>pr_close := StoppingAll ptrs\<rparr>)"
| close_return: "pr_close p = StoppingAll [] \<Longrightarrow>
    proc_step env p CloseReturn (p\<lparr>pr_cache := NewSliceLookupCache, pr_close := CacheOpen\<rparr>)"

abbreviation proc_run :: "runtime \<Rightarrow> process \<Rightarrow> process_label list \<Rightarrow> process \<Rightarrow> bool" where
  "proc_run env \<equiv> run_of (proc_step env)"

lemmas proc_run_nil = run_of.run_nil [of "proc_step env" for env]
  and proc_run_snoc = run_of.run_snoc [of "proc_step env" for env]
  and proc_run_trans = run_trans [of "proc_step env" for env]

section \<open>Invariants\<close>

text \<open>A lookup that came about by the constructor and the steps of \<open>SliceLookup\<close>.\<close>

definition grown :: "runtime \<Rightarrow> slice_lookup \<Rightarrow> bool" where
  "grown env sl \<longleftrightarrow> (\<exists>t n cfg opts rng ls. lk_run env (NewSliceLookup t n cfg opts rng) ls sl)"

lemma grown_step: "grown env sl \<Longrightarrow> lk_step env sl l sl' \<Longrightarrow> grown env sl'"
  unfolding grown_def by (blast intro: lk_run_snoc)

lemma grown_new: "grown env (NewSliceLookup t n cfg opts rng)"
  unfolding grown_def using lk_run_nil by blast

lemma grown_started: "grown env (lookup_Start (NewSliceLookup t n cfg opts rng))"
  using grown_step [OF grown_new lk_step.client [OF client_step.start]] .

lemma cancel_step: "lk_step env sl (Client Stop) (lookup_cancel sl)"
  by (intro lk_step.client client_step.stop)

lemma grown_life: "grown env sl \<Longrightarrow> life_inv sl"
  by (auto simp: grown_def dest: lookup_inv(1))

definition serves :: "store \<Rightarrow> string \<times> nat \<Rightarrow> bool" where
  "serves st e \<longleftrightarrow>
     snd e < length st \<and> cacheKey (sl_target (st ! snd e)) (sl_cfg (st ! snd e)) = fst e
     \<and> sl_ctx (st ! snd e) \<noteq> NotStarted"

fun to_stop :: "close_pc \<Rightarrow> nat set option" where
  "to_stop CacheOpen = None"
| "to_stop (StoppingAll ptrs) = Some (set ptrs)"
| "to_stop (WaitingFor i ptrs) = Some (insert i (set ptrs))"

definition proc_inv :: "runtime \<Rightarrow> process \<Rightarrow> bool" where
  "proc_inv env p \<longleftrightarrow>
     (\<forall>sl \<in> set (pr_store p). grown env sl)
     \<and> distinct (map fst (lc_cache (pr_cache p)))
     \<and> (\<forall>e \<in> set (lc_cache (pr_cache p)). serves (pr_store p) e)
     \<and> (\<forall>is. to_stop (pr_close p) = Some is \<longrightarrow>
          (\<forall>e \<in> set (lc_cache (pr_cache p)). snd e \<in> is \<or> sl_loop (pr_store p ! snd e) = LoopDone)
          \<and> is \<subseteq> snd ` set (lc_cache (pr_cache p)))
     \<and> (\<forall>i ptrs. pr_close p = WaitingFor i ptrs \<longrightarrow> sl_ctx (pr_store p ! i) = Cancelled)"

lemma serves_append: "serves st e \<Longrightarrow> serves (st @ st') e"
  by (auto simp: serves_def nth_append)

lemma serves_update:
  "serves st e \<Longrightarrow> lk_step env (st ! i) l sl' \<Longrightarrow> serves (st[i := sl']) e"
  using lk_step_identity [of env "st ! i" l sl'] by (cases "i = snd e") (auto simp: serves_def)

lemma loop_done_update:
  assumes "sl_loop (st ! j) = LoopDone" and "grown env (st ! i)" and "lk_step env (st ! i) l sl'" and "i < length st"
  shows "sl_loop (st[i := sl'] ! j) = LoopDone"
  using assms done_step [OF assms(3) grown_life [OF assms(2)]] by (cases "i = j") auto

lemma AList_update_new: "map_of xs k = None \<Longrightarrow> AList.update k v xs = xs @ [(k, v)]"
  by (induction xs) (auto split: if_splits)

lemma GetOrCreate_cases:
  assumes "GetOrCreate rng target clientName cfg opts c st = (ptr, c', st')"
  obtains (hit) "map_of (lc_cache c) (cacheKey target cfg) = Some ptr" "c' = c" "st' = st"
    | (miss) "map_of (lc_cache c) (cacheKey target cfg) = None" "ptr = length st"
      "lc_cache c' = lc_cache c @ [(cacheKey target cfg, ptr)]"
      "st' = st @ [lookup_Start (NewSliceLookup target clientName cfg opts rng)]"
  using assms
  by (cases "map_of (lc_cache c) (cacheKey target cfg)") (auto simp: GetOrCreate_def Let_def AList_update_new)

lemma started_simps [simp]:
  "sl_target (lookup_Start sl) = sl_target sl" "sl_cfg (lookup_Start sl) = sl_cfg sl"
  "sl_ctx (lookup_Start sl) \<noteq> NotStarted"
  by (simp_all add: lookup_Start_def)

lemma proc_inv_update:
  assumes "proc_inv env p" and "i < length (pr_store p)" and "lk_step env (pr_store p ! i) l sl'"
  shows "proc_inv env (p\<lparr>pr_store := (pr_store p)[i := sl']\<rparr>)"
proof -
  have grown: "grown env (pr_store p ! i)" "\<forall>sl \<in> set ((pr_store p)[i := sl']). grown env sl"
    using assms grown_step [OF _ assms(3)] by (auto simp: proc_inv_def dest!: set_update_subset_insert [THEN subsetD])
  have "sl_ctx ((pr_store p)[i := sl'] ! j) = Cancelled" if "sl_ctx (pr_store p ! j) = Cancelled" for j
    using that assms(2) lk_step_identity [OF assms(3)] by (cases "j = i") auto
  then show ?thesis
    using assms(1) grown(2) serves_update [OF _ assms(3)] loop_done_update [OF _ grown(1) assms(3,2)]
    by (simp add: proc_inv_def) blast
qed

lemma proc_inv_step:
  assumes "proc_step env p l p'" and "proc_inv env p"
  shows "proc_inv env p'"
  using assms(1)
proof (cases rule: proc_step.cases)
  case (get rng target clientName cfg opts ptr c st)
  show ?thesis
    using get(4)
  proof (cases rule: GetOrCreate_cases)
    case hit
    then show ?thesis using get assms(2) by simp
  next
    case miss
    have "serves st (cacheKey target cfg, ptr)"
      using miss by (simp add: serves_def)
    then show ?thesis
      using get(2,3) miss assms(2) serves_append grown_started
      by (auto simp: proc_inv_def map_of_eq_None_iff)
  qed
next
  case (clerk rng target clientName cfg opts ck st)
  then have "st = pr_store p @ [lookup_Start (NewSliceLookup target clientName cfg opts rng)]"
    by (simp add: NewClerk_def)
  then show ?thesis
    using clerk(2) assms(2) serves_append grown_started by (fastforce simp: proc_inv_def serves_def nth_append)
next
  case (inner i l sl')
  then show ?thesis using proc_inv_update assms(2) by blast
next
  case (close_call ptrs)
  have "set ptrs = snd ` set (lc_cache (pr_cache p))"
    using close_call(4) by (metis image_set set_mset_mset)
  then show ?thesis using close_call(2) assms(2) by (auto simp: proc_inv_def)
next
  case (close_cancel i ptrs)
  then obtain e where "e \<in> set (lc_cache (pr_cache p))" "i = snd e"
    using assms(2) by (auto simp: proc_inv_def)
  then have i: "i < length (pr_store p)"
    using assms(2) by (auto simp: proc_inv_def serves_def)
  have "sl_ctx (pr_store p ! i) \<noteq> NotStarted"
    using \<open>e \<in> _\<close> \<open>i = snd e\<close> assms(2) by (auto simp: proc_inv_def serves_def)
  with proc_inv_update [OF assms(2) i cancel_step] show ?thesis
    using close_cancel(2,3) i by (simp add: proc_inv_def lookup_cancel_def)
next
  case (close_waited i ptrs)
  have "sl_loop (pr_store p ! i) = LoopDone"
    using close_waited(3,4) assms(2) by (fastforce simp: proc_inv_def serves_def)
  then show ?thesis using close_waited(2,3) assms(2) by (auto simp: proc_inv_def)
next
  case close_return
  then show ?thesis using assms(2) by (simp add: proc_inv_def NewSliceLookupCache_def)
qed

lemma proc_inv_grown: "proc_inv env p \<Longrightarrow> i < length (pr_store p) \<Longrightarrow> grown env (pr_store p ! i)"
  by (simp add: proc_inv_def)

lemma proc_inv_new: "proc_inv env new_process"
  by (simp add: proc_inv_def new_process_def NewSliceLookupCache_def)

lemma proc_inv_run: "proc_run env p ls p' \<Longrightarrow> proc_inv env p \<Longrightarrow> proc_inv env p'"
  by (erule run_invariant) (auto intro: proc_inv_step)

lemma proc_step_lookup:
  assumes "proc_step env p l p'" and "proc_inv env p" and "i < length (pr_store p)"
  shows "i < length (pr_store p') \<and> (\<exists>ls. lk_run env (pr_store p ! i) ls (pr_store p' ! i))"
  using assms(1)
proof (cases rule: proc_step.cases)
  case (get rng target clientName cfg opts ptr c st)
  from get(4) have "i < length st \<and> st ! i = pr_store p ! i"
    using assms(3) by (cases rule: GetOrCreate_cases) (simp_all add: nth_append)
  then show ?thesis using get(2) lk_run_nil by auto
next
  case (clerk rng target clientName cfg opts ck st)
  then have "i < length st \<and> st ! i = pr_store p ! i"
    using assms(3) by (auto simp: NewClerk_def nth_append)
  then show ?thesis using clerk(2) lk_run_nil by auto
next
  case (inner j l sl')
  have "lk_run env (pr_store p ! j) [l] sl'"
    using lk_run_snoc [OF lk_run_nil inner(4)] by simp
  then show ?thesis using inner(2) assms(3) lk_run_nil by (cases "i = j") auto
next
  case (close_cancel j ptrs)
  have "lk_run env (pr_store p ! j) [Client Stop] (lookup_cancel (pr_store p ! j))"
    using lk_run_snoc [OF lk_run_nil cancel_step] by simp
  then show ?thesis using close_cancel(2) assms(3) lk_run_nil by (cases "i = j") auto
qed (use assms(3) lk_run_nil in auto)

lemma proc_run_lookup:
  "proc_run env p ls p' \<Longrightarrow> proc_inv env p \<Longrightarrow> i < length (pr_store p) \<Longrightarrow>
     i < length (pr_store p') \<and> (\<exists>ls. lk_run env (pr_store p ! i) ls (pr_store p' ! i))"
proof (induction rule: run_of.induct)
  case run_nil
  then show ?case using lk_run_nil by blast
next
  case (run_snoc ls p' l p'')
  then have mid: "i < length (pr_store p')" "\<exists>ls. lk_run env (pr_store p ! i) ls (pr_store p' ! i)"
    by blast+
  show ?case
    using proc_step_lookup [OF run_snoc.hyps(2) proc_inv_run [OF run_snoc.hyps(1) run_snoc.prems(1)] mid(1)]
      mid(2) lk_run_trans by blast
qed

lemma proc_step_entries:
  assumes "proc_step env p l p'" and "e \<in> set (lc_cache (pr_cache p))" and "l \<noteq> CloseReturn"
  shows "e \<in> set (lc_cache (pr_cache p'))"
  using assms(1)
proof (cases rule: proc_step.cases)
  case (get rng target clientName cfg opts ptr c st)
  from get(4) show ?thesis
    using get(2) assms(2) by (cases rule: GetOrCreate_cases) simp_all
qed (use assms(2,3) in auto)

lemma proc_run_entries:
  "proc_run env p ls p' \<Longrightarrow> e \<in> set (lc_cache (pr_cache p)) \<Longrightarrow> CloseReturn \<notin> set ls \<Longrightarrow>
     e \<in> set (lc_cache (pr_cache p'))"
  by (induction rule: run_of.induct) (auto dest: proc_step_entries)

lemma get_entry:
  assumes "proc_step env p (GetLookup t cfg ptr) p'"
  shows "(cacheKey t cfg, ptr) \<in> set (lc_cache (pr_cache p'))"
  using assms
proof (cases rule: proc_step.cases)
  case (get rng n opts c st)
  from get(3) show ?thesis
    using get(1) by (cases rule: GetOrCreate_cases) (auto dest: map_of_SomeD)
qed

lemma get_hit:
  assumes "proc_step env p (GetLookup t cfg ptr') p'" and "proc_inv env p"
    and "(cacheKey t cfg, ptr) \<in> set (lc_cache (pr_cache p))"
  shows "ptr' = ptr \<and> p' = p"
  using assms(1)
proof (cases rule: proc_step.cases)
  case (get rng n opts c st)
  have "map_of (lc_cache (pr_cache p)) (cacheKey t cfg) = Some ptr"
    using assms(2,3) by (simp add: proc_inv_def)
  with get(3) show ?thesis
    using get(1) by (cases rule: GetOrCreate_cases) simp_all
qed

text \<open>One pointer serves one key.\<close>

lemma serves_key: "serves st (k, ptr) \<Longrightarrow> serves st (k', ptr) \<Longrightarrow> k = k'"
  by (simp add: serves_def)

lemma lift_run:
  assumes "i < length (pr_store p)"
  shows "lk_run env (pr_store p ! i) ls sl \<Longrightarrow>
    proc_run env p (map (InLookup i) ls) (p\<lparr>pr_store := (pr_store p)[i := sl]\<rparr>)"
proof (induction rule: run_of.induct)
  case run_nil
  show ?case using proc_run_nil by simp
next
  case (run_snoc ls sl l sl')
  have "proc_step env (p\<lparr>pr_store := (pr_store p)[i := sl]\<rparr>) (InLookup i l) (p\<lparr>pr_store := (pr_store p)[i := sl']\<rparr>)"
    using proc_step.inner [of i "p\<lparr>pr_store := (pr_store p)[i := sl]\<rparr>" env l sl'] assms run_snoc.hyps(2) by simp
  then show ?case using proc_run_snoc run_snoc.IH by fastforce
qed

lemma waiting_ends:
  assumes "proc_inv env p" and "pr_close p = WaitingFor i ptrs"
  shows "\<exists>ls p'. proc_run env p ls p' \<and> pr_close p' = StoppingAll ptrs"
proof -
  have i: "i < length (pr_store p)" "sl_ctx (pr_store p ! i) = Cancelled"
    using assms by (auto simp: proc_inv_def serves_def)
  have life: "life_inv (pr_store p ! i)"
    using proc_inv_grown [OF assms(1) i(1)] by (rule grown_life)
  obtain ls sl where run: "lk_run env (pr_store p ! i) ls sl" "sl_loop sl = LoopDone"
    using loop_ends [OF life i(2)] by blast
  let ?p = "p\<lparr>pr_store := (pr_store p)[i := sl]\<rparr>"
  have "proc_step env ?p (CloseWaited i) (?p\<lparr>pr_close := StoppingAll ptrs\<rparr>)"
    using assms(2) i(1) run(2) by (intro proc_step.close_waited) simp_all
  from proc_run_snoc [OF lift_run [OF i(1) run(1)] this] show ?thesis
    by fastforce
qed

lemma stopping_ends:
  "proc_inv env p \<Longrightarrow> pr_close p = StoppingAll ptrs \<Longrightarrow> \<exists>ls p'. proc_run env p ls p' \<and> pr_close p' = CacheOpen"
proof (induction ptrs arbitrary: p)
  case Nil
  from proc_run_snoc [OF proc_run_nil proc_step.close_return [OF Nil.prems(2)]] show ?case by fastforce
next
  case (Cons i ptrs)
  let ?p = "p\<lparr>pr_store := (pr_store p)[i := lookup_cancel (pr_store p ! i)], pr_close := WaitingFor i ptrs\<rparr>"
  have step: "proc_step env p (CloseCancel i) ?p"
    using proc_step.close_cancel [OF Cons.prems(2)] .
  obtain ls p1 where p1: "proc_run env ?p ls p1" "pr_close p1 = StoppingAll ptrs"
    using waiting_ends [of env ?p i ptrs] proc_inv_step [OF step Cons.prems(1)] by auto
  then obtain ls' p' where "proc_run env p1 ls' p'" "pr_close p' = CacheOpen"
    using Cons.IH proc_inv_run proc_inv_step [OF step Cons.prems(1)] by blast
  then show ?case
    using proc_run_trans p1(1) proc_run_snoc [OF proc_run_nil step] by blast
qed

lemma close_can_return:
  assumes "proc_inv env p"
  shows "\<exists>ls p'. proc_run env p ls p' \<and> pr_close p' = CacheOpen"
proof (cases "pr_close p")
  case CacheOpen
  then show ?thesis using proc_run_nil by blast
next
  case (StoppingAll ptrs)
  then show ?thesis using stopping_ends assms by blast
next
  case (WaitingFor i ptrs)
  then obtain ls p1 where "proc_run env p ls p1" "pr_close p1 = StoppingAll ptrs"
    using waiting_ends assms by blast
  then show ?thesis using stopping_ends proc_inv_run assms proc_run_trans by blast
qed

lemma clerk_Route_fst: "fst (clerk_Route ck key st) = fst (Route (lookup_Router (clerk_Lookup ck st)) key)"
  by (simp add: clerk_Route_def Let_def split_beta)

lemmas process_inv = proc_inv_run [OF _ proc_inv_new]

section \<open>Sample processes\<close>

abbreviation sample_config :: config where
  "sample_config \<equiv> DefaultStateMachineConfig"

abbreviation sample_cache :: lookup_cache where
  "sample_cache \<equiv> \<lparr>lc_cache = [(cacheKey ''target'' sample_config, 0)]\<rparr>"

abbreviation sample_process :: "slice_lookup \<Rightarrow> close_pc \<Rightarrow> process" where
  "sample_process sl pc \<equiv> \<lparr>pr_store = [sl], pr_cache = sample_cache, pr_close = pc\<rparr>"

lemma sample_get:
  "proc_step sample_runtime new_process (GetLookup ''target'' sample_config 0) (sample_process sample_started CacheOpen)"
proof -
  have "GetOrCreate (\<lambda>_. 0) ''target'' ''client'' sample_config [] NewSliceLookupCache [] = (0, sample_cache, [sample_started])"
    using sample_starts by (simp add: GetOrCreate_def NewSliceLookupCache_def sample_lookup_def)
  then show ?thesis
    using proc_step.get [of new_process "\<lambda>_. 0" "''target''" "''client''" sample_config "[]" 0 sample_cache "[sample_started]"]
    by (simp add: new_process_def)
qed

lemma sample_get_again:
  "proc_step env (sample_process sl CacheOpen) (GetLookup ''target'' sample_config 0) (sample_process sl CacheOpen)"
  using proc_step.get [of "sample_process sl CacheOpen" "\<lambda>_. 0" "''target''" "''client''" sample_config "[]" 0 sample_cache "[sl]" env]
  by (simp add: GetOrCreate_def)

lemmas sample_cached = proc_run_snoc [OF proc_run_nil sample_get, unfolded append_Nil]

text \<open>Two different targets with one key: the separator may occur in a target.\<close>

lemma cache_key_ambiguous:
  "cacheKey ''a|b'' (cfg\<lparr>DefaultWatchAddress := ''c''\<rparr>) = cacheKey ''a'' (cfg\<lparr>DefaultWatchAddress := ''b|c''\<rparr>)"
  by (simp add: cacheKey_def)

section \<open>Properties\<close>

text \<open>
  C2: What a client sees: once a clerk is ready it stays ready, however the process runs on, and every key
  is routed, without an error or a panic, by the assignment the clerk shows: \<open>RouteAll\<close> returns exactly the
  pods that own the key, at least one; \<open>Route\<close> and \<open>RouteTwoLevel\<close> return one of them; and \<open>RouteWithRetry\<close>
  returns one of them that has not been tried, or else reports that every pod prints like one that has.
\<close>

theorem ready_clerk_routes:
  assumes "proc_run env new_process ls p" and "ck_lookup ck < length (pr_store p)"
    and "clerk_Ready ck (pr_store p)" and "proc_run env p ls' p'"
  shows "clerk_WaitReady ck (pr_store p') ctxDone WaitNil
    \<and> (\<exists>a. clerk_Assignment ck (pr_store p') = Some a
      \<and> (\<forall>key. \<exists>rs. clerk_RouteAll ck key (pr_store p') = Inr rs \<and> rs \<noteq> []
          \<and> (\<forall>sq. IsAssignedKey a (NewSliceKeyFromString key) sq = Inr (sq \<in> set rs))
          \<and> (\<exists>sq \<in> set rs. fst (clerk_Route ck key (pr_store p')) = Inr sq)
          \<and> (\<forall>key2. \<exists>sq \<in> set rs. clerk_RouteTwoLevel ck key key2 (pr_store p') = Inr sq)
          \<and> (\<forall>tried. case clerk_RouteWithRetry ck key tried (pr_store p') of
                Inr sq \<Rightarrow> sq \<in> set rs \<and> sq \<notin> set tried
              | Inl f \<Rightarrow> f = Error AllReplicasExhausted \<and> squid_String ` set rs \<subseteq> squid_String ` set tried)))"
proof -
  let ?sl = "clerk_Lookup ck (pr_store p)" and ?sl' = "clerk_Lookup ck (pr_store p')"
  obtain t n cfg opts rng ls0 where grown: "lk_run env (NewSliceLookup t n cfg opts rng) ls0 ?sl"
    using proc_inv_grown [OF process_inv [OF assms(1)] assms(2)] by (auto simp: grown_def clerk_Lookup_def)
  obtain ls1 where "lk_run env ?sl ls1 ?sl'"
    using proc_run_lookup [OF assms(4) process_inv [OF assms(1)] assms(2)] by (auto simp: clerk_Lookup_def)
  from ready_means_routable [OF grown _ this] assms(3)
  obtain a where a: "lookup_Ready ?sl'" "cell_Get (r_cell (lookup_Router ?sl')) = Some a" "valid_assignment a"
    by (auto simp: clerk_Ready_def router_Assignment_def)
  have "\<exists>rs. clerk_RouteAll ck key (pr_store p') = Inr rs \<and> rs \<noteq> []
        \<and> (\<forall>sq. IsAssignedKey a (NewSliceKeyFromString key) sq = Inr (sq \<in> set rs))
        \<and> (\<exists>sq \<in> set rs. fst (clerk_Route ck key (pr_store p')) = Inr sq)
        \<and> (\<forall>key2. \<exists>sq \<in> set rs. clerk_RouteTwoLevel ck key key2 (pr_store p') = Inr sq)
        \<and> (\<forall>tried. case clerk_RouteWithRetry ck key tried (pr_store p') of
              Inr sq \<Rightarrow> sq \<in> set rs \<and> sq \<notin> set tried
            | Inl f \<Rightarrow> f = Error AllReplicasExhausted \<and> squid_String ` set rs \<subseteq> squid_String ` set tried)" for key
    unfolding clerk_RouteAll_def clerk_Route_fst clerk_RouteTwoLevel_def clerk_RouteWithRetry_def by (rule routed_by_assignment [OF a(2,3)])
  moreover have "clerk_WaitReady ck (pr_store p') ctxDone WaitNil" "clerk_Assignment ck (pr_store p') = Some a"
    using a(1,2) by (simp_all add: clerk_WaitReady_def clerk_Assignment_def router_Assignment_def WaitReady.simps)
  ultimately show ?thesis by blast
qed

theorem ready_clerk_routes_witness:
  "\<exists>ls p rs. proc_run sample_runtime new_process ls p
     \<and> clerk_RouteAll \<lparr>ck_lookup = 0\<rparr> ''k'' (pr_store p) = Inr rs \<and> rs \<noteq> []"
proof -
  obtain ls sl where sl: "lk_run sample_runtime sample_started ls sl" "sl_ready sl"
    using sample_receives_started by blast
  have "\<exists>ls. proc_run sample_runtime new_process ls (sample_process sl CacheOpen)"
    using proc_run_trans [OF lift_run sample_cached, of 0] sl(1) by fastforce
  then obtain ls where run: "proc_run sample_runtime new_process ls (sample_process sl CacheOpen)" ..
  moreover have "clerk_Ready \<lparr>ck_lookup = 0\<rparr> (pr_store (sample_process sl CacheOpen))"
    using sl(2) by (simp add: clerk_Ready_def clerk_Lookup_def lookup_Ready_def)
  ultimately show ?thesis
    using ready_clerk_routes [OF run _ _ proc_run_nil, of "\<lparr>ck_lookup = 0\<rparr>"] by fastforce
qed

text \<open>
  C23: The cache shares lookups: as long as it is not closed, two requests get the same lookup exactly if
  their keys are equal; the second request then starts nothing and leaves the size alone. The lookup
  handed out has been started and watches a target and an address with that key.
\<close>

theorem cache_shares:
  assumes "proc_run env new_process ls p" and "proc_step env p (GetLookup t cfg ptr) p1"
    and "proc_run env p1 ls' p2" and "CloseReturn \<notin> set ls'" and "proc_step env p2 (GetLookup t' cfg' ptr') p3"
  shows "(ptr' = ptr \<longleftrightarrow> cacheKey t' cfg' = cacheKey t cfg)
    \<and> (ptr' = ptr \<longrightarrow> p3 = p2)
    \<and> cache_Size (pr_cache p3) = card (fst ` set (lc_cache (pr_cache p3)))
    \<and> (let sl = pr_store p3 ! ptr' in ptr' < length (pr_store p3) \<and> sl_ctx sl \<noteq> NotStarted
        \<and> cacheKey (sl_target sl) (sl_cfg sl) = cacheKey t' cfg')"
proof -
  have inv: "proc_inv env p1" "proc_inv env p2" "proc_inv env p3"
    using process_inv [OF assms(1)] proc_inv_step [OF assms(2)] proc_inv_run [OF assms(3)] proc_inv_step [OF assms(5)]
    by blast+
  have old: "(cacheKey t cfg, ptr) \<in> set (lc_cache (pr_cache p2))"
    using proc_run_entries [OF assms(3) get_entry [OF assms(2)] assms(4)] .
  have new: "(cacheKey t' cfg', ptr') \<in> set (lc_cache (pr_cache p3))"
    using get_entry [OF assms(5)] .
  then have serves: "serves (pr_store p3) (cacheKey t' cfg', ptr')" "serves (pr_store p3) (cacheKey t cfg, ptr)"
    using inv(3) proc_step_entries [OF assms(5) old] by (simp_all add: proc_inv_def)
  have hit: "ptr' = ptr \<and> p3 = p2" if "cacheKey t' cfg' = cacheKey t cfg"
    using get_hit [OF assms(5) inv(2)] old that by simp
  have key: "cacheKey t' cfg' = cacheKey t cfg" if "ptr' = ptr"
    using serves that by (intro serves_key) simp_all
  have "cache_Size (pr_cache p3) = card (fst ` set (lc_cache (pr_cache p3)))"
    using inv(3) by (simp add: proc_inv_def cache_Size_def) (metis distinct_card length_map set_map)
  moreover have "let sl = pr_store p3 ! ptr' in ptr' < length (pr_store p3) \<and> sl_ctx sl \<noteq> NotStarted
        \<and> cacheKey (sl_target sl) (sl_cfg sl) = cacheKey t' cfg'"
    using serves(1) by (simp add: serves_def Let_def)
  ultimately show ?thesis
    using hit key by blast
qed

theorem cache_shares_witness:
  "cache_Size (pr_cache (sample_process sample_started CacheOpen)) = 1"
proof -
  have "cache_Size (pr_cache (sample_process sample_started CacheOpen))
      = card (fst ` set (lc_cache (pr_cache (sample_process sample_started CacheOpen))))"
    using cache_shares [OF proc_run_nil sample_get proc_run_nil _ sample_get_again] by simp
  then show ?thesis by simp
qed

text \<open>When \<open>Close\<close> returns, every lookup that was cached has been cancelled and its loop has ended.\<close>

lemma close_return_stopped:
  assumes "proc_inv env p" and "proc_step env p CloseReturn p'" and "e \<in> set (lc_cache (pr_cache p))"
  shows "snd e < length (pr_store p) \<and> sl_ctx (pr_store p ! snd e) = Cancelled
    \<and> sl_loop (pr_store p' ! snd e) = LoopDone \<and> IsCancelled (sl_sm (pr_store p' ! snd e))"
  using assms(2)
proof (cases rule: proc_step.cases)
  case close_return
  have "snd e < length (pr_store p)" "sl_loop (pr_store p ! snd e) = LoopDone"
    using assms(1,3) close_return(2) by (auto simp: proc_inv_def serves_def)
  then show ?thesis
    using grown_life [OF proc_inv_grown [OF assms(1)]] close_return(1) by (simp add: life_inv_def IsCancelled_def)
qed

text \<open>
  C40: A clerk that closes a shared lookup closes it for everyone, for good: every later request for the key
  gets the cancelled lookup back, which never runs again, until the cache itself is closed.
\<close>

theorem closed_lookup_stays_cached:
  assumes "proc_run env new_process ls p" and "proc_step env p (GetLookup t cfg ptr) p1"
    and "clerk_Close \<lparr>ck_lookup = ptr\<rparr> (pr_store p1) st" and "proc_run env (p1\<lparr>pr_store := st\<rparr>) ls' p2"
    and "CloseReturn \<notin> set ls'" and "proc_step env p2 (GetLookup t cfg ptr') p3"
  shows "ptr' = ptr \<and> sl_ctx (pr_store p3 ! ptr') = Cancelled"
proof -
  have inv1: "proc_inv env p1"
    using process_inv [OF assms(1)] proc_inv_step [OF assms(2)] by blast
  have entry: "(cacheKey t cfg, ptr) \<in> set (lc_cache (pr_cache p1))"
    using get_entry [OF assms(2)] .
  then have ptr: "ptr < length (pr_store p1)" "sl_ctx (pr_store p1 ! ptr) \<noteq> NotStarted"
    using inv1 by (auto simp: proc_inv_def serves_def)
  let ?p = "p1\<lparr>pr_store := st\<rparr>"
  obtain sl' where close: "client_step (pr_store p1 ! ptr) Stop sl'" "st = (pr_store p1)[ptr := sl']"
    using assms(3) by (auto simp: clerk_Close_def clerk_Lookup_def)
  have inv: "proc_inv env ?p"
    using proc_inv_update [OF inv1 ptr(1) lk_step.client [OF close(1)]] close(2) by simp
  have "sl' = lookup_cancel (pr_store p1 ! ptr)"
    using close(1) by (cases rule: client_step.cases) simp
  then have "sl_ctx (pr_store ?p ! ptr) = Cancelled"
    using ptr close(2) by (simp add: lookup_cancel_def)
  then have "sl_ctx (pr_store p2 ! ptr) = Cancelled"
    using proc_run_lookup [OF assms(4) inv] ptr(1) close(2) lk_run_identity by fastforce
  moreover have "(cacheKey t cfg, ptr) \<in> set (lc_cache (pr_cache p2))"
    using proc_run_entries [OF assms(4) _ assms(5)] entry by simp
  ultimately show ?thesis
    using get_hit [OF assms(6) proc_inv_run [OF assms(4) inv]] by blast
qed

theorem closed_lookup_stays_cached_witness:
  "\<exists>p2 p3 ptr'. proc_step sample_runtime p2 (GetLookup ''target'' sample_config ptr') p3
     \<and> ptr' = 0 \<and> sl_ctx (pr_store p3 ! ptr') = Cancelled"
proof -
  let ?p = "sample_process (lookup_cancel sample_started) CacheOpen"
  have close: "clerk_Close \<lparr>ck_lookup = 0\<rparr> (pr_store (sample_process sample_started CacheOpen))
      [lookup_cancel sample_started]"
    using client_step.stop [of sample_started] by (auto simp: clerk_Close_def clerk_Lookup_def)
  have none: "proc_run sample_runtime ((sample_process sample_started CacheOpen)\<lparr>pr_store := [lookup_cancel sample_started]\<rparr>) [] ?p"
    using proc_run_nil [of sample_runtime ?p] by simp
  show ?thesis
    using closed_lookup_stays_cached [OF proc_run_nil sample_get close none _ sample_get_again]
      sample_get_again [of sample_runtime "lookup_cancel sample_started"]
    by (intro exI [of _ ?p] exI [of _ 0]) auto
qed

end
