(* ===== verification/Fairness.thy ===== *)
theory Fairness
  imports Prelude
begin

text \<open>
  Infinite runs of a step relation, the two fairness conditions on them, and the rules by which something
  is shown to happen eventually.
\<close>

section \<open>Infinite runs\<close>

definition path :: "('s \<Rightarrow> 'l \<Rightarrow> 's \<Rightarrow> bool) \<Rightarrow> (nat \<Rightarrow> 's) \<Rightarrow> (nat \<Rightarrow> 'l) \<Rightarrow> bool" where
  "path step st lab \<longleftrightarrow> (\<forall>k. step (st k) (lab k) (st (Suc k)))"

lemma path_step: "path step st lab \<Longrightarrow> step (st k) (lab k) (st (Suc k))"
  by (simp add: path_def)

lemma path_run:
  assumes "path step st lab" and "k \<le> j"
  shows "run_of step (st k) (map lab [k..<j]) (st j)"
  using assms(2)
proof (induction rule: dec_induct)
  case (step i)
  then show ?case using run_of.run_snoc [OF step.IH path_step [OF assms(1)]] by simp
qed simp

lemma first_change:
  fixes P :: "nat \<Rightarrow> bool"
  assumes "P k" and "\<not> P j" and "k \<le> j"
  shows "\<exists>i. k \<le> i \<and> i < j \<and> P i \<and> \<not> P (Suc i)"
proof (rule ccontr)
  assume stays: "\<nexists>i. k \<le> i \<and> i < j \<and> P i \<and> \<not> P (Suc i)"
  have "i \<le> j \<longrightarrow> P i" if "k \<le> i" for i
    using that by (induction rule: dec_induct) (use assms(1) stays in auto)
  then show False using assms(2,3) by blast
qed

text \<open>A finite run whose last state has a step to itself goes on for ever.\<close>

lemma run_stutters:
  assumes "run_of step s ls s'" and "step s' l s'"
  shows "\<exists>st lab. path step st lab \<and> st 0 = s \<and> (\<forall>k \<ge> length ls. st k = s' \<and> lab k = l)"
  using assms(1)
proof (induction ls arbitrary: s)
  case Nil
  then show ?case
    using assms(2) by (intro exI [of _ "\<lambda>_. s'"] exI [of _ "\<lambda>_. l"]) (simp add: path_def)
next
  case (Cons l1 ls)
  then obtain s1 where s1: "step s l1 s1" "run_of step s1 ls s'"
    by (auto simp: run_Cons)
  then obtain st lab where tail: "path step st lab" "st 0 = s1" "\<forall>k \<ge> length ls. st k = s' \<and> lab k = l"
    using Cons.IH by blast
  have "path step (case_nat s st) (case_nat l1 lab)"
    using s1(1) tail(1,2) by (simp add: path_def split: nat.split)
  then show ?case
    using tail(3) by (intro exI [of _ "case_nat s st"] exI [of _ "case_nat l1 lab"]) (auto split: nat.split)
qed

section \<open>Fairness\<close>

text \<open>Weak fairness: whoever is busy from some point on acts again and again. Strong fairness: whoever is
  ready again and again acts.\<close>

definition weakly_fair :: "(nat \<Rightarrow> 's) \<Rightarrow> (nat \<Rightarrow> 'l) \<Rightarrow> ('s \<Rightarrow> bool) \<Rightarrow> ('l \<Rightarrow> bool) \<Rightarrow> bool" where
  "weakly_fair st lab busy acts \<longleftrightarrow> (\<forall>k. (\<forall>j \<ge> k. busy (st j)) \<longrightarrow> (\<exists>j \<ge> k. acts (lab j)))"

definition strongly_fair :: "(nat \<Rightarrow> 's) \<Rightarrow> (nat \<Rightarrow> 'l) \<Rightarrow> ('s \<Rightarrow> bool) \<Rightarrow> ('l \<Rightarrow> bool) \<Rightarrow> bool" where
  "strongly_fair st lab ready acts \<longleftrightarrow> (\<forall>k. \<exists>j \<ge> k. ready (st j)) \<longrightarrow> (\<forall>k. \<exists>j \<ge> k. acts (lab j))"

text \<open>If acting decreases a measure that nobody increases, then whoever is treated fairly finishes.\<close>

lemma weakly_fair_finishes:
  fixes m :: "'s \<Rightarrow> nat"
  assumes "weakly_fair st lab busy acts"
    and "\<And>j. k \<le> j \<Longrightarrow> busy (st j) \<Longrightarrow>
      m (st (Suc j)) \<le> m (st j) \<and> (acts (lab j) \<longrightarrow> m (st (Suc j)) < m (st j))"
  shows "\<exists>j \<ge> k. \<not> busy (st j)"
  using assms(2)
proof (induction "m (st k)" arbitrary: k rule: less_induct)
  case less
  show ?case
  proof (rule ccontr)
    assume "\<nexists>j. k \<le> j \<and> \<not> busy (st j)"
    then have busy: "busy (st j)" if "k \<le> j" for j using that by blast
    then obtain j where j: "k \<le> j" "acts (lab j)"
      using assms(1) by (auto simp: weakly_fair_def)
    have "m (st j) \<le> m (st k)"
      using j(1) by (induction rule: dec_induct) (use less.prems busy in \<open>auto intro: order_trans\<close>)
    then have "m (st (Suc j)) < m (st k)"
      using less.prems [OF j(1) busy [OF j(1)]] j(2) by simp
    then have "\<exists>i \<ge> Suc j. \<not> busy (st i)"
      using less.hyps less.prems j(1) by simp
    then show False using busy j(1) by (meson Suc_leD order_trans)
  qed
qed

text \<open>On a run that comes to rest, fairness is only about what is left at the end.\<close>

lemma weakly_fair_if_idle:
  assumes "\<And>k. \<exists>j \<ge> k. \<not> busy (st j)"
  shows "weakly_fair st lab busy acts"
  using assms by (auto simp: weakly_fair_def)

end
