(* ===== verification/LookupLiveness.thy ===== *)
theory LookupLiveness
  imports LookupProperties Fairness
begin

text \<open>
  What happens for certain in the infinite runs of a slice lookup, provided its goroutines are treated
  fairly: what the state machine has accepted is published, requests are sent without end, and a stop ends
  everything.
\<close>

section \<open>Goroutines\<close>

datatype goroutine = TheLoop | TheCall nat

fun todos_of :: "goroutine \<Rightarrow> slice_lookup \<Rightarrow> todo list" where
  "todos_of TheLoop sl = loop_todos (sl_loop sl)"
| "todos_of (TheCall i) sl = (if i < length (sl_calls sl) then call_todos (rc_pc (sl_calls sl ! i)) else [])"

fun acts_as :: "goroutine \<Rightarrow> lookup_label \<Rightarrow> bool" where
  "acts_as TheLoop l \<longleftrightarrow> l = InLoop LoopAct"
| "acts_as (TheCall i) l \<longleftrightarrow> l = InCall i CallAct"

lemma pending_member: "t \<in># pending sl \<longleftrightarrow> (\<exists>g. t \<in> set (todos_of g sl))"
proof -
  have "(\<exists>g. t \<in> set (todos_of g sl)) \<longleftrightarrow> t \<in> set (loop_todos (sl_loop sl))
      \<or> (\<exists>i < length (sl_calls sl). t \<in> set (call_todos (rc_pc (sl_calls sl ! i))))"
    by (metis goroutine.exhaust todos_of.simps empty_iff empty_set)
  moreover have "t \<in># sum_list (map (\<lambda>c. mset (call_todos (rc_pc c))) cs) \<longleftrightarrow> (\<exists>c \<in> set cs. t \<in> set (call_todos (rc_pc c)))"
    for cs :: "rpc_call list"
    by (induction cs) auto
  moreover have "(\<exists>c \<in> set (sl_calls sl). t \<in> set (call_todos (rc_pc c)))
      \<longleftrightarrow> (\<exists>i < length (sl_calls sl). t \<in> set (call_todos (rc_pc (sl_calls sl ! i))))"
    by (metis in_set_conv_nth)
  ultimately show ?thesis by (simp add: pending_def)
qed

lemma nth_set_call:
  "i < length (sl_calls sl) \<Longrightarrow> j < length (sl_calls sl) \<Longrightarrow>
     rc_pc (sl_calls (set_call i p sl) ! j) = (if j = i then p else rc_pc (sl_calls sl ! j))"
  by (simp add: set_call_def nth_list_update)

lemma todos_set_call:
  assumes "i < length (sl_calls sl)"
  shows "todos_of g (set_call i p sl) = (if g = TheCall i then call_todos p else todos_of g sl)"
  using assms by (cases g) (auto simp: nth_set_call)

lemma todos_frame: "sl_loop sl' = sl_loop sl \<Longrightarrow> sl_calls sl' = sl_calls sl \<Longrightarrow> todos_of g sl' = todos_of g sl"
  by (cases g) simp_all

lemma todos_loop: "todos_of g (sl\<lparr>sl_loop := p\<rparr>) = (if g = TheLoop then loop_todos p else todos_of g sl)"
  by (cases g) simp_all

lemma todos_handle:
  assumes "handleAction t sl = (sl', new)"
  shows "todos_of g sl' = todos_of g sl"
  using assms
  by (cases g; cases "(t, sl)" rule: handleAction.cases) (auto simp: nth_append less_Suc_eq)

text \<open>A goroutine's list is its own: only its own steps change it, and they handle its head.\<close>

lemma todos_step:
  assumes "lk_step env sl l sl'" and "life_inv sl" and "todos_of g sl \<noteq> []"
  shows "if acts_as g l
    then \<exists>t ts sl1 new. todos_of g sl = t # ts \<and> handleAction t sl = (sl1, new) \<and> todos_of g sl' = new @ ts
      \<and> sl_cell sl' = sl_cell sl1 \<and> sl_ready sl' = sl_ready sl1 \<and> length (sl_calls sl') = length (sl_calls sl1)
    else todos_of g sl' = todos_of g sl"
  using assms(1)
proof (cases rule: lk_step.cases)
  case (in_loop x)
  from in_loop(2) show ?thesis
  proof (cases rule: loop_step.cases)
    case (tick now sm acts)
    then show ?thesis using assms(3) in_loop(1) by (cases g) (auto simp: todos_frame)
  next
    case (cancel now sm acts)
    then show ?thesis using assms(3) in_loop(1) by (cases g) (auto simp: todos_frame)
  next
    case (act t ts sl1 new)
    then show ?thesis
      using in_loop(1) todos_handle [OF act(4), of g] by (cases g) (auto simp: todos_loop)
  qed
next
  case (in_call i c)
  have own: "todos_of g (set_call i p (sl\<lparr>sl_sm := sm\<rparr>)) = todos_of g sl" "todos_of g (set_call i p sl) = todos_of g sl"
    if "i < length (sl_calls sl)" "call_todos (rc_pc (sl_calls sl ! i)) = []" for p sm
  proof -
    have "g \<noteq> TheCall i" using that assms(3) by auto
    then show "todos_of g (set_call i p (sl\<lparr>sl_sm := sm\<rparr>)) = todos_of g sl" "todos_of g (set_call i p sl) = todos_of g sl"
      using that(1) todos_frame [of "sl\<lparr>sl_sm := sm\<rparr>" sl g] by (simp_all add: todos_set_call)
  qed
  have acts: "acts_as g l \<longleftrightarrow> g = TheCall i \<and> c = CallAct"
    using in_call(1) by (cases g) auto
  from in_call(2) show ?thesis
  proof (cases rule: call_step.cases)
    case (act conn t ts sl1 new)
    have "i < length (sl_calls sl1)"
      using handle_frame(7) [OF act(5)] act(3) by auto
    then have "todos_of g sl' = (if g = TheCall i then new @ ts else todos_of g sl)"
      using act(2) todos_handle [OF act(5), of g] by (simp add: todos_set_call)
    then show ?thesis
      using act acts by auto
  qed (use own acts in simp_all)
next
  case (client c)
  from client(2) have "todos_of g sl' = todos_of g sl"
    using assms(2,3)
    by (cases rule: client_step.cases; cases g)
      (auto simp: lookup_Start_def lookup_cancel_def life_inv_def)
  moreover have "\<not> acts_as g l" using client(1) by (cases g) auto
  ultimately show ?thesis by simp
qed

section \<open>Fair runs\<close>

text \<open>An infinite run of a lookup that some finite run has brought into its first state.\<close>

definition lookup_path :: "runtime \<Rightarrow> (nat \<Rightarrow> slice_lookup) \<Rightarrow> (nat \<Rightarrow> lookup_label) \<Rightarrow> bool" where
  "lookup_path env st lab \<longleftrightarrow> path (lk_step env) st lab
     \<and> (\<exists>t n cfg opts rng ls. lk_run env (NewSliceLookup t n cfg opts rng) ls (st 0))"

text \<open>A goroutine with actions to carry out carries them out, sooner or later.\<close>

definition fair_acting :: "(nat \<Rightarrow> slice_lookup) \<Rightarrow> (nat \<Rightarrow> lookup_label) \<Rightarrow> bool" where
  "fair_acting st lab \<longleftrightarrow> (\<forall>g. weakly_fair st lab (\<lambda>sl. todos_of g sl \<noteq> []) (acts_as g))"

lemma lookup_path_step: "lookup_path env st lab \<Longrightarrow> lk_step env (st k) (lab k) (st (Suc k))"
  by (simp add: lookup_path_def path_step)

lemma lookup_path_run: "lookup_path env st lab \<Longrightarrow> k \<le> j \<Longrightarrow> lk_run env (st k) (map lab [k..<j]) (st j)"
  unfolding lookup_path_def by (intro path_run) simp_all

lemma lookup_path_reached:
  "lookup_path env st lab \<Longrightarrow> \<exists>t n cfg opts rng ls. lk_run env (NewSliceLookup t n cfg opts rng) ls (st k)"
  using lookup_path_run [of env st lab 0 k] lk_run_trans by (simp add: lookup_path_def) blast

lemma lookup_path_inv:
  assumes "lookup_path env st lab"
  shows "life_inv (st k)" and "ws_inv (spec_of (st k))"
  using lookup_path_reached [OF assms, of k] lookup_inv by blast+

lemma todos_drain:
  assumes "lookup_path env st lab" and "fair_acting st lab"
  shows "\<exists>j \<ge> k. todos_of g (st j) = []"
proof -
  let ?m = "\<lambda>sl. sum_list (map todo_size (todos_of g sl))"
  have "?m (st (Suc j)) \<le> ?m (st j) \<and> (acts_as g (lab j) \<longrightarrow> ?m (st (Suc j)) < ?m (st j))"
    if "todos_of g (st j) \<noteq> []" for j
    using todos_step [OF lookup_path_step [OF assms(1)] lookup_path_inv(1) [OF assms(1)] that]
    by (auto split: if_splits dest: handle_size)
  then show ?thesis
    using weakly_fair_finishes [of st lab "\<lambda>sl. todos_of g sl \<noteq> []" "acts_as g" k ?m] assms(2)
    by (simp add: fair_acting_def)
qed

lemma todo_executed:
  assumes "lookup_path env st lab" and "fair_acting st lab" and "t \<in># pending (st k)"
  shows "\<exists>j \<ge> k. \<exists>sl1 new. handleAction t (st j) = (sl1, new) \<and> sl_cell (st (Suc j)) = sl_cell sl1
    \<and> sl_ready (st (Suc j)) = sl_ready sl1 \<and> length (sl_calls (st (Suc j))) = length (sl_calls sl1)"
proof -
  obtain g where g: "t \<in> set (todos_of g (st k))"
    using assms(3) by (auto simp: pending_member)
  obtain j where "k \<le> j" "t \<notin> set (todos_of g (st j))"
    using todos_drain [OF assms(1,2), of k g] by auto
  then obtain i where i: "k \<le> i" "t \<in> set (todos_of g (st i))" "t \<notin> set (todos_of g (st (Suc i)))"
    using first_change [of "\<lambda>i. t \<in> set (todos_of g (st i))" k j] g by blast
  have "todos_of g (st i) \<noteq> []" using i(2) by auto
  from todos_step [OF lookup_path_step [OF assms(1)] lookup_path_inv(1) [OF assms(1)] this] i(2,3)
  obtain ts sl1 new where "handleAction t (st i) = (sl1, new)" "sl_cell (st (Suc i)) = sl_cell sl1"
      "sl_ready (st (Suc i)) = sl_ready sl1" "length (sl_calls (st (Suc i))) = length (sl_calls sl1)"
    by (auto split: if_splits)
  with i(1) show ?thesis by blast
qed

section \<open>Publication\<close>

lemma published_eventually:
  assumes "lookup_path env st lab" and "fair_acting st lab" and "sm_assignment (sl_sm (st k)) = Some a"
  shows "\<exists>j \<ge> k. \<exists>c. cell_Get (sl_cell (st j)) = Some c \<and> a_rank a \<le> a_rank c"
proof -
  have "assignment_cell.follows (sl_cell (st k)) (Some a) (waiting_uses (pending (st k)))"
    using lookup_path_inv(2) [OF assms(1), of k] assms(3) by (simp add: ws_inv_def)
  then consider "cell_Get (sl_cell (st k)) = Some a" | "Perform (ActionUseAssignment a) \<in># pending (st k)"
    by (auto simp: assignment_cell.follows_def waiting_uses_def)
  then show ?thesis
  proof cases
    case 1
    then show ?thesis by blast
  next
    case 2
    then obtain j where j: "k \<le> j" "sl_cell (st (Suc j)) = cell_put (sl_cell (st j)) a"
      using todo_executed [OF assms(1,2) 2] by auto
    obtain c where "cell_Get (sl_cell (st (Suc j))) = Some c" "a_rank a \<le> a_rank c"
      using j(2) assignment_cell.put_newer [of "sl_cell (st j)" a] by auto
    then show ?thesis using le_SucI [OF j(1)] by blast
  qed
qed

lemma ready_eventually:
  assumes "lookup_path env st lab" and "fair_acting st lab" and "cell_Get (sl_cell (st k)) \<noteq> None"
  shows "\<exists>j \<ge> k. sl_ready (st j)"
proof -
  have "sl_ready (st k) \<or> CloseReady \<in># pending (st k)"
    using lookup_path_inv(2) [OF assms(1), of k] assms(3) by (simp add: ws_inv_def)
  then show ?thesis
  proof
    assume "CloseReady \<in># pending (st k)"
    then obtain j where "k \<le> j" "sl_ready (st (Suc j))"
      using todo_executed [OF assms(1,2)] by fastforce
    then show ?thesis using le_SucI by blast
  qed blast
qed

lemma lookup_path_cell:
  assumes "lookup_path env st lab" and "cell_Get (sl_cell (st k)) = Some a" and "k \<le> j"
  shows "\<exists>b. cell_Get (sl_cell (st j)) = Some b \<and> a_rank a \<le> a_rank b"
  using lk_run_cell [OF lookup_path_run [OF assms(1,3)] lookup_path_inv(1) [OF assms(1)] assms(2)] .

lemma published_for_good:
  assumes "lookup_path env st lab" and "fair_acting st lab" and "sm_assignment (sl_sm (st k)) = Some a"
  shows "\<exists>k0 \<ge> k. \<forall>j \<ge> k0. sl_ready (st j)
    \<and> (\<exists>b. router_Assignment (lookup_Router (st j)) = Some b \<and> valid_assignment b \<and> a_rank a \<le> a_rank b)"
proof -
  obtain k1 c where k1: "k \<le> k1" "cell_Get (sl_cell (st k1)) = Some c" "a_rank a \<le> a_rank c"
    using published_eventually [OF assms] by blast
  obtain k2 where k2: "k1 \<le> k2" "sl_ready (st k2)"
    using ready_eventually [OF assms(1,2), of k1] k1(2) by auto
  have "sl_ready (st j)" if "k2 \<le> j" for j
    using lk_run_ready [OF lookup_path_run [OF assms(1) that] lookup_path_inv(1) [OF assms(1)] k2(2)] .
  moreover have "\<exists>b. router_Assignment (lookup_Router (st j)) = Some b \<and> valid_assignment b \<and> a_rank a \<le> a_rank b"
    if later: "k2 \<le> j" for j
  proof -
    obtain b where "cell_Get (sl_cell (st j)) = Some b" "a_rank a \<le> a_rank b"
      using lookup_path_cell [OF assms(1) k1(2) order_trans [OF k2(1) later]] k1(3) by auto
    then show ?thesis
      using lookup_path_inv(2) [OF assms(1), of j] by (auto simp: ws_inv_def router_Assignment_def lookup_Router_def)
  qed
  ultimately show ?thesis
    using k1(1) k2(1) by (meson order_trans)
qed

section \<open>Requests without end\<close>

lemma sm_step_idle:
  assumes "sm_step env i sm = Inr (sm', acts)" and "latestReadState sm = None" and "sends acts = []"
  shows "latestReadState sm' = None \<and> scheduledReadTime sm' = scheduledReadTime sm"
proof -
  have idle: "sm2 = sm1"
    if "onAdvanceInternal env (fst i) sm1 = (sm2, acts2)" "latestReadState sm1 = None" "sends acts2 = []" for sm1 sm2 acts2
    using that(1) by (cases rule: onAdvance_cases) (use that(2,3) in \<open>auto simp: check_deadline_def send_request_def Let_def\<close>)
  from assms(1) show ?thesis
  proof (cases rule: sm_step_cases)
    case advance
    then show ?thesis using idle assms(2,3) by blast
  next
    case (failure opID)
    then show ?thesis using idle [OF failure(3)] assms(2,3) by (simp add: onReadFailure_def)
  next
    case (success address opID resp sm1 acts1 acts2)
    from success(3) show ?thesis
      by (cases rule: onReadSuccess_read) (use idle [OF success(4)] success(5) assms(2,3) in auto)
  qed (use assms(2) in auto)
qed

text \<open>What a step of the lookup does to its state machine.\<close>

lemma lk_step_machine:
  assumes "lk_step env sl l sl'" and "life_inv sl"
  shows "sl_sm sl' = sl_sm sl
    \<or> (\<exists>i acts. sm_step env i (sl_sm sl) = Inr (sl_sm sl', acts) \<and> (\<forall>act \<in> set acts. Perform act \<in># pending sl'))"
proof -
  have "ws_sm w' = ws_sm w
      \<or> (\<exists>i acts. sm_step env i (ws_sm w) = Inr (ws_sm w', acts) \<and> (\<forall>act \<in> set acts. Perform act \<in># ws_todo w'))"
    if "ws_step env answering w w'" for answering w w'
    using that by (induction rule: ws_step.induct) auto
  from this [OF lk_refines [OF assms]] show ?thesis by simp
qed

lemma tick_machine:
  assumes "lk_step env sl (InLoop (Tick now)) sl'"
  shows "\<exists>acts. OnAdvance env now (sl_sm sl) = (sl_sm sl', acts) \<and> (\<forall>act \<in> set acts. Perform act \<in># pending sl')"
proof -
  have "loop_step env sl (Tick now) sl'"
    using assms by (simp add: lk_step_simps)
  then show ?thesis
    by (cases rule: loop_step.cases) (auto simp: pending_def)
qed

text \<open>The loop keeps ticking, and its clock advances without bound.\<close>

definition ticks_forever :: "(nat \<Rightarrow> lookup_label) \<Rightarrow> bool" where
  "ticks_forever lab \<longleftrightarrow> (\<forall>k bound. \<exists>j \<ge> k. \<exists>now \<ge> bound. lab j = InLoop (Tick now))"

definition request_due :: "slice_lookup \<Rightarrow> bool" where
  "request_due sl \<longleftrightarrow> (\<exists>r n s d. Perform (ActionSendRequest r n s d) \<in># pending sl)"

lemma next_tick:
  assumes "lookup_path env st lab" and "ticks_forever lab"
  obtains j now acts where "k \<le> j" "bound \<le> now" "OnAdvance env now (sl_sm (st j)) = (sl_sm (st (Suc j)), acts)"
    "\<forall>act \<in> set acts. Perform act \<in># pending (st (Suc j))"
proof -
  obtain j now where "k \<le> j" "bound \<le> now" "lab j = InLoop (Tick now)"
    using assms(2) unfolding ticks_forever_def by meson
  then show thesis
    using tick_machine lookup_path_step [OF assms(1), of j] that by metis
qed

lemma request_issued:
  assumes "lookup_path env st lab" and "ticks_forever lab" and "\<forall>j \<ge> k. \<not> isCancelled (sl_sm (st j))"
  shows "\<exists>j \<ge> k. request_due (st j)"
proof (rule ccontr)
  assume none: "\<nexists>j. k \<le> j \<and> request_due (st j)"
  let ?sm = "\<lambda>j. sl_sm (st j)"
  have silent: "sends acts = []" if "k \<le> j" "\<forall>act \<in> set acts. Perform act \<in># pending (st (Suc j))" for j acts
    using none that sends_nonempty [of acts] unfolding request_due_def by (meson le_SucI)
  have quiet: "latestReadState (?sm j) = latestReadState (?sm k) \<or> latestReadState (?sm j) = None" if "k \<le> j" for j
    using that
  proof (induction rule: dec_induct)
    case (step j)
    then show ?case
      using lk_step_machine [OF lookup_path_step [OF assms(1)] lookup_path_inv(1) [OF assms(1)], of j]
        silent [OF step.hyps(1)] sm_step_quiet [of env _ "?sm j" "?sm (Suc j)"] by metis
  qed simp
  obtain k1 where k1: "k \<le> k1" "latestReadState (?sm k1) = None"
  proof -
    obtain j now acts where j: "k \<le> j" "(case latestReadState (?sm k) of Some rs \<Rightarrow> rs_deadline rs | None \<Rightarrow> 0) \<le> now"
      and acts: "OnAdvance env now (?sm j) = (?sm (Suc j), acts)" "\<forall>act \<in> set acts. Perform act \<in># pending (st (Suc j))"
      by (rule next_tick [OF assms(1,2)])
    have "onAdvanceInternal env now (?sm j) = (?sm (Suc j), acts)"
      using acts(1) assms(3) j(1) by (simp add: OnAdvance_def)
    then have "latestReadState (?sm (Suc j)) = None"
      using silent [OF j(1) acts(2)] quiet [OF j(1)] j(2)
      by (cases rule: onAdvance_cases) (auto simp: check_deadline_def send_request_def Let_def split: option.splits)
    then show thesis using that [of "Suc j"] j(1) by simp
  qed
  have idle: "latestReadState (?sm j) = None \<and> scheduledReadTime (?sm j) = scheduledReadTime (?sm k1)" if "k1 \<le> j" for j
    using that
  proof (induction rule: dec_induct)
    case (step j)
    then show ?case
      using lk_step_machine [OF lookup_path_step [OF assms(1)] lookup_path_inv(1) [OF assms(1)], of j]
        silent [of j] k1(1) sm_step_idle [of env _ "?sm j" "?sm (Suc j)"] by (metis order_trans)
  qed (use k1(2) in simp)
  obtain j now acts where j: "k1 \<le> j" "scheduledReadTime (?sm k1) \<le> now"
    and acts: "OnAdvance env now (?sm j) = (?sm (Suc j), acts)" "\<forall>act \<in> set acts. Perform act \<in># pending (st (Suc j))"
    by (rule next_tick [OF assms(1,2)])
  have "sends (snd (OnAdvance env now (?sm j))) = [lastOpID (?sm j) + 1]"
    using idle [OF j(1)] j assms(3) k1(1) by (intro advance_sends) auto
  then show False
    using acts silent [of j acts] j(1) k1(1) by simp
qed

lemma calls_grow: "lk_run env sl ls sl' \<Longrightarrow> life_inv sl \<Longrightarrow> length (sl_calls sl) \<le> length (sl_calls sl')"
proof (induction rule: run_of.induct)
  case (run_snoc ls sl' l sl'')
  have "length (ws_sent w) \<le> length (ws_sent w')" if "ws_step env answering w w'" for answering w w'
    using that by (induction rule: ws_step.induct) auto
  from this [OF lk_refines [OF run_snoc.hyps(2) life_inv_run [OF run_snoc.hyps(1) run_snoc.prems]]]
  show ?case using run_snoc.IH [OF run_snoc.prems] by simp
qed simp

lemma request_made:
  assumes "lookup_path env st lab" and "fair_acting st lab" and "ticks_forever lab"
    and "\<forall>j \<ge> k. \<not> isCancelled (sl_sm (st j))"
  shows "\<exists>j \<ge> k. length (sl_calls (st k)) < length (sl_calls (st j))"
proof -
  obtain j r n s d where j: "k \<le> j" "Perform (ActionSendRequest r n s d) \<in># pending (st j)"
    using request_issued [OF assms(1,3,4)] by (auto simp: request_due_def)
  obtain i where i: "j \<le> i" "length (sl_calls (st (Suc i))) = Suc (length (sl_calls (st i)))"
    using todo_executed [OF assms(1,2) j(2)] by auto
  have "length (sl_calls (st k)) \<le> length (sl_calls (st i))"
    using calls_grow [OF lookup_path_run [OF assms(1)] lookup_path_inv(1) [OF assms(1)]] i(1) j(1) order_trans by blast
  then show ?thesis
    using i j(1) by (intro exI [of _ "Suc i"]) simp
qed

section \<open>The end after a stop\<close>

text \<open>Every request takes its steps, the answer of the server or the timeout of the RPC included; a \<open>select\<close>
  that could notice the cancellation again and again does notice it.\<close>

definition unfinished :: "nat \<Rightarrow> slice_lookup \<Rightarrow> bool" where
  "unfinished i sl \<longleftrightarrow> i < length (sl_calls sl) \<and> rc_pc (sl_calls sl ! i) \<noteq> CallDone"

definition fair_calls :: "(nat \<Rightarrow> slice_lookup) \<Rightarrow> (nat \<Rightarrow> lookup_label) \<Rightarrow> bool" where
  "fair_calls st lab \<longleftrightarrow> (\<forall>i. weakly_fair st lab (unfinished i) (\<lambda>l. \<exists>c. l = InCall i c))"

definition fair_select :: "(nat \<Rightarrow> slice_lookup) \<Rightarrow> (nat \<Rightarrow> lookup_label) \<Rightarrow> bool" where
  "fair_select st lab \<longleftrightarrow>
     strongly_fair st lab (\<lambda>sl. sl_loop sl = Selecting \<and> sl_ctx sl = Cancelled) (\<lambda>l. \<exists>now. l = InLoop (CancelSeen now))"

lemma call_changes_alone:
  assumes "lk_step env sl l sl'" and "unfinished i sl" and "\<not> unfinished i sl'"
  shows "\<exists>c. l = InCall i c"
proof (rule ccontr)
  assume other: "\<nexists>c. l = InCall i c"
  have i: "i < length (sl_calls sl)"
    using assms(2) by (simp add: unfinished_def)
  from assms(1) have "i < length (sl_calls sl') \<and> rc_pc (sl_calls sl' ! i) = rc_pc (sl_calls sl ! i)"
  proof (cases rule: lk_step.cases)
    case (in_loop x)
    from in_loop(2) show ?thesis
      using i by (cases rule: loop_step.cases) (auto simp: nth_append dest: handle_frame(7))
  next
    case (in_call j c)
    then have "j \<noteq> i" using other by blast
    from in_call(2) show ?thesis
    proof (cases rule: call_step.cases)
      case (act conn t ts sl1 new)
      then show ?thesis
        using handle_frame(7) [OF act(5)] i \<open>j \<noteq> i\<close> by (auto simp: nth_set_call nth_append)
    qed (use i \<open>j \<noteq> i\<close> in \<open>simp_all add: nth_set_call\<close>)
  next
    case (client c)
    from client(2) show ?thesis
      using i by (cases rule: client_step.cases) (auto simp: lookup_Start_def lookup_cancel_def)
  qed
  then show False using assms(2,3) by (simp add: unfinished_def)
qed

lemma path_cancelled:
  assumes "lookup_path env st lab" and "sl_ctx (st k) = Cancelled" and "k \<le> j"
  shows "sl_ctx (st j) = Cancelled"
  using lk_run_identity [OF lookup_path_run [OF assms(1,3)]] assms(2) by simp

lemma loop_stops:
  assumes "lookup_path env st lab" and "fair_acting st lab" and "fair_select st lab" and "sl_ctx (st k) = Cancelled"
  shows "\<exists>j \<ge> k. sl_loop (st j) = LoopDone"
proof (rule ccontr)
  assume never: "\<nexists>j. k \<le> j \<and> sl_loop (st j) = LoopDone"
  have "\<exists>j \<ge> i. sl_loop (st j) = Selecting \<and> sl_ctx (st j) = Cancelled" for i
  proof -
    obtain j where j: "max i k \<le> j" "todos_of TheLoop (st j) = []"
      using todos_drain [OF assms(1,2)] by blast
    moreover from j(1) have "sl_ctx (st j) = Cancelled" "sl_loop (st j) \<noteq> LoopDone"
      using path_cancelled [OF assms(1,4), of j] never by auto
    ultimately show ?thesis
      using lookup_path_inv(1) [OF assms(1), of j] by (cases "sl_loop (st j)") (auto simp: life_inv_def)
  qed
  then obtain j now where j: "k \<le> j" "lab j = InLoop (CancelSeen now)"
    using assms(3) unfolding fair_select_def strongly_fair_def by blast
  then have "loop_step env (st j) (CancelSeen now) (st (Suc j))"
    using lookup_path_step [OF assms(1), of j] by (simp add: lk_step_simps)
  then have "sl_loop (st (Suc j)) = LoopDone"
    by (cases rule: loop_step.cases) simp
  then show False using never j(1) le_SucI by blast
qed

lemma calls_finish:
  assumes "lookup_path env st lab" and "fair_calls st lab" and "sl_loop (st k) = LoopDone"
  shows "\<exists>j \<ge> k. \<forall>i. \<not> unfinished i (st j)"
proof -
  have step: "work_left (st (Suc j)) \<le> work_left (st j) \<and> (background (lab j) \<longrightarrow> work_left (st (Suc j)) < work_left (st j))"
    if "k \<le> j" for j
  proof -
    have "sl_loop (st j) = LoopDone"
      using done_run [OF lookup_path_run [OF assms(1) that] lookup_path_inv(1) [OF assms(1)] assms(3)] by blast
    then show ?thesis
      using done_step [OF lookup_path_step [OF assms(1)] lookup_path_inv(1) [OF assms(1)], of j] by (auto split: if_splits)
  qed
  have "\<exists>j \<ge> n. background (lab j)" if "unfinished i (st n)" for i n
  proof (cases "\<forall>j \<ge> n. unfinished i (st j)")
    case True
    then obtain j c where "n \<le> j" "lab j = InCall i c"
      using assms(2) unfolding fair_calls_def weakly_fair_def by blast
    then show ?thesis by (intro exI [of _ j]) simp
  next
    case False
    then obtain m where m: "n \<le> m" "\<not> unfinished i (st m)"
      by blast
    from first_change [of "\<lambda>j. unfinished i (st j)" n m, OF that m(2,1)]
    obtain j where j: "n \<le> j" "unfinished i (st j)" "\<not> unfinished i (st (Suc j))"
      by blast
    then obtain c where "lab j = InCall i c"
      using call_changes_alone [OF lookup_path_step [OF assms(1)]] by blast
    with j(1) show ?thesis by (intro exI [of _ j]) simp
  qed
  then have "weakly_fair st lab (\<lambda>sl. \<exists>i. unfinished i sl) background"
    unfolding weakly_fair_def by blast
  then have "\<exists>j \<ge> k. \<not> (\<exists>i. unfinished i (st j))"
    by (rule weakly_fair_finishes [where m = work_left]) (rule step)
  then show ?thesis by blast
qed

lemma work_finished: "work_left sl = 0 \<longleftrightarrow> (\<forall>i. \<not> unfinished i sl)"
proof -
  have "call_work p = 0 \<longleftrightarrow> p = CallDone" for p
    by (cases p) auto
  then show ?thesis
    by (auto simp: work_left_def unfinished_def sum_list_eq_0_iff all_set_conv_all_nth)
qed

lemma lookup_rests:
  assumes "lookup_path env st lab" and "fair_acting st lab" and "fair_calls st lab" and "fair_select st lab"
    and "sl_ctx (st k) = Cancelled"
  shows "\<exists>k0 \<ge> k. \<forall>j \<ge> k0. sl_loop (st j) = LoopDone \<and> sl_sm (st j) = sl_sm (st k0) \<and> work_left (st j) = 0"
proof -
  obtain k1 where k1: "k \<le> k1" "sl_loop (st k1) = LoopDone"
    using loop_stops [OF assms(1,2,4,5)] by blast
  obtain k0 where k0: "k1 \<le> k0" "\<forall>i. \<not> unfinished i (st k0)"
    using calls_finish [OF assms(1,3) k1(2)] by blast
  have stays: "sl_sm (st j) = sl_sm (st i) \<and> sl_loop (st j) = LoopDone \<and> work_left (st j) \<le> work_left (st i)"
    if "sl_loop (st i) = LoopDone" "i \<le> j" for i j
    using done_run [OF lookup_path_run [OF assms(1) that(2)] lookup_path_inv(1) [OF assms(1)] that(1)] by simp
  have "work_left (st k0) = 0"
    using k0(2) by (simp add: work_finished)
  then have "sl_loop (st j) = LoopDone \<and> sl_sm (st j) = sl_sm (st k0) \<and> work_left (st j) = 0" if "k0 \<le> j" for j
    using stays [of k0 j] stays [OF k1(2) k0(1)] that by simp
  then show ?thesis using k0(1) k1(1) by (meson order_trans)
qed

lemma at_rest:
  assumes "work_left sl = 0"
  shows "\<forall>c \<in> set (sl_calls sl). rc_pc c = CallDone" and "\<not> connected i sl"
  using assms by (auto simp: work_finished unfinished_def connected_def in_set_conv_nth)

section \<open>Properties\<close>

text \<open>
  C3: What has been accepted is published, for certain: in every infinite run in which goroutines with actions
  to carry out are treated weakly fairly, whatever else happens, once the state machine holds an assignment
  there comes a moment from which on, for ever, the ready channel is closed and every key is routed, to pods
  that own it, by an assignment not older than that one.
\<close>

theorem fair_publication:
  assumes "lookup_path env st lab" and "fair_acting st lab" and "CurrentAssignment (sl_sm (st k)) = Some a"
  shows "\<exists>k0 \<ge> k. \<forall>j \<ge> k0. lookup_Ready (st j)
    \<and> (\<exists>b. router_Assignment (lookup_Router (st j)) = Some b \<and> \<not> gen_Less (a_Generation b) (a_Generation a)
        \<and> (\<forall>key. \<exists>rs. RouteAll (lookup_Router (st j)) key = Inr rs \<and> rs \<noteq> []
            \<and> (\<forall>sq. IsAssignedKey b (NewSliceKeyFromString key) sq = Inr (sq \<in> set rs))))"
proof -
  have "sm_assignment (sl_sm (st k)) = Some a"
    using assms(3) by (simp add: CurrentAssignment_def)
  from published_for_good [OF assms(1,2) this]
  obtain k0 where k0: "k \<le> k0" "\<forall>j \<ge> k0. sl_ready (st j)
    \<and> (\<exists>b. router_Assignment (lookup_Router (st j)) = Some b \<and> valid_assignment b \<and> a_rank a \<le> a_rank b)"
    by blast
  have "\<exists>b. router_Assignment (lookup_Router (st j)) = Some b \<and> \<not> gen_Less (a_Generation b) (a_Generation a)
      \<and> (\<forall>key. \<exists>rs. RouteAll (lookup_Router (st j)) key = Inr rs \<and> rs \<noteq> []
          \<and> (\<forall>sq. IsAssignedKey b (NewSliceKeyFromString key) sq = Inr (sq \<in> set rs)))" if later: "k0 \<le> j" for j
  proof -
    obtain b where "router_Assignment (lookup_Router (st j)) = Some b" "valid_assignment b" "a_rank a \<le> a_rank b"
      using k0(2) later by blast
    then show ?thesis
      using valid_routes by (auto simp: a_rank_def order_simps not_less)
  qed
  then show ?thesis
    using k0 by (auto simp: lookup_Ready_def)
qed

text \<open>A finite run that leaves nothing to do, followed by a client that keeps starting a started lookup.\<close>

lemma run_rests:
  assumes "lk_run env (NewSliceLookup t n cfg opts rng) ls sl0" and "lk_run env sl0 ls' sl" and "sl_ctx sl \<noteq> NotStarted"
    and "pending sl = {#}"
  shows "\<exists>st lab. lookup_path env st lab \<and> fair_acting st lab \<and> st 0 = sl0 \<and> (\<forall>k \<ge> length ls'. st k = sl)"
proof -
  have "lk_step env sl (Client Start) sl"
    using lk_step.client [OF client_step.start [of sl]] assms(3) by (simp add: lookup_Start_def)
  then obtain st lab where path: "path (lk_step env) st lab" "st 0 = sl0" "\<forall>k \<ge> length ls'. st k = sl \<and> lab k = Client Start"
    using run_stutters [OF assms(2)] by blast
  have "t \<notin> set (todos_of g sl)" for g t
    using assms(4) pending_member [of t sl] by auto
  then have "todos_of g sl = []" for g
    by (metis list.set_intros(1) neq_Nil_conv)
  then have "\<exists>j \<ge> k. todos_of g (st j) = []" for g k
    using path(3) by (intro exI [of _ "max k (length ls')"]) simp
  then have "fair_acting st lab"
    by (simp add: fair_acting_def weakly_fair_if_idle)
  moreover have "lookup_path env st lab"
    using path(1,2) assms(1) unfolding lookup_path_def by blast
  ultimately show ?thesis
    using path(2,3) by blast
qed

theorem fair_publication_witness:
  "\<exists>st lab k0. lookup_path sample_runtime st lab \<and> fair_acting st lab \<and> st 0 = sample_lookup
     \<and> (\<forall>j \<ge> k0. lookup_Ready (st j))"
proof -
  obtain ls sl where sl: "lk_run sample_runtime sample_lookup ls sl" "cell_Get (sl_cell sl) = Some eventual_wire_assignment"
      "waiting_uses (pending sl) = {}" "sl_ctx sl = Running"
    using sample_receives by blast
  obtain ls' sl' where sl': "lk_run sample_runtime sl ls' sl'" "pending sl' = {#}" "acted sl sl'"
    using drains by blast
  have "lk_run sample_runtime (NewSliceLookup ''target'' ''client'' DefaultStateMachineConfig [] (\<lambda>_. 0)) [] sample_lookup"
    by (simp add: sample_lookup_def)
  moreover have run: "lk_run sample_runtime sample_lookup (ls @ ls') sl'"
    using lk_run_trans [OF sl'(1) sl(1)] .
  moreover have "sl_ctx sl' \<noteq> NotStarted"
    using sl'(3) sl(4) by (simp add: acted_def)
  ultimately obtain st lab where path: "lookup_path sample_runtime st lab" "fair_acting st lab" "st 0 = sample_lookup"
      "\<forall>k \<ge> length (ls @ ls'). st k = sl'"
    using run_rests [OF _ _ _ sl'(2)] by blast
  have "CurrentAssignment (sl_sm sl) = Some eventual_wire_assignment"
    using lookup_inv(2) [OF sl(1) [unfolded sample_lookup_def]] sl(2,3) assignment_cell.follows_quiet
    by (auto simp: ws_inv_def CurrentAssignment_def)
  then have "CurrentAssignment (sl_sm (st (length (ls @ ls')))) = Some eventual_wire_assignment"
    using path(4) sl'(3) by (simp add: acted_def)
  from fair_publication [OF path(1,2) this] show ?thesis
    using path by blast
qed

text \<open>A driver that ticks every second whenever it can, and whose requests all hang.\<close>

definition driver_label :: "nat \<Rightarrow> slice_lookup \<Rightarrow> lookup_label" where
  "driver_label k sl = (if loop_todos (sl_loop sl) = [] then InLoop (Tick (int k * sint Second)) else InLoop LoopAct)"

lemma driver_moves:
  assumes "life_inv sl" and "sl_ctx sl = Running"
  shows "\<exists>sl'. lk_step env sl (driver_label k sl) sl'"
proof (cases "sl_loop sl")
  case Selecting
  then show ?thesis
    using lk_step.in_loop [OF loop_step.tick [OF Selecting]] by (simp add: driver_label_def) (metis prod.exhaust)
next
  case (LoopActing ts)
  then obtain t ts' where ts: "ts = t # ts'"
    using assms(1) by (cases ts) (auto simp: life_inv_def)
  obtain sl1 new where "handleAction t sl = (sl1, new)" by fastforce
  then show ?thesis
    using lk_step.in_loop [OF loop_step.act] LoopActing ts by (auto simp: driver_label_def) blast
qed (use assms in \<open>auto simp: life_inv_def\<close>)

lemma driver_keeps:
  assumes "lk_step env sl (driver_label k sl) sl'" and "sl_ctx sl = Running"
  shows "sl_ctx sl' = Running"
    and "\<forall>c \<in> set (sl_calls sl). rc_pc c = Dialing \<Longrightarrow> \<forall>c \<in> set (sl_calls sl'). rc_pc c = Dialing"
proof -
  obtain x where x: "driver_label k sl = InLoop x" "x = LoopAct \<or> (\<exists>now. x = Tick now)"
    by (cases "loop_todos (sl_loop sl) = []") (auto simp: driver_label_def)
  then have "loop_step env sl x sl'" using assms(1) by (simp add: lk_step_simps)
  then have "sl_ctx sl' = Running \<and> (\<exists>cs. sl_calls sl' = sl_calls sl @ cs \<and> (\<forall>c \<in> set cs. rc_pc c = Dialing))"
    using x(2) assms(2) by (cases rule: loop_step.cases) (auto simp: handle_frame dest: handle_frame(7))
  then show "sl_ctx sl' = Running"
    and "\<forall>c \<in> set (sl_calls sl). rc_pc c = Dialing \<Longrightarrow> \<forall>c \<in> set (sl_calls sl'). rc_pc c = Dialing"
    by auto
qed

lemma driven_path:
  "\<exists>st. lookup_path sample_runtime st (\<lambda>k. driver_label k (st k)) \<and> (\<forall>k. sl_ctx (st k) = Running)
    \<and> (\<forall>k. \<forall>c \<in> set (sl_calls (st k)). rc_pc c = Dialing)"
proof -
  let ?P = "\<lambda>k sl. (k = (0 :: nat) \<longrightarrow> sl = sample_started) \<and> life_inv sl \<and> sl_ctx sl = Running
    \<and> (\<forall>c \<in> set (sl_calls sl). rc_pc c = Dialing)"
  have start: "lk_run sample_runtime sample_lookup [Client Start] sample_started"
    using lk_run_step [OF sample_start_step lk_run_nil] .
  have "\<exists>st. \<forall>k. ?P k (st k) \<and> lk_step sample_runtime (st k) (driver_label k (st k)) (st (Suc k))"
  proof (rule dependent_nat_choice)
    show "\<exists>sl. ?P 0 sl"
      using lookup_inv(1) [OF start [unfolded sample_lookup_def]] by simp
    show "\<exists>sl'. ?P (Suc k) sl' \<and> lk_step sample_runtime sl (driver_label k sl) sl'" if P: "?P k sl" for sl k
    proof -
      obtain sl' where step: "lk_step sample_runtime sl (driver_label k sl) sl'"
        using P driver_moves [of sl sample_runtime k] by blast
      then show ?thesis
        using P life_inv_step [OF step] driver_keeps [OF step] by (intro exI [of _ sl']) simp
    qed
  qed
  then obtain st where st: "\<forall>k. ?P k (st k) \<and> lk_step sample_runtime (st k) (driver_label k (st k)) (st (Suc k))" ..
  then have "lk_run sample_runtime (NewSliceLookup ''target'' ''client'' DefaultStateMachineConfig [] (\<lambda>_. 0))
      [Client Start] (st 0)"
    using start by (simp add: sample_lookup_def)
  then have "lookup_path sample_runtime st (\<lambda>k. driver_label k (st k))"
    using st unfolding lookup_path_def path_def by blast
  then show ?thesis using st by blast
qed

lemma driver_fair:
  assumes "lookup_path env st (\<lambda>k. driver_label k (st k))" and "\<forall>k. \<forall>c \<in> set (sl_calls (st k)). rc_pc c = Dialing"
  shows "fair_acting st (\<lambda>k. driver_label k (st k))" and "ticks_forever (\<lambda>k. driver_label k (st k))"
proof -
  have "weakly_fair st (\<lambda>k. driver_label k (st k)) (\<lambda>sl. todos_of g sl \<noteq> []) (acts_as g)" for g
  proof (cases g)
    case TheLoop
    then show ?thesis by (auto simp: weakly_fair_def driver_label_def)
  next
    case (TheCall i)
    then have "todos_of g (st k) = []" for k
      using assms(2) by (simp add: all_set_conv_all_nth)
    then show ?thesis by (intro weakly_fair_if_idle exI conjI) auto
  qed
  then show fair: "fair_acting st (\<lambda>k. driver_label k (st k))"
    by (simp add: fair_acting_def)
  show "ticks_forever (\<lambda>k. driver_label k (st k))"
    unfolding ticks_forever_def
  proof (intro allI)
    fix k bound
    obtain j where j: "max k (nat bound) \<le> j" "todos_of TheLoop (st j) = []"
      using todos_drain [OF assms(1) fair] by blast
    have "bound \<le> int j * sint Second"
      using j(1) by (simp add: Second_def nat_le_iff)
    then show "\<exists>j \<ge> k. \<exists>now \<ge> bound. driver_label j (st j) = InLoop (Tick now)"
      using j by (intro exI [of _ j]) (simp add: driver_label_def)
  qed
qed

text \<open>
  C20: A lookup that keeps running keeps asking, for certain: in every infinite run in which the loop ticks at
  unboundedly late times, and goroutines with actions are treated weakly fairly, as long as the lookup is not
  stopped, more and more requests are made, without end: none of the ways a request can fail or hang
  silences the client.
\<close>

theorem fair_requests:
  assumes "lookup_path env st lab" and "fair_acting st lab" and "ticks_forever lab"
    and "\<forall>j. sl_ctx (st j) = Running"
  shows "\<exists>j \<ge> k. n \<le> length (sl_calls (st j))"
proof (induction n)
  case (Suc n)
  then obtain j where j: "k \<le> j" "n \<le> length (sl_calls (st j))" by blast
  have "\<not> isCancelled (sl_sm (st i))" for i
    using lookup_path_inv(1) [OF assms(1), of i] assms(4) by (auto simp: life_inv_def)
  then obtain i where "j \<le> i" "length (sl_calls (st j)) < length (sl_calls (st i))"
    using request_made [OF assms(1-3), of j] by blast
  with j show ?case by (intro exI [of _ i]) simp
qed auto

theorem fair_requests_witness:
  "\<exists>st lab. lookup_path sample_runtime st lab \<and> (\<forall>n. \<exists>j. n \<le> length (sl_calls (st j)))"
proof -
  obtain st where st: "lookup_path sample_runtime st (\<lambda>k. driver_label k (st k))" "\<forall>k. sl_ctx (st k) = Running"
      "\<forall>k. \<forall>c \<in> set (sl_calls (st k)). rc_pc c = Dialing"
    using driven_path by blast
  from fair_requests [OF st(1) driver_fair [OF st(1,3)] st(2), of 0] st(1) show ?thesis
    by blast
qed

text \<open>
  C17: A stop ends everything, for certain: in every infinite run that treats fairly the goroutines with actions
  to carry out, the requests (whose RPC returns, with an answer or with the error of its timeout) and the
  \<open>select\<close> that can see the cancellation, once the context has been cancelled there comes a moment from which
  on, for ever, the loop has ended, so that \<open>Stop\<close> returns, every request has finished, no connection is
  open, and the state machine is final.
\<close>

theorem fair_stop:
  assumes "lookup_path env st lab" and "fair_acting st lab" and "fair_calls st lab" and "fair_select st lab"
    and "sl_ctx (st k) = Cancelled"
  shows "\<exists>k0 \<ge> k. \<forall>j \<ge> k0. client_step (st j) Stopped (st j) \<and> IsCancelled (sl_sm (st j)) \<and> sl_sm (st j) = sl_sm (st k0)
    \<and> (\<forall>c \<in> set (sl_calls (st j)). rc_pc c = CallDone) \<and> (\<forall>i. \<not> connected i (st j))"
proof -
  have "client_step (st j) Stopped (st j) \<and> IsCancelled (sl_sm (st j))" if "sl_loop (st j) = LoopDone" for j
    using lookup_path_inv(1) [OF assms(1), of j] that by (simp add: life_inv_def IsCancelled_def client_step.stopped)
  then show ?thesis
    using lookup_rests [OF assms] at_rest by blast
qed

theorem fair_stop_witness:
  "\<exists>st lab k0. lookup_path sample_runtime st lab \<and> st 0 = sample_lookup
     \<and> (\<forall>j \<ge> k0. client_step (st j) Stopped (st j) \<and> (\<forall>c \<in> set (sl_calls (st j)). rc_pc c = CallDone))"
proof -
  obtain ls sl1 where sl1: "lk_run sample_runtime sample_lookup ls sl1" "sl_loop sl1 = LoopDone"
    using sample_stops by blast
  obtain ls' sl2 where sl2: "lk_run sample_runtime sl1 ls' sl2" "\<forall>c \<in> set (sl_calls sl2). rc_pc c = CallDone"
    using finishes [OF lookup_inv(1) [OF sl1(1) [unfolded sample_lookup_def]] sl1(2)] by blast
  have run: "lk_run sample_runtime sample_lookup (ls @ ls') sl2"
    using lk_run_trans [OF sl2(1) sl1(1)] .
  have loop: "sl_loop sl2 = LoopDone"
    using done_run [OF sl2(1) lookup_inv(1) [OF sl1(1) [unfolded sample_lookup_def]] sl1(2)] by blast
  then have ctx: "sl_ctx sl2 = Cancelled"
    using lookup_inv(1) [OF run [unfolded sample_lookup_def]] by (simp add: life_inv_def)
  have "sum_list (map (\<lambda>c. mset (call_todos (rc_pc c))) cs) = {#}" if "\<forall>c \<in> set cs. rc_pc c = CallDone" for cs
    using that by (induction cs) auto
  then have "pending sl2 = {#}"
    using loop sl2(2) by (simp add: pending_def)
  moreover have "lk_run sample_runtime (NewSliceLookup ''target'' ''client'' DefaultStateMachineConfig [] (\<lambda>_. 0)) [] sample_lookup"
    by (simp add: sample_lookup_def)
  ultimately obtain st lab where st: "lookup_path sample_runtime st lab" "fair_acting st lab" "st 0 = sample_lookup"
      "\<forall>k \<ge> length (ls @ ls'). st k = sl2"
    using run_rests [OF _ run] ctx by (metis lookup_context.distinct(3))
  have "\<exists>j \<ge> k. \<not> unfinished i (st j)" for i k
    using st(4) sl2(2) by (intro exI [of _ "max k (length (ls @ ls'))"]) (simp add: unfinished_def all_set_conv_all_nth)
  then have "fair_calls st lab"
    by (simp add: fair_calls_def weakly_fair_if_idle)
  moreover have "fair_select st lab"
    using st(4) loop unfolding fair_select_def strongly_fair_def by (metis loop_pc.distinct(9))
  moreover have "sl_ctx (st (length (ls @ ls'))) = Cancelled"
    using st(4) ctx by simp
  ultimately show ?thesis
    using fair_stop [OF st(1,2)] st(1,3) by blast
qed

end
