(* ===== verification/ProcessLiveness.thy ===== *)
theory ProcessLiveness
  imports LookupCache LookupLiveness
begin

text \<open>
  What happens for certain when a process runs on for ever and treats its goroutines fairly: a \<open>Close\<close> of
  the cache returns, and everything that was cached comes to an end.
\<close>

section \<open>The part of a lookup\<close>

text \<open>What a step of the process is to the lookup \<open>i\<close>. A step that does not concern it leaves it as it is,
  which \<open>Start\<close> does to a lookup that has been started.\<close>

fun part :: "nat \<Rightarrow> process_label \<Rightarrow> lookup_label" where
  "part i (InLookup j l) = (if j = i then l else Client Start)"
| "part i (CloseCancel j) = (if j = i then Client Stop else Client Start)"
| "part i l = Client Start"

lemma start_idle: "sl_ctx sl \<noteq> NotStarted \<Longrightarrow> lk_step env sl (Client Start) sl"
  using lk_step.client [OF client_step.start [of sl]] by (simp add: lookup_Start_def)

lemma part_step:
  assumes "proc_step env p l p'" and "i < length (pr_store p)" and "sl_ctx (pr_store p ! i) \<noteq> NotStarted"
  shows "lk_step env (pr_store p ! i) (part i l) (pr_store p' ! i)"
  using assms(1)
proof (cases rule: proc_step.cases)
  case (get rng target clientName cfg opts ptr c st)
  from get(4) have "st ! i = pr_store p ! i"
    using assms(2) by (cases rule: GetOrCreate_cases) (simp_all add: nth_append)
  then show ?thesis using get(1,2) start_idle [OF assms(3)] by simp
next
  case (clerk rng target clientName cfg opts ck st)
  then show ?thesis using start_idle [OF assms(3)] assms(2) by (auto simp: NewClerk_def nth_append)
qed (use start_idle [OF assms(3)] cancel_step assms(2) in \<open>auto simp: nth_list_update\<close>)

section \<open>Fair runs of the process\<close>

definition process_path :: "runtime \<Rightarrow> (nat \<Rightarrow> process) \<Rightarrow> (nat \<Rightarrow> process_label) \<Rightarrow> bool" where
  "process_path env st lab \<longleftrightarrow> path (proc_step env) st lab \<and> (\<exists>ls. proc_run env new_process ls (st 0))"

text \<open>The steps of \<open>Close\<close> after its call, and whether it can take one.\<close>

fun closing :: "process_label \<Rightarrow> bool" where
  "closing (CloseCancel i) = True"
| "closing (CloseWaited i) = True"
| "closing CloseReturn = True"
| "closing l = False"

definition close_enabled :: "runtime \<Rightarrow> process \<Rightarrow> bool" where
  "close_enabled env p \<longleftrightarrow> (\<exists>l p'. closing l \<and> proc_step env p l p')"

definition fair_closer :: "runtime \<Rightarrow> (nat \<Rightarrow> process) \<Rightarrow> (nat \<Rightarrow> process_label) \<Rightarrow> bool" where
  "fair_closer env st lab \<longleftrightarrow> weakly_fair st lab (close_enabled env) closing"

text \<open>Every lookup that runs is treated fairly, in each of its goroutines.\<close>

definition lookup_part :: "nat \<Rightarrow> nat \<Rightarrow> (nat \<Rightarrow> process) \<Rightarrow> nat \<Rightarrow> slice_lookup" where
  "lookup_part i k st j = pr_store (st (k + j)) ! i"

definition label_part :: "nat \<Rightarrow> nat \<Rightarrow> (nat \<Rightarrow> process_label) \<Rightarrow> nat \<Rightarrow> lookup_label" where
  "label_part i k lab j = part i (lab (k + j))"

definition fair_lookups :: "(nat \<Rightarrow> process) \<Rightarrow> (nat \<Rightarrow> process_label) \<Rightarrow> bool" where
  "fair_lookups st lab \<longleftrightarrow> (\<forall>i k. i < length (pr_store (st k)) \<longrightarrow>
     fair_acting (lookup_part i k st) (label_part i k lab)
     \<and> fair_calls (lookup_part i k st) (label_part i k lab)
     \<and> fair_select (lookup_part i k st) (label_part i k lab))"

lemma process_path_step: "process_path env st lab \<Longrightarrow> proc_step env (st k) (lab k) (st (Suc k))"
  by (simp add: process_path_def path_step)

lemma process_path_run: "process_path env st lab \<Longrightarrow> k \<le> j \<Longrightarrow> proc_run env (st k) (map lab [k..<j]) (st j)"
  unfolding process_path_def by (intro path_run) simp_all

lemma process_path_inv: "process_path env st lab \<Longrightarrow> proc_inv env (st k)"
  using process_path_run [of env st lab 0 k] process_inv proc_run_trans by (simp add: process_path_def) blast

text \<open>From the state on in which it runs, the part of a lookup is an infinite run of the lookup.\<close>

lemma process_path_started:
  assumes "process_path env st lab" and "i < length (pr_store (st k))" and "sl_ctx (pr_store (st k) ! i) \<noteq> NotStarted"
    and "k \<le> j"
  shows "i < length (pr_store (st j)) \<and> sl_ctx (pr_store (st j) ! i) \<noteq> NotStarted"
proof -
  have "i < length (pr_store (st j)) \<and> (\<exists>ls. lk_run env (pr_store (st k) ! i) ls (pr_store (st j) ! i))"
    using proc_run_lookup [OF process_path_run [OF assms(1,4)] process_path_inv [OF assms(1)] assms(2)] .
  then show ?thesis using lk_run_identity assms(3) by blast
qed

lemma lookup_part_path:
  assumes "process_path env st lab" and "i < length (pr_store (st k))" and "sl_ctx (pr_store (st k) ! i) \<noteq> NotStarted"
  shows "lookup_path env (lookup_part i k st) (label_part i k lab)"
proof -
  have "lk_step env (pr_store (st j) ! i) (part i (lab j)) (pr_store (st (Suc j)) ! i)" if "k \<le> j" for j
    using part_step [OF process_path_step [OF assms(1)]] process_path_started [OF assms that] by blast
  then have "path (lk_step env) (lookup_part i k st) (label_part i k lab)"
    by (simp add: path_def lookup_part_def label_part_def)
  moreover have "grown env (pr_store (st k) ! i)"
    using proc_inv_grown [OF process_path_inv [OF assms(1)] assms(2)] .
  ultimately show ?thesis
    by (simp add: lookup_path_def lookup_part_def grown_def)
qed

section \<open>\<open>Close\<close> goes on\<close>

fun close_size :: "close_pc \<Rightarrow> nat" where
  "close_size CacheOpen = 0"
| "close_size (StoppingAll ptrs) = 2 * length ptrs + 1"
| "close_size (WaitingFor i ptrs) = 2 * length ptrs + 2"

lemma closing_step:
  assumes "proc_step env p l p'" and "pr_close p \<noteq> CacheOpen"
  shows "if closing l
    then close_size (pr_close p') < close_size (pr_close p) \<and> (l \<noteq> CloseReturn \<longrightarrow> pr_close p' \<noteq> CacheOpen)
    else pr_close p' = pr_close p"
  using assms(1) by (cases rule: proc_step.cases) (use assms(2) in auto)

lemma close_enabled_stopping: "pr_close p = StoppingAll ptrs \<Longrightarrow> close_enabled env p"
  unfolding close_enabled_def
  using proc_step.close_cancel [of p] proc_step.close_return [of p] by (cases ptrs) (meson closing.simps)+

lemma close_enabled_waiting: "pr_close p = WaitingFor i ptrs \<Longrightarrow> sl_loop (pr_store p ! i) = LoopDone \<Longrightarrow> close_enabled env p"
  unfolding close_enabled_def using proc_step.close_waited [of p i ptrs env] by (meson closing.simps(2))

text \<open>The lookup that \<open>Close\<close> waits for comes to its end and stays there.\<close>

lemma waited_ends:
  assumes "process_path env st lab" and "fair_lookups st lab" and "pr_close (st k) = WaitingFor i ptrs"
  shows "\<exists>k0 \<ge> k. \<forall>j \<ge> k0. sl_loop (pr_store (st j) ! i) = LoopDone"
proof -
  have i: "i < length (pr_store (st k))" "sl_ctx (pr_store (st k) ! i) = Cancelled"
    using process_path_inv [OF assms(1), of k] assms(3) by (auto simp: proc_inv_def serves_def)
  let ?st = "lookup_part i k st" and ?lab = "label_part i k lab"
  have path: "lookup_path env ?st ?lab"
    using lookup_part_path [OF assms(1) i(1)] i(2) by simp
  have fair: "fair_acting ?st ?lab" "fair_select ?st ?lab"
    using assms(2) i(1) by (auto simp: fair_lookups_def)
  obtain m where m: "sl_loop (?st m) = LoopDone"
    using loop_stops [OF path fair, of 0] i(2) by (auto simp: lookup_part_def)
  have "sl_loop (pr_store (st j) ! i) = LoopDone" if "k + m \<le> j" for j
  proof -
    have "sl_loop (?st (j - k)) = LoopDone"
      using done_run [OF lookup_path_run [OF path, of m "j - k"] lookup_path_inv(1) [OF path] m] that by simp
    then show ?thesis using that by (simp add: lookup_part_def)
  qed
  then show ?thesis by (meson le_add1)
qed

lemma closer_moves:
  assumes "process_path env st lab" and "fair_lookups st lab" and "fair_closer env st lab" and "pr_close (st k) \<noteq> CacheOpen"
  shows "\<exists>j \<ge> k. closing (lab j) \<and> pr_close (st j) = pr_close (st k)"
proof -
  have same: "pr_close (st j) = pr_close (st k)" if "k \<le> j" "\<forall>i. k \<le> i \<and> i < j \<longrightarrow> \<not> closing (lab i)" for j
    using that
  proof (induction rule: dec_induct)
    case (step n)
    then show ?case using closing_step [OF process_path_step [OF assms(1)], of n] assms(4) by auto
  qed simp
  have "\<exists>j \<ge> k. closing (lab j)"
  proof (rule ccontr)
    assume "\<nexists>j. k \<le> j \<and> closing (lab j)"
    then have stays: "pr_close (st j) = pr_close (st k)" if "k \<le> j" for j
      using same that by blast
    have "\<exists>k0 \<ge> k. \<forall>j \<ge> k0. close_enabled env (st j)"
    proof (cases "pr_close (st k)")
      case CacheOpen
      then show ?thesis using assms(4) by simp
    next
      case (StoppingAll ptrs)
      then have "close_enabled env (st j)" if "k \<le> j" for j
        using stays [OF that] close_enabled_stopping by simp
      then show ?thesis by blast
    next
      case (WaitingFor i ptrs)
      then obtain k0 where k0: "k \<le> k0" "\<forall>j \<ge> k0. sl_loop (pr_store (st j) ! i) = LoopDone"
        using waited_ends [OF assms(1,2)] by blast
      have "close_enabled env (st j)" if "k0 \<le> j" for j
        using close_enabled_waiting [of "st j" i ptrs env] stays [of j] WaitingFor k0 that by simp
      then show ?thesis using k0(1) by blast
    qed
    then show False
      using assms(3) \<open>\<nexists>j. k \<le> j \<and> closing (lab j)\<close>
      unfolding fair_closer_def weakly_fair_def by (meson order_trans)
  qed
  then obtain j where j: "k \<le> j" "closing (lab j)" "\<forall>i < j. \<not> (k \<le> i \<and> closing (lab i))"
    using exists_least_iff [of "\<lambda>j. k \<le> j \<and> closing (lab j)"] by blast
  then show ?thesis using same [OF j(1)] by blast
qed

lemma close_returns:
  assumes "process_path env st lab" and "fair_lookups st lab" and "fair_closer env st lab"
  shows "pr_close (st k) \<noteq> CacheOpen \<Longrightarrow> \<exists>j \<ge> k. lab j = CloseReturn"
proof (induction "close_size (pr_close (st k))" arbitrary: k rule: less_induct)
  case less
  obtain j where j: "k \<le> j" "closing (lab j)" "pr_close (st j) = pr_close (st k)"
    using closer_moves [OF assms less.prems] by blast
  show ?case
  proof (cases "lab j = CloseReturn")
    case True
    then show ?thesis using j(1) by blast
  next
    case False
    then have "close_size (pr_close (st (Suc j))) < close_size (pr_close (st k))" "pr_close (st (Suc j)) \<noteq> CacheOpen"
      using closing_step [OF process_path_step [OF assms(1)], of j] j less.prems by simp_all
    then show ?thesis using less.hyps j(1) by (meson Suc_leD order_trans)
  qed
qed

text \<open>
  C22: Closing the cache returns and stops everything: in every infinite run of a process that treats the
  goroutines fairly, a \<open>Close\<close> that is under way returns at some point, with an empty cache; then the loop of
  every lookup that was cached has ended and its machine is cancelled, and from some later point on all its
  requests have ended and none of its connections is open, for good.
\<close>

theorem fair_close:
  assumes "process_path env st lab" and "fair_lookups st lab" and "fair_closer env st lab"
    and "pr_close (st k) \<noteq> CacheOpen"
  shows "\<exists>j \<ge> k. pr_close (st (Suc j)) = CacheOpen \<and> cache_Size (pr_cache (st (Suc j))) = 0
    \<and> (\<forall>e \<in> set (lc_cache (pr_cache (st k))).
        sl_loop (pr_store (st (Suc j)) ! snd e) = LoopDone \<and> IsCancelled (sl_sm (pr_store (st (Suc j)) ! snd e))
        \<and> (\<exists>k0. \<forall>n \<ge> k0. let sl = pr_store (st n) ! snd e in
            (\<forall>c \<in> set (sl_calls sl). rc_pc c = CallDone) \<and> (\<forall>i. \<not> connected i sl)))"
proof -
  obtain j where j: "k \<le> j" "lab j = CloseReturn" "\<forall>i < j. \<not> (k \<le> i \<and> lab i = CloseReturn)"
    using close_returns [OF assms] exists_least_iff [of "\<lambda>j. k \<le> j \<and> lab j = CloseReturn"] by blast
  have step: "proc_step env (st j) CloseReturn (st (Suc j))"
    using process_path_step [OF assms(1), of j] j(2) by simp
  have entry: "e \<in> set (lc_cache (pr_cache (st j)))" if "e \<in> set (lc_cache (pr_cache (st k)))" for e
  proof -
    have "CloseReturn \<notin> set (map lab [k..<j])" using j(3) by fastforce
    then show ?thesis using proc_run_entries [OF process_path_run [OF assms(1) j(1)] that] by blast
  qed
  have ends: "\<exists>k0. \<forall>n \<ge> k0. let sl = pr_store (st n) ! snd e in
      (\<forall>c \<in> set (sl_calls sl). rc_pc c = CallDone) \<and> (\<forall>i. \<not> connected i sl)"
    if e: "e \<in> set (lc_cache (pr_cache (st j)))" for e
  proof -
    let ?st = "lookup_part (snd e) j st" and ?lab = "label_part (snd e) j lab"
    have i: "snd e < length (pr_store (st j))" "sl_ctx (?st 0) = Cancelled"
      using close_return_stopped [OF process_path_inv [OF assms(1)] step e] by (simp_all add: lookup_part_def)
    have path: "lookup_path env ?st ?lab"
      using lookup_part_path [OF assms(1) i(1)] i(2) by (simp add: lookup_part_def)
    have fair: "fair_acting ?st ?lab" "fair_calls ?st ?lab" "fair_select ?st ?lab"
      using assms(2) i(1) by (auto simp: fair_lookups_def)
    obtain m where m: "\<forall>n \<ge> m. work_left (?st n) = 0"
      using lookup_rests [OF path fair i(2)] by blast
    have "let sl = pr_store (st n) ! snd e in
        (\<forall>c \<in> set (sl_calls sl). rc_pc c = CallDone) \<and> (\<forall>i. \<not> connected i sl)" if "j + m \<le> n" for n
      using at_rest [OF m [rule_format, of "n - j"]] that by (simp add: lookup_part_def Let_def)
    then show ?thesis by blast
  qed
  have "pr_close (st (Suc j)) = CacheOpen \<and> cache_Size (pr_cache (st (Suc j))) = 0"
    using step by (cases rule: proc_step.cases) (simp add: cache_Size_def NewSliceLookupCache_def)
  then show ?thesis
    using j(1) entry ends close_return_stopped [OF process_path_inv [OF assms(1)] step] by blast
qed

text \<open>A process that comes to rest when everything has ended has treated everybody fairly.\<close>

lemma process_rests:
  assumes "process_path env st lab" and "\<And>j. n \<le> j \<Longrightarrow> st j = p" and "pr_close p = CacheOpen"
    and "\<And>sl. sl \<in> set (pr_store p) \<Longrightarrow> sl_loop sl = LoopDone \<and> (\<forall>c \<in> set (sl_calls sl). rc_pc c = CallDone)"
  shows "fair_lookups st lab" and "fair_closer env st lab"
proof -
  have "\<not> close_enabled env p"
    using assms(3) by (auto simp: close_enabled_def elim!: closing.elims elim: proc_step.cases)
  then have "\<exists>j \<ge> k. \<not> close_enabled env (st j)" for k
    using assms(2) [of "max k n"] by (metis max.cobounded1 max.cobounded2)
  then show "fair_closer env st lab"
    by (simp add: fair_closer_def weakly_fair_if_idle)
  have "fair_acting (lookup_part i k st) l \<and> fair_calls (lookup_part i k st) l \<and> fair_select (lookup_part i k st) l"
    if "i < length (pr_store (st k))" for i k l
  proof -
    have i: "i < length (pr_store p)"
      using proc_run_lookup [OF process_path_run [OF assms(1), of k "max k n"] process_path_inv [OF assms(1)] that]
        assms(2) [of "max k n"] by simp
    let ?sl = "pr_store p ! i"
    have still: "lookup_part i k st j = ?sl" if "n \<le> j" for j
      using assms(2) [of "k + j"] that by (simp add: lookup_part_def)
    have rest: "sl_loop ?sl = LoopDone" "\<forall>c \<in> set (sl_calls ?sl). rc_pc c = CallDone"
      using assms(4) [OF nth_mem [OF i]] by blast+
    have idle: "todos_of g ?sl = []" "\<not> unfinished m ?sl" for g m
      using rest(1) rest(2) [rule_format, OF nth_mem] by (cases g; simp add: unfinished_def)+
    have "\<exists>j \<ge> b. todos_of g (lookup_part i k st j) = []" "\<exists>j \<ge> b. \<not> unfinished m (lookup_part i k st j)" for b g m
      using still [of "max b n"] idle by (metis max.cobounded1 max.cobounded2)+
    moreover have "\<exists>b. \<forall>j \<ge> b. sl_loop (lookup_part i k st j) \<noteq> Selecting"
      using still rest(1) by (intro exI [of _ n]) simp
    ultimately show ?thesis
      by (auto simp: fair_acting_def fair_calls_def fair_select_def strongly_fair_def weakly_fair_if_idle)
  qed
  then show "fair_lookups st lab"
    by (simp add: fair_lookups_def)
qed

text \<open>The sample process, closed while its lookup runs.\<close>

abbreviation sample_closing :: process where
  "sample_closing \<equiv> sample_process sample_started (StoppingAll [0])"

lemma sample_closing_reached:
  "proc_run sample_runtime new_process [GetLookup ''target'' sample_config 0, CloseCall [0]] sample_closing"
proof -
  have "proc_step sample_runtime (sample_process sample_started CacheOpen) (CloseCall [0]) sample_closing"
    using proc_step.close_call [of "sample_process sample_started CacheOpen" "[0]" sample_runtime] by simp
  from proc_run_snoc [OF sample_cached this] show ?thesis by simp
qed

lemma sample_closes:
  "\<exists>ls p. proc_run sample_runtime sample_closing ls p \<and> pr_close p = CacheOpen
    \<and> (\<forall>sl \<in> set (pr_store p). sl_ctx sl = Cancelled \<and> sl_loop sl = LoopDone
          \<and> (\<forall>c \<in> set (sl_calls sl). rc_pc c = CallDone)) \<and> length (pr_store p) = 1"
proof -
  let ?p = "sample_process (lookup_cancel sample_started) (WaitingFor 0 [])"
  have cancel: "proc_step sample_runtime sample_closing (CloseCancel 0) ?p"
    using proc_step.close_cancel [of sample_closing 0 "[]" sample_runtime] by simp
  have inv: "proc_inv sample_runtime ?p"
    using process_inv [OF proc_run_snoc [OF sample_closing_reached cancel]] .
  have life: "life_inv (lookup_cancel sample_started)" "sl_ctx (lookup_cancel sample_started) = Cancelled"
    using inv grown_life by (auto simp: proc_inv_def)
  obtain ls1 sl1 where sl1: "lk_run sample_runtime (lookup_cancel sample_started) ls1 sl1" "sl_loop sl1 = LoopDone"
    using loop_ends [OF life] by blast
  have life1: "life_inv sl1"
    using life_inv_run [OF sl1(1) life(1)] .
  obtain ls2 sl2 where sl2: "lk_run sample_runtime sl1 ls2 sl2" "\<forall>c \<in> set (sl_calls sl2). rc_pc c = CallDone"
    using finishes [OF life1 sl1(2)] by blast
  have ended: "sl_loop sl2 = LoopDone" "sl_ctx sl2 = Cancelled"
    using done_run [OF sl2(1) life1 sl1(2)] life_inv_run [OF sl2(1) life1] by (simp_all add: life_inv_def)
  have "proc_run sample_runtime ?p (map (InLookup 0) (ls1 @ ls2)) (sample_process sl2 (WaitingFor 0 []))"
    using lift_run [of 0 ?p sample_runtime "ls1 @ ls2" sl2] lk_run_trans [OF sl2(1) sl1(1)] by simp
  moreover have "proc_step sample_runtime (sample_process sl2 (WaitingFor 0 [])) (CloseWaited 0)
      (sample_process sl2 (StoppingAll []))"
    using proc_step.close_waited [of "sample_process sl2 (WaitingFor 0 [])" 0 "[]" sample_runtime] ended by simp
  moreover have "proc_step sample_runtime (sample_process sl2 (StoppingAll [])) CloseReturn
      \<lparr>pr_store = [sl2], pr_cache = NewSliceLookupCache, pr_close = CacheOpen\<rparr>"
    using proc_step.close_return [of "sample_process sl2 (StoppingAll [])" sample_runtime] by simp
  ultimately have "\<exists>ls. proc_run sample_runtime sample_closing ls
      \<lparr>pr_store = [sl2], pr_cache = NewSliceLookupCache, pr_close = CacheOpen\<rparr>"
    using cancel run_step proc_run_snoc by meson
  then show ?thesis using ended sl2(2) by fastforce
qed

theorem fair_close_witness:
  "\<exists>st lab j. process_path sample_runtime st lab \<and> st 0 = sample_closing \<and> pr_close (st (Suc j)) = CacheOpen
     \<and> sl_loop (pr_store (st (Suc j)) ! 0) = LoopDone"
proof -
  obtain ls p where p: "proc_run sample_runtime sample_closing ls p" "pr_close p = CacheOpen" "length (pr_store p) = 1"
      "\<forall>sl \<in> set (pr_store p). sl_ctx sl = Cancelled \<and> sl_loop sl = LoopDone \<and> (\<forall>c \<in> set (sl_calls sl). rc_pc c = CallDone)"
    using sample_closes by blast
  have "sl_ctx (pr_store p ! 0) \<noteq> NotStarted"
    using p(3,4) nth_mem [of 0 "pr_store p"] by fastforce
  then have "proc_step sample_runtime p (InLookup 0 (Client Start)) (p\<lparr>pr_store := (pr_store p)[0 := pr_store p ! 0]\<rparr>)"
    using p(3) by (intro proc_step.inner start_idle) simp_all
  then have still: "proc_step sample_runtime p (InLookup 0 (Client Start)) p"
    by simp
  obtain st lab where st: "path (proc_step sample_runtime) st lab" "st 0 = sample_closing"
      "\<forall>k \<ge> length ls. st k = p \<and> lab k = InLookup 0 (Client Start)"
    using run_stutters [OF p(1) still] by (elim exE conjE)
  have path: "process_path sample_runtime st lab"
    using st(1,2) sample_closing_reached by (auto simp: process_path_def)
  have fair: "fair_lookups st lab" "fair_closer sample_runtime st lab"
    using process_rests [OF path, of "length ls" p] st(3) p(2,4) by blast+
  have "pr_close (st 0) \<noteq> CacheOpen"
    by (simp add: st(2))
  from fair_close [OF path fair this] show ?thesis
    using path st(2) by fastforce
qed

end
