(* ===== verification/Spec2Isabelle.thy ===== *)
theory Spec2Isabelle
  imports SliceMapOps ConcurrentCell ProcessLiveness
begin

text \<open>
  \<^bold>\<open>godicer: a client for sharded services.\<close> A server side (the assigner, not part of the repository)
  divides the space of byte-string keys into slices and assigns each slice to some server pods; it publishes
  the assignment, stamped with a generation, over a long-polling RPC. The repository is the client: it keeps
  the newest assignment and routes each key to a pod.

  \<^bold>\<open>The parts and how they interact.\<close>

  \<^item> \<open>pkg/friend\<close> is the geometry. \<open>slice.go\<close> is modelled by \<open>SliceKeys\<close> (keys with the comparison that looks
    at an eight-byte prefix first, upper bounds with infinity) and \<open>Slices\<close> (half-open ranges and their set
    operations); \<open>slicemap.go\<close> by \<open>SliceMaps\<close> (\<open>ValidateCompleteSlices\<close>, \<open>NewSliceMap\<close>, the binary search,
    \<open>LookUp\<close>) and \<open>SliceMapOps\<close> (\<open>IntersectSlices\<close>, \<open>CoalesceSlices\<close>, \<open>CreateFromOrderedDisjointEntries\<close>);
    \<open>squid.go\<close>, the identity of a pod incarnation, by \<open>Squids\<close>.
  \<^item> \<open>pkg/common\<close> is the data. \<open>generation.go\<close> is modelled by \<open>Generations\<close>; \<open>assignment.go\<close> and
    \<open>subslice_annotation.go\<close> by \<open>Assignments\<close>; \<open>proto_converter.go\<close> by \<open>ProtoConverter\<close> over the message
    records of \<open>ProtoMessages\<close> (from \<open>pkg/proto/dicer.pb.go\<close>); \<open>atomic_assignment.go\<close> by \<open>AtomicCell\<close> for one
    goroutine and \<open>ConcurrentCell\<close> for many. The \<open>String\<close> methods of both packages are in \<open>Printing\<close>.
  \<^item> \<open>pkg/client\<close> is the behaviour. \<open>router.go\<close> is modelled by \<open>Router\<close>; \<open>state_machine.go\<close> by
    \<open>SyncStateMachine\<close>, with the floating-point jitter of its backoff in \<open>Floats\<close>; \<open>slice_lookup.go\<close> by
    \<open>SliceLookup\<close>, with what holds of it in \<open>LookupInvariants\<close>, \<open>LookupProgress\<close>, \<open>LookupProperties\<close> and
    \<open>LookupLiveness\<close>; \<open>lookup_cache.go\<close> and \<open>clerk.go\<close> by \<open>LookupCache\<close> and
    \<open>ProcessLiveness\<close>.

  An answer of the server runs through all of them: \<open>executeSendRequest\<close> (\<open>SliceLookup.call_step\<close>) hands it
  to \<open>OnEvent\<close> of the state machine, which decodes it (\<open>AssignmentFromProto\<close>), validates it
  (\<open>NewSliceAssignment\<close>, \<open>NewSliceMap\<close>, \<open>NewAssignment\<close>), compares generations and issues an action;
  \<open>handleAction\<close> puts the assignment into the cell and closes the ready channel; the router reads the cell.

  \<^bold>\<open>How the code is represented.\<close> Structs are records and enumerations datatypes with the source's names, where
  HOL allows them. A function that returns an error or panics is a function into \<open>'a result\<close> (\<open>Prelude\<close>): \<open>Inl
  (Error e)\<close>, \<open>Inl (Panic e)\<close> or \<open>Inr x\<close>. Machine integers are words of their width; times are unbounded
  integers of nanoseconds, durations 64-bit words, so that the wrap-around of a suggested timeout is visible.
  Go maps are HOL maps, or association lists where their iteration order or size matters. Mutation is state
  passing; the store of lookups in \<open>LookupCache\<close> makes the sharing of pointers between clerks explicit.

  Concurrency is interleaving. \<open>ConcurrentCell.cell_step\<close> has one step for each atomic access of
  \<open>Set\<close>, \<open>Get\<close> and \<open>AddListener\<close>. \<open>SliceLookup.lk_step\<close> interleaves the loop, every request in flight and the
  clients of one lookup; one step is one critical section of its mutex, one call on the cell (in one go, which
  linearizability allows) or one exchange with the network.
  \<open>LookupCache.proc_step\<close> interleaves all lookups of a process with the cache and its \<open>Close\<close>. The actions of
  the network (does dialing fail, what does a call return, when) are free choices of the step relations.

  \<^bold>\<open>Interfaces.\<close> Three-way comparison functions share the locale of \<open>Prelude\<close>; \<open>key_directory\<close> (\<open>SliceMaps\<close>) is
  what lookups promise to those who route, \<open>replica_directory\<close> (\<open>Router\<close>) extends it with replicas; encoders and
  decoders share \<open>codec\<close> (\<open>ProtoConverter\<close>), and the threading of the resource pool is a \<open>growing_state\<close> (\<open>Prelude\<close>);
  \<open>versioned_cell\<close> (\<open>AtomicCell\<close>) is what the watcher relies on, extended in \<open>LookupInvariants\<close> by a cell that
  follows a source of increasing versions. Each is interpreted on the definitions of the model.

  \<^bold>\<open>What the theorems show.\<close>

  \<^item> Geometry: the prefix comparison is the lexicographic order; \<open>NewSliceMap\<close> accepts exactly the ordered
    partitions of the key space, and then \<open>LookUp\<close> finds the one entry of every key; the binary search agrees with a
    linear scan and rests on logarithmically many entries; intersection, coalescing and gap filling keep what a lookup returns.
  \<^item> Data: generations are 128-bit numbers; the constructors accept what their contract says, whatever the
    order of map iteration, and nothing else but annotations that follow one reaching infinity; ownership queries agree; encoding and decoding are inverse up to the
    consistency mode, which the wire loses; whatever is decoded is valid; and decoding panics only on nil elements,
    negative indices and incarnations out of range (\<open>wire_safe\<close>), where it does panic.
  \<^item> The cell: concurrent executions are linearizable to the sequential cell, which is what the lookup uses; the
    loop of \<open>Set\<close> is lock-free (a retry is paid for by a swap of another goroutine) and the lock cannot deadlock;
    reads never go back; a \<open>Set\<close> that returns true has called every listener once with its own assignment, but two
    of them may call a listener in the wrong order.
  \<^item> The state machine: in every run the assignments it issues increase strictly, requests are numbered
    consecutively with at most one outstanding, the backoff doubles up to its cap with a jitter between one half and
    one and a half, a request is always sent again but never early, answers to old requests leave the
    outstanding one, the schedule and the backoff alone but replace the redirect, and \<open>OnEvent\<close> returns on every
    safe event.
  \<^item> The lookup: its goroutines refine an abstract watcher with a bag of pending actions (\<open>LookupInvariants\<close>); from
    this follow that the cell follows the state machine, that an encoded assignment that is published ends up
    routing every key, that the assignment is pushed only along redirects to servers watched before, and that the lookup winds down after a stop within a
    bounded number of steps (\<open>LookupProperties\<close>). \<open>LookupProgress\<close> adds what can always still happen: pending actions
    are carried out, a request gets out, every opened connection is cleaned up; so no goroutine is ever stuck,
    and a running lookup can become ready from every state it can reach. \<open>LookupLiveness\<close> shows what does happen in
    every infinite run that is fair to the goroutines (\<open>Fairness\<close>): what has been accepted is published, requests
    are made without end, and a stop ends everything.
  \<^item> The process: a ready clerk routes every key to its owners for good; the cache shares lookups by key;
    in every infinite run that is fair to the goroutines of all lookups a \<open>Close\<close> of the cache returns and ends all
    that was cached (\<open>ProcessLiveness\<close>); a clerk that closes a shared lookup closes it for all.

  \<^bold>\<open>Bounds.\<close> The model uses no fuel: all functions terminate by their structure or by a measure, and the loops of
  goroutines are step relations. Theorems about numbers state their range: the pool of resources of a message
  has fewer than \<open>2 ^ 31\<close> entries, because the indices are \<open>int32\<close>; delays are below \<open>2 ^ 50\<close> nanoseconds, where
  the rounding of the jitter provably stays in its range; the round-robin counter does not wrap within the calls
  considered.

  \<^bold>\<open>Parameters.\<close> The record \<open>runtime\<close> holds what is not under \<open>src/\<close> or is not determined: the UUID library
  (\<open>uuid_Parse\<close>, \<open>uuid_String\<close>) and the order in which \<open>range\<close> visits a map. The random generator is the stream of
  numbers it will draw.

  \<^bold>\<open>Not modelled.\<close> The text of error messages (an error is a constructor); the generated code of \<open>pkg/proto\<close> beyond
  the message types the client uses, with the \<open>oneof\<close> of the subscriber data reduced to the clerk's variant; gRPC:
  a connection is known only by the steps that open it and run its cleanup, and the deadline and the
  cancellation of an RPC are free choices of when it returns with an error; wall-clock scheduling of goroutines:
  liveness is stated as bounds on steps, as the existence of runs, and for infinite runs under explicit fairness;
  listeners of the cell that do not return, or that register further listeners (under the read lock, where this
  would block for ever). Memory
  effects below sequential consistency are left out: the code synchronises through a mutex, atomics and
  channels. \<open>pkg/server\<close> and \<open>pkg/assigner\<close> are named in
  the README but are not in the repository.
\<close>

end
